(* ===== verification/Prelude.thy ===== *)
theory Prelude
  imports Main "HOL-Library.AList" "HOL-Library.Sublist"
begin

section \<open>Prelude: byte strings, results and hash maps\<close>

text \<open>
  The parts of Rust's standard library that every component uses. A Rust \<open>str\<close> is a UTF-8
  byte sequence and is modelled as \<^typ>\<open>string\<close>, one \<^typ>\<open>char\<close> per byte, so lengths and
  indices count bytes as they do in the code. A \<open>Result\<close> is a sum with the error on the left.
  A \<open>HashMap\<close> is an association list with distinct keys: the list order stands for the
  unspecified iteration order, so a statement about every such list covers every order.
\<close>

named_theorems str_simps \<open>equations of the byte-string functions\<close>
named_theorems hm_simps \<open>laws of the hash map operations\<close>

subsection \<open>Bytes\<close>

definition byte :: "char \<Rightarrow> nat" where
  "byte c = of_char c"

definition is_ascii_whitespace :: "char \<Rightarrow> bool" where
  "is_ascii_whitespace c \<longleftrightarrow> byte c \<in> {9, 10, 12, 13, 32}"

definition is_digit :: "char \<Rightarrow> bool" where
  "is_digit c \<longleftrightarrow> 48 \<le> byte c \<and> byte c \<le> 57"

definition to_upper :: "char \<Rightarrow> char" where
  "to_upper c = (if 97 \<le> byte c \<and> byte c \<le> 122 then char_of (byte c - 32) else c)"

definition to_ascii_uppercase :: "string \<Rightarrow> string" where
  "to_ascii_uppercase s = map to_upper s"

definition eq_ignore_ascii_case :: "string \<Rightarrow> string \<Rightarrow> bool" where
  "eq_ignore_ascii_case a b \<longleftrightarrow> to_ascii_uppercase a = to_ascii_uppercase b"

subsection \<open>Slices: prefixes, suffixes, splitting and trimming\<close>

definition starts_with :: "string \<Rightarrow> string \<Rightarrow> bool" where
  "starts_with s pre \<longleftrightarrow> take (length pre) s = pre"

definition ends_with :: "string \<Rightarrow> string \<Rightarrow> bool" where
  "ends_with s suf \<longleftrightarrow> starts_with (rev s) (rev suf)"

definition strip_prefix :: "string \<Rightarrow> string \<Rightarrow> string option" where
  "strip_prefix s pre = (if starts_with s pre then Some (drop (length pre) s) else None)"

definition strip_suffix :: "string \<Rightarrow> string \<Rightarrow> string option" where
  "strip_suffix s suf =
     (if ends_with s suf then Some (take (length s - length suf) s) else None)"

definition split_once :: "char \<Rightarrow> string \<Rightarrow> (string \<times> string) option" where
  "split_once c s =
     (if c \<in> set s then Some (takeWhile (\<lambda>x. x \<noteq> c) s, tl (dropWhile (\<lambda>x. x \<noteq> c) s)) else None)"

fun split_on :: "char \<Rightarrow> string \<Rightarrow> string list" where
  "split_on c [] = [[]]"
| "split_on c (x # xs) =
     (if x = c then [] # split_on c xs
      else (case split_on c xs of [] \<Rightarrow> [[x]] | w # ws \<Rightarrow> (x # w) # ws))"

fun join_with :: "string \<Rightarrow> string list \<Rightarrow> string" where
  "join_with sep [] = []"
| "join_with sep [w] = w"
| "join_with sep (w # v # ws) = w @ sep @ join_with sep (v # ws)"

definition trim_start_matches :: "char \<Rightarrow> string \<Rightarrow> string" where
  "trim_start_matches c s = dropWhile (\<lambda>x. x = c) s"

definition trim_end_matches :: "char \<Rightarrow> string \<Rightarrow> string" where
  "trim_end_matches c s = rev (dropWhile (\<lambda>x. x = c) (rev s))"

definition trim_matches :: "char \<Rightarrow> string \<Rightarrow> string" where
  "trim_matches c s = trim_end_matches c (trim_start_matches c s)"

text \<open>The first position of a pattern, as \<open>str::find\<close>.\<close>

fun find_str :: "string \<Rightarrow> string \<Rightarrow> nat option" where
  "find_str pat [] = (if pat = [] then Some 0 else None)"
| "find_str pat (x # xs) =
     (if starts_with (x # xs) pat then Some 0 else map_option Suc (find_str pat xs))"

lemma find_str_bound: "find_str pat s = Some i \<Longrightarrow> i + length pat \<le> length s"
proof (induction s arbitrary: i)
  case Nil
  then show ?case by (simp split: if_splits)
next
  case (Cons x xs)
  show ?case
  proof (cases "starts_with (x # xs) pat")
    case True
    then have "length pat \<le> length (x # xs)"
      unfolding starts_with_def by (metis length_take min.absorb_iff2 min.commute)
    with True Cons.prems show ?thesis by simp
  next
    case False
    with Cons show ?thesis by auto
  qed
qed

text \<open>
  \<open>str::trim\<close> removes Unicode white space. \<open>ws_len s\<close> is the number of bytes of the white-space
  character that \<open>s\<close> starts with (0 if it starts with none): U+0009 to U+000D, U+0020, U+0085,
  U+00A0, U+1680, U+2000 to U+200A, U+2028, U+2029, U+202F, U+205F and U+3000 in UTF-8.
\<close>

definition ws1 :: "char \<Rightarrow> bool" where
  "ws1 a \<longleftrightarrow> (9 \<le> byte a \<and> byte a \<le> 13) \<or> byte a = 32"

definition ws2 :: "char \<Rightarrow> char \<Rightarrow> bool" where
  "ws2 a b \<longleftrightarrow> byte a = 194 \<and> (byte b = 133 \<or> byte b = 160)"

definition ws3 :: "char \<Rightarrow> char \<Rightarrow> char \<Rightarrow> bool" where
  "ws3 a b c \<longleftrightarrow>
     (byte a = 225 \<and> byte b = 154 \<and> byte c = 128) \<or>
     (byte a = 226 \<and> byte b = 128 \<and>
        ((128 \<le> byte c \<and> byte c \<le> 138) \<or> byte c = 168 \<or> byte c = 169 \<or> byte c = 175)) \<or>
     (byte a = 226 \<and> byte b = 129 \<and> byte c = 159) \<or>
     (byte a = 227 \<and> byte b = 128 \<and> byte c = 128)"

fun ws_len :: "string \<Rightarrow> nat" where
  "ws_len [] = 0"
| "ws_len [a] = (if ws1 a then 1 else 0)"
| "ws_len [a, b] = (if ws1 a then 1 else if ws2 a b then 2 else 0)"
| "ws_len (a # b # c # s) = (if ws1 a then 1 else if ws2 a b then 2 else if ws3 a b c then 3 else 0)"

fun ws_len_rev :: "string \<Rightarrow> nat" where
  "ws_len_rev [] = 0"
| "ws_len_rev [a] = (if ws1 a then 1 else 0)"
| "ws_len_rev [b, a] = (if ws1 b then 1 else if ws2 a b then 2 else 0)"
| "ws_len_rev (c # b # a # s) = (if ws1 c then 1 else if ws2 b c then 2 else if ws3 a b c then 3 else 0)"

function trim_by :: "(string \<Rightarrow> nat) \<Rightarrow> string \<Rightarrow> string" where
  "trim_by f s = (if f s = 0 \<or> s = [] then s else trim_by f (drop (f s) s))"
  by pat_completeness auto
termination by (relation "measure (\<lambda>(f, s). length s)") auto

declare trim_by.simps [simp del]

definition trim :: "string \<Rightarrow> string" where
  "trim s = rev (trim_by ws_len_rev (rev (trim_by ws_len s)))"

lemma ws_len_ascii: "32 < byte a \<Longrightarrow> byte a < 127 \<Longrightarrow> ws_len (a # s) = 0"
  by (cases s; cases "tl s") (auto simp: ws1_def ws2_def ws3_def)

lemma ws_len_rev_ascii: "32 < byte a \<Longrightarrow> byte a < 127 \<Longrightarrow> ws_len_rev (a # s) = 0"
  by (cases s; cases "tl s") (auto simp: ws1_def ws2_def ws3_def)

lemma trim_ascii:
  assumes "s = a # u" "s = t @ [b]" "32 < byte a" "byte a < 127" "32 < byte b" "byte b < 127"
  shows "trim s = s"
proof -
  have "ws_len s = 0" using ws_len_ascii [OF assms(3,4)] assms(1) by simp
  moreover have "ws_len_rev (rev s) = 0" using ws_len_rev_ascii [OF assms(5,6)] assms(2) by simp
  ultimately show ?thesis by (simp add: trim_def trim_by.simps)
qed

text \<open>\<open>str::split_whitespace\<close>: the maximal runs of characters that are not white space.\<close>

function split_ws :: "string \<Rightarrow> string \<Rightarrow> string list" where
  "split_ws acc s =
     (if s = [] then (if acc = [] then [] else [acc])
      else if ws_len s = 0 then split_ws (acc @ [hd s]) (tl s)
      else (if acc = [] then [] else [acc]) @ split_ws [] (drop (ws_len s) s))"
  by pat_completeness auto
termination by (relation "measure (\<lambda>(acc, s). length s)") auto

declare split_ws.simps [simp del]

definition split_whitespace :: "string \<Rightarrow> string list" where
  "split_whitespace s = split_ws [] s"

text \<open>
  \<open>str::lines\<close>: pieces ended by a line feed, without it and without one carriage return before
  it; a last piece that no line feed ends is a line when it is not empty.
\<close>

definition strip_cr :: "string \<Rightarrow> string" where
  "strip_cr s = (case strip_suffix s [char_of (13::nat)] of Some r \<Rightarrow> r | None \<Rightarrow> s)"

definition lines :: "string \<Rightarrow> string list" where
  "lines s =
     (let ps = split_on (char_of (10::nat)) s
      in map strip_cr (butlast ps) @ (if last ps = [] then [] else [last ps]))"

subsection \<open>Time\<close>

text \<open>
  A \<open>SystemTime\<close> is the signed number of nanoseconds from the epoch and a \<open>Duration\<close> a number of
  nanoseconds.
\<close>

type_synonym system_time = int
type_synonym duration = nat

subsection \<open>Numbers as text\<close>

definition digit_char :: "nat \<Rightarrow> char" where
  "digit_char d = char_of (if d < 10 then 48 + d else 87 + d)"

fun show_base :: "nat \<Rightarrow> nat \<Rightarrow> string" where
  "show_base b n =
     (if b < 2 \<or> n < b then [digit_char n] else show_base b (n div b) @ [digit_char (n mod b)])"

declare show_base.simps [simp del]

definition show_nat :: "nat \<Rightarrow> string" where
  "show_nat n = show_base 10 n"

definition show_hex :: "nat \<Rightarrow> string" where
  "show_hex n = show_base 16 n"

text \<open>The \<open>{:0w}\<close> and \<open>{:0wx}\<close> formats pad with zeros on the left to at least \<open>w\<close> bytes.\<close>

definition pad0 :: "nat \<Rightarrow> string \<Rightarrow> string" where
  "pad0 w s = replicate (w - length s) (CHR ''0'') @ s"

definition digit_val :: "nat \<Rightarrow> char \<Rightarrow> nat option" where
  "digit_val radix c =
     (let b = byte c;
          d = (if 48 \<le> b \<and> b \<le> 57 then b - 48
               else if 97 \<le> b \<and> b \<le> 122 then b - 87
               else if 65 \<le> b \<and> b \<le> 90 then b - 55 else 36)
      in if d < radix then Some d else None)"

fun digits_val :: "nat \<Rightarrow> nat \<Rightarrow> string \<Rightarrow> nat option" where
  "digits_val radix acc [] = Some acc"
| "digits_val radix acc (c # cs) =
     (case digit_val radix c of None \<Rightarrow> None | Some d \<Rightarrow> digits_val radix (acc * radix + d) cs)"

text \<open>
  \<open>from_str_radix\<close> of an unsigned type of \<open>w\<close> bits: one optional plus sign, then at least one
  digit, and an error when the value does not fit.
\<close>

definition from_str_radix :: "nat \<Rightarrow> nat \<Rightarrow> string \<Rightarrow> nat option" where
  "from_str_radix w radix s =
     (let ds = (case s of c # cs \<Rightarrow> (if c = CHR ''+'' then cs else s) | [] \<Rightarrow> [])
      in if ds = [] then None
         else case digits_val radix 0 ds of
                None \<Rightarrow> None
              | Some n \<Rightarrow> if n < 2 ^ w then Some n else None)"

definition parse_u64 :: "string \<Rightarrow> nat option" where
  "parse_u64 s = from_str_radix 64 10 s"

lemma digits_val_append:
  "digits_val r acc (xs @ ys) =
     (case digits_val r acc xs of None \<Rightarrow> None | Some a \<Rightarrow> digits_val r a ys)"
  by (induction xs arbitrary: acc) (auto split: option.splits)

lemma byte_of_nat: "n < 256 \<Longrightarrow> byte (char_of n) = n"
  by (simp add: byte_def)

lemma digit_val_digit_char: "d < r \<Longrightarrow> r \<le> 36 \<Longrightarrow> digit_val r (digit_char d) = Some d"
  by (auto simp: digit_val_def digit_char_def byte_of_nat)

lemma digits_val_show_base:
  "2 \<le> b \<Longrightarrow> b \<le> 36 \<Longrightarrow> digits_val b 0 (show_base b n) = Some n"
proof (induction b n rule: show_base.induct)
  case (1 b n)
  show ?case
  proof (cases "n < b")
    case True
    with 1 show ?thesis by (simp add: show_base.simps [of b n] digit_val_digit_char)
  next
    case False
    with 1 have ih: "digits_val b 0 (show_base b (n div b)) = Some (n div b)" by simp
    have "n mod b < b" using 1(2) by simp
    with False 1 ih show ?thesis
      by (simp add: show_base.simps [of b n] digits_val_append digit_val_digit_char)
  qed
qed

lemma show_base_digits:
  "2 \<le> b \<Longrightarrow> c \<in> set (show_base b n) \<Longrightarrow> \<exists>d < b. c = digit_char d"
proof (induction b n rule: show_base.induct)
  case (1 b n)
  show ?case
  proof (cases "n < b")
    case True
    with 1 show ?thesis by (auto simp: show_base.simps [of b n])
  next
    case False
    have m: "n mod b < b" using 1(2) by simp
    have "c \<in> set (show_base b (n div b)) \<or> c = digit_char (n mod b)"
      using 1 False by (auto simp: show_base.simps [of b n] split: if_splits)
    then show ?thesis using 1(1,2) False m by (elim disjE) (simp, blast)
  qed
qed

lemma show_base_not_Nil [simp]: "show_base b n \<noteq> []"
  by (simp add: show_base.simps [of b n])

lemma show_nat_digits: "c \<in> set (show_nat n) \<Longrightarrow> is_digit c"
  using show_base_digits [of 10 c n]
  by (auto simp: show_nat_def is_digit_def digit_char_def byte_of_nat)

lemma show_nat_not_Nil [simp]: "show_nat n \<noteq> []"
  by (simp add: show_nat_def)

lemma not_digit: "byte c < 48 \<or> 57 < byte c \<Longrightarrow> c \<notin> set (show_nat n)"
  using show_nat_digits [of c n] by (auto simp: is_digit_def)

lemma from_str_radix_show_nat:
  assumes "n < 2 ^ w"
  shows "from_str_radix w 10 (show_nat n) = Some n"
proof -
  obtain c cs where s: "show_nat n = c # cs" by (cases "show_nat n") auto
  have "CHR ''+'' \<notin> set (show_nat n)" by (rule not_digit) (simp add: byte_def)
  with s have "c \<noteq> CHR ''+''" by auto
  with s assms digits_val_show_base [of 10 n] show ?thesis
    by (simp add: from_str_radix_def show_nat_def)
qed

lemma parse_u64_show_nat: "n < 2 ^ 64 \<Longrightarrow> parse_u64 (show_nat n) = Some n"
  unfolding parse_u64_def by (rule from_str_radix_show_nat)

text \<open>A pattern whose first byte does not occur before it is found where it stands.\<close>

lemma find_str_at: "x \<notin> set a \<Longrightarrow> find_str (x # pat) (a @ (x # pat) @ b) = Some (length a)"
  by (induction a) (auto simp: starts_with_def)

lemma find_str_none: "x \<notin> set a \<Longrightarrow> find_str (x # pat) a = None"
  by (induction a) (auto simp: starts_with_def)

end
