(* ===== verification/Hash_Map.thy ===== *)
theory Hash_Map
  imports Prelude "HOL-Library.Multiset"
begin

section \<open>Hash maps: the interface and the association-list model\<close>

text \<open>
  The interface of \<open>std::collections::HashMap\<close> that the stores of the server rely on, as a
  locale of laws, and the association lists that model it. \<open>entry_or_default\<close> is
  \<open>map.entry(k).or_default()\<close>.
\<close>

locale hash_map =
  fixes get :: "'m \<Rightarrow> 'k \<Rightarrow> 'v option"
    and insert :: "'k \<Rightarrow> 'v \<Rightarrow> 'm \<Rightarrow> 'm"
    and remove :: "'k \<Rightarrow> 'm \<Rightarrow> 'm"
    and inv :: "'m \<Rightarrow> bool"
  assumes get_insert: "get (insert k v m) k' = (if k' = k then Some v else get m k')"
    and get_remove: "get (remove k m) k' = (if k' = k then None else get m k')"
    and inv_insert: "inv m \<Longrightarrow> inv (insert k v m)"
    and inv_remove: "inv m \<Longrightarrow> inv (remove k m)"
begin

lemma get_insert_same: "get (insert k v m) k = Some v"
  by (simp add: get_insert)

lemma get_insert_other: "k' \<noteq> k \<Longrightarrow> get (insert k v m) k' = get m k'"
  by (simp add: get_insert)

lemma get_remove_same: "get (remove k m) k = None"
  by (simp add: get_remove)

lemma get_insert_fold:
  "get (fold (\<lambda>(k, v). insert k v) kvs m) k' =
     (case map_of (rev kvs) k' of Some v \<Rightarrow> Some v | None \<Rightarrow> get m k')"
proof (induction kvs arbitrary: m)
  case Nil
  then show ?case by simp
next
  case (Cons kv kvs)
  then show ?case
    by (cases kv) (auto simp: get_insert map_add_def split: option.splits)
qed

lemma inv_insert_fold: "inv m \<Longrightarrow> inv (fold (\<lambda>(k, v). insert k v) kvs m)"
  by (induction kvs arbitrary: m) (auto simp: inv_insert)

end

definition hm_inv :: "('k \<times> 'v) list \<Rightarrow> bool" where
  "hm_inv m \<longleftrightarrow> distinct (map fst m)"

interpretation hm: hash_map map_of AList.update AList.delete hm_inv
proof unfold_locales
  fix k k' :: 'k and v :: 'v and m :: "('k \<times> 'v) list"
  show "map_of (AList.update k v m) k' = (if k' = k then Some v else map_of m k')"
    by (simp add: update_conv')
  show "map_of (AList.delete k m) k' = (if k' = k then None else map_of m k')"
    by (simp add: delete_conv')
  show "hm_inv m \<Longrightarrow> hm_inv (AList.update k v m)"
    by (simp add: hm_inv_def distinct_update)
  show "hm_inv m \<Longrightarrow> hm_inv (AList.delete k m)"
    by (simp add: hm_inv_def distinct_delete)
qed

lemmas hm_laws [hm_simps] =
  hm.get_insert hm.get_remove hm.inv_insert hm.inv_remove hm.get_insert_same
  hm.get_insert_other hm.get_remove_same

definition entry_or_default :: "'k \<Rightarrow> 'v \<Rightarrow> ('k \<times> 'v) list \<Rightarrow> ('k \<times> 'v) list" where
  "entry_or_default k d m = (case map_of m k of None \<Rightarrow> AList.update k d m | Some _ \<Rightarrow> m)"

lemma get_entry_or_default [hm_simps]:
  "map_of (entry_or_default k d m) k' =
     (if k' = k then Some (case map_of m k of None \<Rightarrow> d | Some v \<Rightarrow> v) else map_of m k')"
  by (auto simp: entry_or_default_def hm_simps split: option.splits)

lemma inv_entry_or_default [hm_simps]: "hm_inv m \<Longrightarrow> hm_inv (entry_or_default k d m)"
  by (auto simp: entry_or_default_def hm_simps split: option.splits)

lemma hm_inv_Nil [simp]: "hm_inv []"
  by (simp add: hm_inv_def)

lemma hm_inv_Cons [simp]: "hm_inv ((k, v) # m) \<longleftrightarrow> k \<notin> fst ` set m \<and> hm_inv m"
  by (simp add: hm_inv_def)

lemma hm_inv_filter [hm_simps]: "hm_inv m \<Longrightarrow> hm_inv (filter P m)"
  unfolding hm_inv_def by (rule distinct_map_filter)

lemma hm_in_set: "hm_inv m \<Longrightarrow> (k, v) \<in> set m \<longleftrightarrow> map_of m k = Some v"
  unfolding hm_inv_def by (rule map_of_eq_Some_iff [symmetric])

text \<open>Two iteration orders of one map: the lists are permutations, and lookups agree.\<close>

lemma hm_perm_get:
  assumes "hm_inv m" and "mset m' = mset m"
  shows "hm_inv m'" and "map_of m' = map_of m"
proof -
  have "mset (map fst m') = mset (map fst m)"
    using assms(2) by (simp add: mset_map)
  then have "distinct (map fst m') = distinct (map fst m)"
    by (rule mset_eq_imp_distinct_iff)
  then have "distinct (map fst m')"
    using assms(1) by (simp add: hm_inv_def)
  then show inv: "hm_inv m'"
    by (simp add: hm_inv_def)
  have eq: "set m' = set m"
    using assms(2) by (metis set_mset_mset)
  show "map_of m' = map_of m"
  proof
    fix k
    have "map_of m' k = Some v \<longleftrightarrow> map_of m k = Some v" for v
      using hm_in_set [OF inv, of k v] hm_in_set [OF assms(1), of k v] eq by simp
    then show "map_of m' k = map_of m k"
      by (metis not_None_eq)
  qed
qed

end
