(* ===== verification/Http.thy ===== *)
theory Http
  imports Hash_Map
begin

section \<open>HTTP values and error-to-status conversion (src/utils/error.rs)\<close>

text \<open>
  The values the handlers exchange with axum. A header is its name (axum lower-cases names) with
  its value; \<open>Str s\<close> is a value whose \<open>to_str\<close> succeeds with \<open>s\<close>, \<open>Opaque b\<close> one whose \<open>to_str\<close>
  fails and whose bytes are \<open>b\<close>. \<open>headers.get\<close> gives the first value of a name. A request holds
  what the handlers take from axum: the method's text, the path of the URI (still
  percent-encoded), the headers, what \<open>to_bytes(body, 65536)\<close> gives (\<open>None\<close>: an error, which
  includes a body over the limit), and the body as a stream: the data received and whether
  the stream ended without an error. \<open>NO_RESPONSE\<close> is no status of HTTP: it stands for a handler
  that panics or does not return, so that no response is sent.
\<close>

datatype status =
    OK | CREATED | NO_CONTENT | MULTI_STATUS
  | BAD_REQUEST | UNAUTHORIZED | FORBIDDEN | NOT_FOUND | METHOD_NOT_ALLOWED | CONFLICT
  | PRECONDITION_FAILED | UNSUPPORTED_MEDIA_TYPE | LOCKED
  | INTERNAL_SERVER_ERROR | NOT_IMPLEMENTED | SERVICE_UNAVAILABLE
  | NO_RESPONSE

fun as_u16 :: "status \<Rightarrow> nat" where
  "as_u16 OK = 200"
| "as_u16 CREATED = 201"
| "as_u16 NO_CONTENT = 204"
| "as_u16 MULTI_STATUS = 207"
| "as_u16 BAD_REQUEST = 400"
| "as_u16 UNAUTHORIZED = 401"
| "as_u16 FORBIDDEN = 403"
| "as_u16 NOT_FOUND = 404"
| "as_u16 METHOD_NOT_ALLOWED = 405"
| "as_u16 CONFLICT = 409"
| "as_u16 PRECONDITION_FAILED = 412"
| "as_u16 UNSUPPORTED_MEDIA_TYPE = 415"
| "as_u16 LOCKED = 423"
| "as_u16 INTERNAL_SERVER_ERROR = 500"
| "as_u16 NOT_IMPLEMENTED = 501"
| "as_u16 SERVICE_UNAVAILABLE = 503"
| "as_u16 NO_RESPONSE = 0"

definition is_server_error :: "status \<Rightarrow> bool" where
  "is_server_error s \<longleftrightarrow> 500 \<le> as_u16 s \<and> as_u16 s < 600"

datatype header_value = Str string | Opaque string

type_synonym header_map = "(string \<times> header_value) list"

definition header_str :: "header_map \<Rightarrow> string \<Rightarrow> string option" where
  "header_str h n = (case map_of h n of Some (Str s) \<Rightarrow> Some s | _ \<Rightarrow> None)"

definition header_bytes :: "header_map \<Rightarrow> string \<Rightarrow> string option" where
  "header_bytes h n =
     (case map_of h n of Some (Str s) \<Rightarrow> Some s | Some (Opaque b) \<Rightarrow> Some b | None \<Rightarrow> None)"

definition contains_key :: "header_map \<Rightarrow> string \<Rightarrow> bool" where
  "contains_key h n \<longleftrightarrow> map_of h n \<noteq> None"

record request =
  req_method :: string
  req_path :: string
  req_headers :: header_map
  req_bytes :: "string option"
  req_stream :: "string \<times> bool"

text \<open>
  A body of a response: text, an XML document as the events given to the writer, or a file
  streamed from the file system.
\<close>

datatype 'x body = Empty | Text string | Xml 'x | File_Stream string

record 'x response =
  resp_status :: status
  resp_headers :: "(string \<times> string) list"
  resp_body :: "'x body"

type_synonym 'a app_result = "status + 'a"

definition status_response :: "status \<Rightarrow> 'x response" where
  "status_response s = \<lparr>resp_status = s, resp_headers = [], resp_body = Empty\<rparr>"

fun into_response :: "'x response app_result \<Rightarrow> 'x response" where
  "into_response (Inl s) = status_response s"
| "into_response (Inr r) = r"

lemma status_of_status_response [simp]: "resp_status (status_response s) = s"
  by (simp add: status_response_def)

subsection \<open>OrStatus\<close>

text \<open>
  The conversions of \<open>Result\<close> and \<open>Option\<close> to a status; the level of the log line they write
  is part of their contract (4xx at debug, 5xx at error).
\<close>

datatype log_level = Debug | Error

definition or_status_level :: "status \<Rightarrow> log_level" where
  "or_status_level s = (if is_server_error s then Error else Debug)"

definition or_status :: "'e + 'a \<Rightarrow> status \<Rightarrow> 'a app_result" where
  "or_status r s = (case r of Inl e \<Rightarrow> Inl s | Inr a \<Rightarrow> Inr a)"

definition opt_or_status :: "'a option \<Rightarrow> status \<Rightarrow> 'a app_result" where
  "opt_or_status r s = (case r of None \<Rightarrow> Inl s | Some a \<Rightarrow> Inr a)"

lemma or_status_simps [simp]:
  "or_status (Inl e) s = Inl s" "or_status (Inr a) s = Inr a"
  "opt_or_status None s = Inl s" "opt_or_status (Some a) s = Inr a"
  by (simp_all add: or_status_def opt_or_status_def)

lemma or_status_level_convention:
  "or_status_level BAD_REQUEST = Debug" "or_status_level NOT_FOUND = Debug"
  "or_status_level INTERNAL_SERVER_ERROR = Error" "or_status_level SERVICE_UNAVAILABLE = Error"
  by (simp_all add: or_status_level_def is_server_error_def)

lemma header_str_bytes: "header_str h n = Some s \<Longrightarrow> header_bytes h n = Some s"
  by (auto simp: header_str_def header_bytes_def split: option.splits header_value.splits)

end
