(* ===== verification/Method.thy ===== *)
theory Method
  imports Http
begin

section \<open>WebDAV methods (src/webdav/method.rs)\<close>

text \<open>
  \<open>webdav::Method\<close> and its conversions. An HTTP method is its text; \<open>from_http_method\<close> compares
  the standard methods as constants and the WebDAV ones by text, which is one comparison on
  texts here. The error \<open>InvalidMethod\<close> carries nothing.
\<close>

datatype http_method =
    HEAD | GET | PUT | PATCH | DELETE | OPTIONS | PROPFIND | PROPPATCH | MKCOL | COPY | MOVE
  | LOCK | UNLOCK | REPORT

fun method_as_str :: "http_method \<Rightarrow> string" where
  "method_as_str HEAD = ''HEAD''"
| "method_as_str GET = ''GET''"
| "method_as_str PUT = ''PUT''"
| "method_as_str PATCH = ''PATCH''"
| "method_as_str DELETE = ''DELETE''"
| "method_as_str OPTIONS = ''OPTIONS''"
| "method_as_str PROPFIND = ''PROPFIND''"
| "method_as_str PROPPATCH = ''PROPPATCH''"
| "method_as_str MKCOL = ''MKCOL''"
| "method_as_str COPY = ''COPY''"
| "method_as_str MOVE = ''MOVE''"
| "method_as_str LOCK = ''LOCK''"
| "method_as_str UNLOCK = ''UNLOCK''"
| "method_as_str REPORT = ''REPORT''"

definition from_http_method :: "string \<Rightarrow> http_method option" where
  "from_http_method m =
     (if m = ''GET'' then Some GET
      else if m = ''HEAD'' then Some HEAD
      else if m = ''PUT'' then Some PUT
      else if m = ''PATCH'' then Some PATCH
      else if m = ''DELETE'' then Some DELETE
      else if m = ''OPTIONS'' then Some OPTIONS
      else if m = ''PROPFIND'' then Some PROPFIND
      else if m = ''PROPPATCH'' then Some PROPPATCH
      else if m = ''MKCOL'' then Some MKCOL
      else if m = ''COPY'' then Some COPY
      else if m = ''MOVE'' then Some MOVE
      else if m = ''LOCK'' then Some LOCK
      else if m = ''UNLOCK'' then Some UNLOCK
      else if m = ''REPORT'' then Some REPORT
      else None)"

lemma from_http_method_as_str [simp]: "from_http_method (method_as_str m) = Some m"
  by (cases m) (simp_all add: from_http_method_def)

lemma from_http_method_Some: "from_http_method s = Some m \<Longrightarrow> s = method_as_str m"
  by (auto simp: from_http_method_def split: if_splits)

end
