(* ===== verification/Http_Time.thy ===== *)
theory Http_Time
  imports Prelude "HOL-Library.Signed_Division"
begin

section \<open>Calendar dates and HTTP time formats (src/utils/time.rs)\<close>

text \<open>
  A \<open>SystemTime\<close> is the number of nanoseconds since the Unix epoch, negative before it. The
  machine integers of \<open>civil_from_days\<close> are integers with every \<open>as\<close> cast written out; the
  one product that can leave its type (\<open>era as u64 * 400\<close> for dates before year 0) wraps, as it
  does without overflow checks. Rust's \<open>/\<close> and \<open>%\<close> truncate (\<open>sdiv\<close>, \<open>smod\<close>). Indexing an
  array out of range panics, which is \<open>None\<close>.
\<close>

definition as_u64 :: "int \<Rightarrow> int" where
  "as_u64 x = x mod 2 ^ 64"

definition as_i64 :: "int \<Rightarrow> int" where
  "as_i64 x = (x + 2 ^ 63) mod 2 ^ 64 - 2 ^ 63"

definition as_i32 :: "int \<Rightarrow> int" where
  "as_i32 x = (x + 2 ^ 31) mod 2 ^ 32 - 2 ^ 31"

definition as_u32 :: "int \<Rightarrow> int" where
  "as_u32 x = x mod 2 ^ 32"

definition civil_from_days :: "int \<Rightarrow> int \<times> int \<times> int" where
  "civil_from_days z0 =
     (let z = z0 + 719468;
          era = (if z \<ge> 0 then z sdiv 146097 else (z - 146096) sdiv 146097);
          doe = as_u64 (z - era * 146097);
          yoe = (doe - doe div 1460 + doe div 36524 - doe div 146096) div 365;
          y = as_i64 (as_u64 (yoe + as_u64 (as_u64 era * 400)));
          doy = doe - (365 * yoe + yoe div 4 - yoe div 100);
          mp = (5 * doy + 2) div 153;
          d = doy - (153 * mp + 2) div 5 + 1;
          m = (if mp < 10 then mp + 3 else mp - 9);
          y' = (if m \<le> 2 then y + 1 else y)
      in (as_i32 y', as_u32 m, as_u32 d))"

definition months :: "string list" where
  "months = [''Jan'', ''Feb'', ''Mar'', ''Apr'', ''May'', ''Jun'',
             ''Jul'', ''Aug'', ''Sep'', ''Oct'', ''Nov'', ''Dec'']"

definition day_names :: "string list" where
  "day_names = [''Sun'', ''Mon'', ''Tue'', ''Wed'', ''Thu'', ''Fri'', ''Sat'']"

definition index_or_panic :: "'a list \<Rightarrow> int \<Rightarrow> 'a option" where
  "index_or_panic xs i = (if 0 \<le> i \<and> i < int (length xs) then Some (xs ! nat i) else None)"

definition show_int :: "int \<Rightarrow> string" where
  "show_int i = (if i < 0 then CHR ''-'' # show_nat (nat (- i)) else show_nat (nat i))"

definition fmt0 :: "nat \<Rightarrow> int \<Rightarrow> string" where
  "fmt0 w i =
     (if i < 0 then CHR ''-'' # pad0 (w - 1) (show_nat (nat (- i))) else pad0 w (show_nat (nat i)))"

text \<open>\<open>duration_since(UNIX_EPOCH)\<close> in whole seconds; \<open>None\<close> before the epoch.\<close>

definition secs_since_epoch :: "system_time \<Rightarrow> int option" where
  "secs_since_epoch st = (if st < 0 then None else Some (st div 10 ^ 9))"

definition format_rfc850 :: "system_time \<Rightarrow> string option" where
  "format_rfc850 st =
     (case secs_since_epoch st of
        None \<Rightarrow> Some []
      | Some s \<Rightarrow>
         (let total_secs = as_i64 s;
              days = as_i32 (total_secs sdiv 86400);
              time_of_day = total_secs smod 86400;
              hours = time_of_day sdiv 3600;
              mins = (time_of_day smod 3600) sdiv 60
          in case civil_from_days days of (year, month, day) \<Rightarrow>
             (case index_or_panic months (month - 1) of
                None \<Rightarrow> None
              | Some mon \<Rightarrow>
                  Some (fmt0 2 day @ ''-'' @ mon @ ''-'' @ fmt0 4 year @ '' '' @
                        fmt0 2 hours @ '':'' @ fmt0 2 mins))))"

definition format_rfc1123 :: "system_time \<Rightarrow> string option" where
  "format_rfc1123 st =
     (case secs_since_epoch st of
        None \<Rightarrow> Some []
      | Some s \<Rightarrow>
         (let total_secs = as_i64 s;
              days = as_i32 (total_secs sdiv 86400);
              time_of_day = total_secs smod 86400;
              hours = time_of_day sdiv 3600;
              mins = (time_of_day smod 3600) sdiv 60;
              secs = time_of_day smod 60
          in case civil_from_days days of (year, month, day) \<Rightarrow>
             (case index_or_panic day_names (as_u64 ((days + 4) smod 7)) of
                None \<Rightarrow> None
              | Some dow \<Rightarrow>
             (case index_or_panic months (month - 1) of
                None \<Rightarrow> None
              | Some mon \<Rightarrow>
                  Some (dow @ '', '' @ fmt0 2 day @ '' '' @ mon @ '' '' @ fmt0 4 year @ '' '' @
                        fmt0 2 hours @ '':'' @ fmt0 2 mins @ '':'' @ fmt0 2 secs @ '' GMT'')))))"

definition format_rfc3339 :: "system_time \<Rightarrow> string" where
  "format_rfc3339 st =
     (case secs_since_epoch st of
        None \<Rightarrow> []
      | Some s \<Rightarrow>
         (let total_secs = as_i64 s;
              days = as_i32 (total_secs sdiv 86400);
              time_of_day = total_secs smod 86400;
              hours = time_of_day sdiv 3600;
              mins = (time_of_day smod 3600) sdiv 60;
              secs = time_of_day smod 60
          in case civil_from_days days of (year, month, day) \<Rightarrow>
             fmt0 4 year @ ''-'' @ fmt0 2 month @ ''-'' @ fmt0 2 day @ ''T'' @
             fmt0 2 hours @ '':'' @ fmt0 2 mins @ '':'' @ fmt0 2 secs @ ''Z''))"

lemma format_examples:
  "format_rfc3339 0 = ''1970-01-01T00:00:00Z''"
  "format_rfc3339 (1716134400 * 10 ^ 9) = ''2024-05-19T16:00:00Z''"
  "format_rfc1123 0 = Some ''Thu, 01 Jan 1970 00:00:00 GMT''"
  "format_rfc1123 (1716134400 * 10 ^ 9) = Some ''Sun, 19 May 2024 16:00:00 GMT''"
  "format_rfc850 (1716134400 * 10 ^ 9) = Some ''19-May-2024 16:00''"
  "format_rfc850 (- 1) = Some []"
  by code_simp+

subsection \<open>The calendar, counted day by day\<close>

definition leap :: "int \<Rightarrow> bool" where
  "leap y \<longleftrightarrow> (4 dvd y \<and> \<not> 100 dvd y) \<or> 400 dvd y"

definition month_len :: "int \<Rightarrow> int \<Rightarrow> int" where
  "month_len y m =
     (if m = 2 then (if leap y then 29 else 28) else if m \<in> {4, 6, 9, 11} then 30 else 31)"

definition next_day :: "int \<times> int \<times> int \<Rightarrow> int \<times> int \<times> int" where
  "next_day = (\<lambda>(y, m, d).
     if d < month_len y m then (y, m, d + 1)
     else if m < 12 then (y, m + 1, 1) else (y + 1, 1, 1))"

definition valid_date :: "int \<times> int \<times> int \<Rightarrow> bool" where
  "valid_date = (\<lambda>(y, m, d). 1 \<le> m \<and> m \<le> 12 \<and> 1 \<le> d \<and> d \<le> month_len y m)"

text \<open>
  Years that start in March, numbered within an era of 400: \<open>ystart y\<close> is the first day of year
  \<open>y\<close> in its era; the last year of an era has the leap day that the formula leaves out.
\<close>

definition ystart :: "int \<Rightarrow> int" where
  "ystart y = (if y = 400 then 146097 else 365 * y + y div 4 - y div 100)"

definition yday :: "int \<Rightarrow> int" where
  "yday doe = doe - doe div 1460 + doe div 36524 - doe div 146096"

definition month_day :: "int \<Rightarrow> int \<times> int" where
  "month_day doy =
     (let mp = (5 * doy + 2) div 153
      in (if mp < 10 then mp + 3 else mp - 9, doy - (153 * mp + 2) div 5 + 1))"

lemma yday_Suc: "yday n \<le> yday (n + 1)"
proof -
  have a: "(n + 1) div 1460 \<le> n div 1460 + 1"
    by (simp add: zdiv_mono1 [of "n + 1" "n + 1460" 1460, simplified])
  define q where "q = n div 36524"
  define q' where "q' = (n + 1) div 36524"
  have q: "q \<le> q'" "q' \<le> q + 1"
    unfolding q_def q'_def
    using zdiv_mono1 [of n "n + 1" 36524] zdiv_mono1 [of "n + 1" "n + 36524" 36524] by simp_all
  have e: "n div 146096 = q div 4" "(n + 1) div 146096 = q' div 4"
    unfolding q_def q'_def by (simp_all add: div_mult2_eq [symmetric] zdiv_zmult2_eq [of 4, symmetric])
  have "q - q div 4 \<le> q' - q' div 4"
    using q by linarith
  with a show ?thesis
    unfolding yday_def e q_def [symmetric] q'_def [symmetric] by linarith
qed

lemma yday_mono: "a \<le> b \<Longrightarrow> yday a \<le> yday b"
proof (induction "nat (b - a)" arbitrary: b)
  case 0
  then show ?case by simp
next
  case (Suc k)
  then have "k = nat (b - 1 - a)" "a \<le> b - 1" by auto
  with Suc.hyps(1) have "yday a \<le> yday (b - 1)" by blast
  also have "\<dots> \<le> yday b" using yday_Suc [of "b - 1"] by simp
  finally show ?case .
qed

lemma year_table:
  "list_all (\<lambda>y. 365 * y \<le> yday (ystart y) \<and> yday (ystart (y + 1) - 1) < 365 * (y + 1) \<and>
     ystart (y + 1) - ystart y = (if leap (y + 1) then 366 else 365)) [0..399]"
  by code_simp

lemma day_table:
  "list_all (\<lambda>k. month_day (k + 1) =
      (case month_day k of (m, d) \<Rightarrow>
        if d < month_len 1 m then (m, d + 1) else if m < 12 then (m + 1, 1) else (1, 1)))
    [0..363]"
  by code_simp

lemma day_bounds_table:
  "list_all (\<lambda>k. case month_day k of (m, d) \<Rightarrow>
      1 \<le> m \<and> m \<le> 12 \<and> 1 \<le> d \<and> d \<le> (if k = 365 then 29 else month_len 1 m) \<and>
      (m = 2 \<longrightarrow> (d = 28 \<longleftrightarrow> k = 364)) \<and> (m = 2 \<longrightarrow> d < 28 \<or> 364 \<le> k)) [0..365]"
  by code_simp

lemma year_facts:
  assumes "0 \<le> y" "y \<le> 399"
  shows "365 * y \<le> yday (ystart y)" "yday (ystart (y + 1) - 1) < 365 * (y + 1)"
    "ystart (y + 1) - ystart y = (if leap (y + 1) then 366 else 365)"
  using year_table assms by (auto simp: list_all_iff)

lemma yoe_correct:
  assumes "0 \<le> y" "y \<le> 399" "ystart y \<le> doe" "doe < ystart (y + 1)"
  shows "yday doe div 365 = y"
proof -
  have "365 * y \<le> yday doe"
    using year_facts(1) [OF assms(1,2)] yday_mono [OF assms(3)] by linarith
  moreover have "yday doe < 365 * (y + 1)"
    using year_facts(2) [OF assms(1,2)] yday_mono [of doe "ystart (y + 1) - 1"] assms(4)
    by linarith
  ultimately show ?thesis
    by (intro int_div_pos_eq [of _ _ _ "yday doe - 365 * y"]) simp_all
qed

lemma year_exists:
  assumes "0 \<le> doe" "doe < ystart (int n)"
  shows "\<exists>y. 0 \<le> y \<and> y < int n \<and> ystart y \<le> doe \<and> doe < ystart (y + 1)"
  using assms
proof (induction n)
  case 0
  then show ?case by (simp add: ystart_def)
next
  case (Suc n)
  show ?case
  proof (cases "doe < ystart (int n)")
    case True
    with Suc obtain y where "0 \<le> y \<and> y < int n \<and> ystart y \<le> doe \<and> doe < ystart (y + 1)"
      by blast
    then show ?thesis by (intro exI [of _ y]) simp
  next
    case False
    with Suc.prems show ?thesis by (intro exI [of _ "int n"]) (simp add: add.commute)
  qed
qed

text \<open>
  A day number as era, year of the era and day of the year, and the date the code computes
  from it.
\<close>

definition day_split :: "int \<Rightarrow> int \<Rightarrow> int \<Rightarrow> int \<Rightarrow> bool" where
  "day_split z e y k \<longleftrightarrow>
     z + 719468 = 146097 * e + ystart y + k \<and> 0 \<le> y \<and> y \<le> 399 \<and> 0 \<le> k \<and>
     k < ystart (y + 1) - ystart y"

lemma day_split_exists: "\<exists>e y k. day_split z e y k"
proof -
  define e where "e = (z + 719468) div 146097"
  define doe where "doe = (z + 719468) mod 146097"
  have z: "z + 719468 = 146097 * e + doe"
    unfolding e_def doe_def by (simp add: mult.commute)
  have "0 \<le> doe" "doe < 146097"
    unfolding doe_def by simp_all
  moreover have "ystart (int 400) = 146097"
    by (simp add: ystart_def)
  ultimately obtain y where y: "0 \<le> y" "y < 400" "ystart y \<le> doe" "doe < ystart (y + 1)"
    using year_exists [of doe 400] by auto
  have "day_split z e y (doe - ystart y)"
    using y z unfolding day_split_def by simp
  then show ?thesis by blast
qed

lemma ystart_mono_bound:
  assumes "0 \<le> y" "y \<le> 399"
  shows "0 \<le> ystart y" "ystart y \<le> 145731"
  using assms unfolding ystart_def by auto

lemma era_floor: "(if z \<ge> 0 then z sdiv 146097 else (z - 146096) sdiv 146097) = (z::int) div 146097"
proof (cases "z \<ge> 0")
  case True
  then show ?thesis by (simp add: signed_divide_int_def sgn_if)
next
  case False
  then have "(z - 146096) sdiv 146097 = - ((146096 - z) div 146097)"
    by (simp add: signed_divide_int_def sgn_if)
  also have "(146096 - z) div 146097 = - (z div 146097)"
  proof (rule int_div_pos_eq)
    show "146096 - z = 146097 * (- (z div 146097)) + (146096 - z mod 146097)"
      using mult_div_mod_eq [of 146097 z] by linarith
  qed simp_all
  finally have "(z - 146096) sdiv 146097 = z div 146097" by simp
  with False show ?thesis by simp
qed

text \<open>The date of a split day: everything fits the machine types, so no cast changes a value.\<close>

lemma month_day_bounds:
  assumes "0 \<le> k" "k \<le> 365"
  shows "case month_day k of (m, d) \<Rightarrow>
      1 \<le> m \<and> m \<le> 12 \<and> 1 \<le> d \<and> d \<le> (if k = 365 then 29 else month_len 1 m) \<and>
      (m = 2 \<longrightarrow> (d = 28 \<longleftrightarrow> k = 364)) \<and> (m = 2 \<longrightarrow> d < 28 \<or> 364 \<le> k)"
  using day_bounds_table assms by (simp add: list_all_iff)

lemma civil_from_days_split:
  assumes z: "- (2 ^ 31) \<le> z" "z < 2 ^ 31" and s: "day_split z e y k"
  shows "civil_from_days z =
    (case month_day k of (m, d) \<Rightarrow> (400 * e + y + (if m \<le> 2 then 1 else 0), m, d))"
proof -
  have zb: "- 2147483648 \<le> z" "z < 2147483648"
    using z by simp_all
  have yb: "0 \<le> y" "y \<le> 399" and kb: "0 \<le> k" "k < ystart (y + 1) - ystart y"
    and eq: "z + 719468 = 146097 * e + (ystart y + k)"
    using s unfolding day_split_def by simp_all
  have k: "k \<le> 365" using year_facts(3) [OF yb] kb(2) by (simp split: if_splits)
  have doe: "0 \<le> ystart y + k" "ystart y + k < 146097"
    using ystart_mono_bound [OF yb] kb(1) k by linarith+
  have e: "(z + 719468) div 146097 = e"
    using eq doe by (intro int_div_pos_eq [of _ _ _ "ystart y + k"]) simp_all
  have eb: "- 14700 \<le> e" "e \<le> 14705"
    using eq doe zb by linarith+
  have doe_eq: "as_u64 (z + 719468 - e * 146097) = ystart y + k"
    using eq doe unfolding as_u64_def by (simp add: mult.commute)
  have yoe: "yday (ystart y + k) div 365 = y"
    using yoe_correct [OF yb, of "ystart y + k"] kb by simp
  have ys: "ystart y = 365 * y + y div 4 - y div 100"
    using yb unfolding ystart_def by simp
  have yy: "as_i64 (as_u64 (y + as_u64 (as_u64 e * 400))) = 400 * e + y"
    using eb yb unfolding as_i64_def as_u64_def
    by (simp add: mod_simps mult.commute add.commute)
  obtain m d where md: "month_day k = (m, d)" by (cases "month_day k")
  have mdb: "1 \<le> m" "m \<le> 12" "1 \<le> d" "d \<le> 31"
    using month_day_bounds [OF kb(1) k] md by (auto simp: month_len_def split: if_splits)
  have casts: "as_u32 m = m" "as_u32 d = d"
    "as_i32 (400 * e + y + (if m \<le> 2 then 1 else 0)) = 400 * e + y + (if m \<le> 2 then 1 else 0)"
    using mdb eb yb unfolding as_u32_def as_i32_def by simp_all
  show ?thesis
    using md casts
    unfolding civil_from_days_def Let_def era_floor e doe_eq yday_def [symmetric] yoe yy
    by (simp add: ys month_day_def Let_def split: if_splits)
qed

lemma leap_era: "leap (400 * e + y) = leap y"
proof -
  have "(4::int) dvd 400 * e" "(100::int) dvd 400 * e" "(400::int) dvd 400 * e"
    by (simp_all add: dvd_mult2)
  then show ?thesis
    unfolding leap_def by (simp only: dvd_add_right_iff)
qed

lemma month_day_last: "month_day 0 = (3, 1)" "month_day 364 = (2, 28)" "month_day 365 = (2, 29)"
  by (simp_all add: month_day_def)

lemma month_len_1: "m \<noteq> 2 \<Longrightarrow> month_len y m = month_len 1 m"
  by (simp add: month_len_def)

lemma month_day_Suc:
  assumes "0 \<le> k" "k \<le> 363"
  shows "month_day (k + 1) = (case month_day k of (m, d) \<Rightarrow>
      if d < month_len 1 m then (m, d + 1) else if m < 12 then (m + 1, 1) else (1, 1))"
  using day_table assms by (simp add: list_all_iff)

lemma civil_next_within_year:
  assumes "0 \<le> k" "k + 1 < ystart (y + 1) - ystart y" "0 \<le> y" "y \<le> 399"
  shows "(case month_day (k + 1) of (m, d) \<Rightarrow> (400 * e + y + (if m \<le> 2 then 1 else 0), m, d)) =
    next_day (case month_day k of (m, d) \<Rightarrow> (400 * e + y + (if m \<le> 2 then 1 else 0), m, d))"
proof (cases "k = 364")
  case True
  with assms(2) year_facts(3) [OF assms(3,4)] have "leap (y + 1)" by (simp split: if_splits)
  then have "leap (400 * e + y + 1)" using leap_era [of e "y + 1"] by (simp add: add.assoc)
  with True show ?thesis by (simp add: month_day_last next_day_def month_len_def)
next
  case False
  have k: "k \<le> 363"
    using False assms(2) year_facts(3) [OF assms(3,4)] by (simp split: if_splits)
  obtain m d where md: "month_day k = (m, d)" by (cases "month_day k")
  note b = month_day_bounds [OF assms(1), unfolded md]
  have "d < 28" if "m = 2" using b k that by (simp split: if_splits)
  then have len: "d < month_len yy m \<longleftrightarrow> d < month_len 1 m" for yy
    by (cases "m = 2") (auto simp: month_len_def)
  have "2 < m \<or> d < month_len 1 m \<or> m = 1"
    using \<open>m = 2 \<Longrightarrow> d < 28\<close> b k by (cases "m = 2") (auto simp: month_len_def leap_def)
  then show ?thesis
    using md b k month_day_Suc [OF assms(1) k] len by (auto simp: next_day_def)
qed

lemma civil_next_new_year:
  assumes "0 \<le> k" "k + 1 = ystart (y + 1) - ystart y" "0 \<le> y" "y \<le> 399"
  shows "next_day (case month_day k of (m, d) \<Rightarrow> (400 * e + y + (if m \<le> 2 then 1 else 0), m, d)) =
    (400 * e + y + 1, 3, 1)"
proof -
  have l: "leap (400 * e + y + 1) = leap (y + 1)"
    using leap_era [of e "y + 1"] by (simp add: add.assoc)
  show ?thesis
  proof (cases "leap (y + 1)")
    case True
    then have "k = 365" using assms(2) year_facts(3) [OF assms(3,4)] by simp
    with True l show ?thesis by (simp add: month_day_last next_day_def month_len_def)
  next
    case False
    then have "k = 364" using assms(2) year_facts(3) [OF assms(3,4)] by simp
    with False l show ?thesis by (simp add: month_day_last next_day_def month_len_def)
  qed
qed

lemma day_split_Suc:
  assumes "day_split z e y k"
  shows "k + 1 < ystart (y + 1) - ystart y \<Longrightarrow> day_split (z + 1) e y (k + 1)"
    and "\<not> k + 1 < ystart (y + 1) - ystart y \<Longrightarrow> y < 399 \<Longrightarrow> day_split (z + 1) e (y + 1) 0"
    and "\<not> k + 1 < ystart (y + 1) - ystart y \<Longrightarrow> \<not> y < 399 \<Longrightarrow> day_split (z + 1) (e + 1) 0 0"
proof -
  note s = assms [unfolded day_split_def]
  show "day_split (z + 1) e y (k + 1)" if "k + 1 < ystart (y + 1) - ystart y"
    using s that unfolding day_split_def by linarith
  show "day_split (z + 1) e (y + 1) 0" if h: "\<not> k + 1 < ystart (y + 1) - ystart y" "y < 399"
  proof -
    have "0 < ystart (y + 1 + 1) - ystart (y + 1)"
      using year_facts(3) [of "y + 1"] s h by simp
    with s h show ?thesis unfolding day_split_def by linarith
  qed
  show "day_split (z + 1) (e + 1) 0 0"
    if h: "\<not> k + 1 < ystart (y + 1) - ystart y" "\<not> y < 399"
  proof -
    have "y = 399" using s h by linarith
    then have "ystart (y + 1) = 146097" by (simp add: ystart_def)
    moreover have "ystart 0 = 0" "ystart (0 + 1) = 365" by (simp_all add: ystart_def)
    moreover have "z + 1 + 719468 = 146097 * (e + 1)"
    proof -
      have "z + 719468 = 146097 * e + ystart y + k" "k < ystart (y + 1) - ystart y"
        using s by simp_all
      moreover have "k + 1 \<ge> ystart (y + 1) - ystart y" using h(1) by simp
      ultimately show ?thesis using \<open>ystart (y + 1) = 146097\<close> by simp
    qed
    ultimately show ?thesis unfolding day_split_def by simp
  qed
qed

lemma civil_next_day:
  assumes "- (2 ^ 31) \<le> z" "z + 1 < 2 ^ 31"
  shows "civil_from_days (z + 1) = next_day (civil_from_days z)"
proof -
  obtain e y k where s: "day_split z e y k" using day_split_exists by blast
  note b = s [unfolded day_split_def]
  have z: "- (2 ^ 31) \<le> z + 1" "z < 2 ^ 31" using assms by linarith+
  note c = civil_from_days_split [OF assms(1) z(2) s]
  note c' = civil_from_days_split [OF z(1) assms(2)]
  consider (within) "k + 1 < ystart (y + 1) - ystart y"
    | (year) "\<not> k + 1 < ystart (y + 1) - ystart y" "y < 399"
    | (era) "\<not> k + 1 < ystart (y + 1) - ystart y" "\<not> y < 399" by blast
  then show ?thesis
  proof cases
    case within
    from c' [OF day_split_Suc(1) [OF s within]] show ?thesis
      using civil_next_within_year [of k y e] within b unfolding c by simp
  next
    case year
    from c' [OF day_split_Suc(2) [OF s year]] show ?thesis
      using civil_next_new_year [of k y e] year b unfolding c by (simp add: month_day_last)
  next
    case era
    from c' [OF day_split_Suc(3) [OF s era]] show ?thesis
      using civil_next_new_year [of k y e] era b unfolding c by (simp add: month_day_last)
  qed
qed

lemma civil_epoch: "civil_from_days 0 = (1970, 1, 1)"
  by code_simp

lemma valid_next_day: "valid_date dt \<Longrightarrow> valid_date (next_day dt)"
  by (auto simp: valid_date_def next_day_def month_len_def split: prod.splits if_splits)

lemma calendar_of_days:
  assumes "n < 2 ^ 31"
  shows "civil_from_days (int n) = (next_day ^^ n) (1970, 1, 1)"
  using assms
proof (induction n)
  case 0
  then show ?case by (simp add: civil_epoch)
next
  case (Suc n)
  then have "int n + 1 < 2 ^ 31" by simp
  with civil_next_day [of "int n"] Suc show ?case by (simp add: add.commute)
qed

text \<open>
  The date of day \<open>n\<close> after the epoch is the one reached from 1 January 1970 by \<open>n\<close> steps of
  the Gregorian calendar, for every day number of the \<open>i32\<close> range.
\<close>

theorem civil_from_days_calendar:
  assumes "n < 2 ^ 31"
  shows "civil_from_days (int n) = (next_day ^^ n) (1970, 1, 1)"
  using assms by (rule calendar_of_days)

theorem civil_from_days_calendar_witness:
  "civil_from_days (int 789) = (next_day ^^ 789) (1970, 1, 1)"
  by (rule civil_from_days_calendar) simp

subsection \<open>The formats\<close>

text \<open>
  The reference: the date and the weekday reached by counting days from Thursday, 1 January
  1970, and the time of the day in hours, minutes and seconds.
\<close>

definition calendar_date :: "nat \<Rightarrow> int \<times> int \<times> int" where
  "calendar_date n = (next_day ^^ n) (1970, 1, 1)"

definition weekday :: "nat \<Rightarrow> string" where
  "weekday n = day_names ! ((n + 4) mod 7)"

lemma valid_calendar_date: "valid_date (calendar_date n)"
  unfolding calendar_date_def
  by (induction n) (simp_all add: valid_next_day, simp add: valid_date_def month_len_def)

lemma sdiv_nonneg: "0 \<le> a \<Longrightarrow> 0 < b \<Longrightarrow> a sdiv b = a div (b :: int)"
  by (simp add: signed_divide_int_def sgn_if)

lemma smod_nonneg: "0 \<le> a \<Longrightarrow> 0 < b \<Longrightarrow> a smod b = a mod (b :: int)"
  by (simp add: signed_modulo_int_def sgn_if)

lemma month_name:
  "1 \<le> m \<Longrightarrow> m \<le> 12 \<Longrightarrow> index_or_panic months (m - 1) = Some (months ! nat (m - 1))"
  by (simp add: index_or_panic_def months_def)

lemma time_fields:
  assumes "0 \<le> st" "st < 2 ^ 31 * 86400 * 10 ^ 9" "s = st div 10 ^ 9"
  shows "secs_since_epoch st = Some s" "as_i64 s = s" "0 \<le> s" "s < 2 ^ 31 * 86400"
    "as_i32 (s sdiv 86400) = s div 86400" "s smod 86400 = s mod 86400"
    "(s mod 86400) sdiv 3600 = s mod 86400 div 3600"
    "((s mod 86400) smod 3600) sdiv 60 = s mod 3600 div 60" "(s mod 86400) smod 60 = s mod 60"
    "civil_from_days (s div 86400) = calendar_date (nat (s div 86400))"
proof -
  show s0: "0 \<le> s" using assms by (simp add: pos_imp_zdiv_nonneg_iff)
  have "s < 2 ^ 31 * 86400"
    using assms by (simp add: div_less_iff_less_mult)
  then show s1: "s < 2 ^ 31 * 86400" .
  show "secs_since_epoch st = Some s" using assms by (simp add: secs_since_epoch_def)
  show "as_i64 s = s" using s0 s1 by (simp add: as_i64_def)
  have q: "0 \<le> s div 86400" "s div 86400 < 2 ^ 31"
    using s0 s1 by (simp_all add: pos_imp_zdiv_nonneg_iff div_less_iff_less_mult)
  show "as_i32 (s sdiv 86400) = s div 86400"
    using s0 q by (simp add: signed_divide_int_def sgn_if as_i32_def)
  show "s smod 86400 = s mod 86400" using s0 by (simp only: smod_nonneg)
  have t: "0 \<le> s mod 86400" "0 \<le> s mod 3600" by simp_all
  show "(s mod 86400) sdiv 3600 = s mod 86400 div 3600"
    using t(1) by (rule sdiv_nonneg) simp
  have m1: "s mod 86400 mod 3600 = s mod 3600" and m2: "s mod 86400 mod 60 = s mod 60"
    by (simp_all add: mod_mod_cancel)
  have "(s mod 86400) smod 3600 = s mod 3600"
    using smod_nonneg [OF t(1), of 3600] m1 by simp
  then show "((s mod 86400) smod 3600) sdiv 60 = s mod 3600 div 60"
    using sdiv_nonneg [OF t(2), of 60] by simp
  show "(s mod 86400) smod 60 = s mod 60"
    using smod_nonneg [OF t(1), of 60] m2 by simp
  show "civil_from_days (s div 86400) = calendar_date (nat (s div 86400))"
  proof -
    have "nat (s div 86400) < nat (2 ^ 31)"
      using q by (simp only: nat_less_eq_zless)
    then have "nat (s div 86400) < 2 ^ 31"
      by (simp only: nat_power_eq nat_numeral zero_le_numeral)
    from calendar_of_days [OF this] show ?thesis
      unfolding calendar_date_def using q(1) by (simp only: int_nat_eq if_True)
  qed
qed

text \<open>
  C30: for every time from the epoch on whose day number fits an \<open>i32\<close> (past the year 5000000),
  \<open>format_rfc1123\<close> does not panic and writes the weekday and the date of the calendar and the
  hour, minute and second of the day.
\<close>

theorem format_rfc1123_correct:
  assumes "0 \<le> st" "st < 2 ^ 31 * 86400 * 10 ^ 9" and s: "s = st div 10 ^ 9"
    and date: "calendar_date (nat (s div 86400)) = (y, m, d)"
  shows "format_rfc1123 st =
    Some (weekday (nat (s div 86400)) @ '', '' @ fmt0 2 d @ '' '' @ months ! nat (m - 1) @ '' '' @
      fmt0 4 y @ '' '' @ fmt0 2 (s mod 86400 div 3600) @ '':'' @ fmt0 2 (s mod 3600 div 60) @
      '':'' @ fmt0 2 (s mod 60) @ '' GMT'')"
proof -
  note f = time_fields [OF assms(1,2) s]
  have m: "1 \<le> m" "m \<le> 12"
    using valid_calendar_date [of "nat (s div 86400)"] date by (simp_all add: valid_date_def)
  have q: "0 \<le> s div 86400" using f(3) by (simp add: pos_imp_zdiv_nonneg_iff)
  then have "(s div 86400 + 4) smod 7 = (s div 86400 + 4) mod 7"
    by (simp add: signed_modulo_int_def sgn_if)
  moreover have "as_u64 ((s div 86400 + 4) mod 7) = (s div 86400 + 4) mod 7"
    by (simp add: as_u64_def)
  moreover have "nat ((s div 86400 + 4) mod 7) = (nat (s div 86400) + 4) mod 7"
    using q by (simp add: nat_mod_distrib nat_add_distrib)
  ultimately have "index_or_panic day_names (as_u64 ((s div 86400 + 4) smod 7)) =
      Some (weekday (nat (s div 86400)))"
    by (simp add: index_or_panic_def weekday_def day_names_def)
  then show ?thesis
    unfolding format_rfc1123_def Let_def f(1)
    by (simp only: option.case f(2) f(5) f(6) f(7) f(8) f(9) f(10) date prod.case month_name [OF m])
qed

theorem format_rfc1123_correct_witness:
  "format_rfc1123 (86399 * 10 ^ 9) = Some ''Thu, 01 Jan 1970 23:59:59 GMT''"
  using format_rfc1123_correct [of "86399 * 10 ^ 9" 86399 1970 1 1]
  by (simp add: calendar_date_def, code_simp)

text \<open>
  Past that range the day number wraps to a negative \<open>i32\<close>, the index of the weekday is
  negative before its cast to \<open>usize\<close>, and \<open>format_rfc1123\<close> panics.
\<close>

theorem format_rfc1123_panics_past_i32_days:
  "format_rfc1123 (2 ^ 31 * 86400 * 10 ^ 9) = None"
  by code_simp

end
