(* ===== verification/Utf8.thy ===== *)
theory Utf8
  imports Prelude
begin

section \<open>UTF-8 (char and str of the standard library)\<close>

text \<open>
  \<open>utf8_step s\<close> reads one character at the start of a byte sequence: the number of bytes it takes
  and whether they are a character. Where they are none, the number is the length of the longest
  start of a character, the part that one U+FFFD replaces in \<open>String::from_utf8_lossy\<close>.
\<close>

definition cont_byte :: "nat \<Rightarrow> bool" where
  "cont_byte b \<longleftrightarrow> 128 \<le> b \<and> b \<le> 191"

definition second_ok :: "nat \<Rightarrow> nat \<Rightarrow> bool" where
  "second_ok a b \<longleftrightarrow>
     (if a = 224 then 160 \<le> b \<and> b \<le> 191
      else if a = 237 then 128 \<le> b \<and> b \<le> 159
      else if a = 240 then 144 \<le> b \<and> b \<le> 191
      else if a = 244 then 128 \<le> b \<and> b \<le> 143
      else cont_byte b)"

definition byte_at :: "string \<Rightarrow> nat \<Rightarrow> nat" where
  "byte_at s i = (if i < length s then byte (s ! i) else 0)"

definition utf8_step :: "string \<Rightarrow> nat \<times> bool" where
  "utf8_step s =
     (let a = byte_at s 0; b = byte_at s 1; c = byte_at s 2; d = byte_at s 3
      in if a < 128 then (1, True)
         else if 194 \<le> a \<and> a \<le> 223 then (if cont_byte b then (2, True) else (1, False))
         else if 224 \<le> a \<and> a \<le> 239 then
           (if \<not> second_ok a b then (1, False)
            else if \<not> cont_byte c then (2, False) else (3, True))
         else if 240 \<le> a \<and> a \<le> 244 then
           (if \<not> second_ok a b then (1, False)
            else if \<not> cont_byte c then (2, False)
            else if \<not> cont_byte d then (3, False) else (4, True))
         else (1, False))"

lemma utf8_step_pos: "0 < fst (utf8_step s)"
  by (simp add: utf8_step_def Let_def)

definition replacement :: string where
  "replacement = map char_of [239::nat, 191, 189]"

function from_utf8_lossy :: "string \<Rightarrow> string" where
  "from_utf8_lossy s =
     (if s = [] then []
      else (let (n, ok) = utf8_step s
            in (if ok then take n s else replacement) @ from_utf8_lossy (drop n s)))"
  by pat_completeness auto
termination
proof (relation "measure length")
  fix s x n ok assume s: "s \<noteq> ([] :: string)" and x: "x = utf8_step s" "(n, ok) = x"
  then have "0 < n" using utf8_step_pos [of s] by (metis fst_conv)
  with s show "(drop n s, s) \<in> measure length" by simp
qed simp

declare from_utf8_lossy.simps [simp del]

function valid_utf8 :: "string \<Rightarrow> bool" where
  "valid_utf8 s =
     (if s = [] then True
      else (let (n, ok) = utf8_step s in ok \<and> valid_utf8 (drop n s)))"
  by pat_completeness auto
termination
proof (relation "measure length")
  fix s x n ok assume s: "s \<noteq> ([] :: string)" and x: "x = utf8_step s" "(n, ok) = x"
  then have "0 < n" using utf8_step_pos [of s] by (metis fst_conv)
  with s show "(drop n s, s) \<in> measure length" by simp
qed simp

declare valid_utf8.simps [simp del]

definition from_utf8 :: "string \<Rightarrow> string option" where
  "from_utf8 s = (if valid_utf8 s then Some s else None)"

text \<open>\<open>char::from_u32\<close> accepts the scalar values; \<open>utf8_encode\<close> gives the bytes of one.\<close>

definition scalar :: "nat \<Rightarrow> bool" where
  "scalar n \<longleftrightarrow> n < 55296 \<or> (57343 < n \<and> n < 1114112)"

definition utf8_encode :: "nat \<Rightarrow> string" where
  "utf8_encode n =
     map char_of
       (if n < 128 then [n]
        else if n < 2048 then [192 + n div 64, 128 + n mod 64]
        else if n < 65536 then [224 + n div 4096, 128 + n div 64 mod 64, 128 + n mod 64]
        else [240 + n div 262144, 128 + n div 4096 mod 64, 128 + n div 64 mod 64, 128 + n mod 64])"

lemma valid_utf8_lossy: "valid_utf8 s \<Longrightarrow> from_utf8_lossy s = s"
proof (induction s rule: valid_utf8.induct)
  case (1 s)
  show ?case
  proof (cases "s = []")
    case True
    then show ?thesis by (simp add: from_utf8_lossy.simps)
  next
    case False
    obtain n ok where st: "utf8_step s = (n, ok)" by fastforce
    with 1 False have "ok" "valid_utf8 (drop n s)" by (simp_all add: valid_utf8.simps [of s])
    with 1(1) [OF False st [symmetric]] False st show ?thesis
      by (simp add: from_utf8_lossy.simps [of s])
  qed
qed

lemma byte_char_of [simp]: "n < 256 \<Longrightarrow> byte (char_of n) = n"
  by (simp add: byte_def)

lemma byte_less: "byte c < 256"
  by (simp add: byte_def)

lemma valid_utf8_Nil [simp]: "valid_utf8 []"
  by (simp add: valid_utf8.simps)

lemma valid_utf8_ascii: "\<forall>c\<in>set s. byte c < 128 \<Longrightarrow> valid_utf8 s"
proof (induction s)
  case (Cons c s)
  then show ?case
    by (simp add: valid_utf8.simps [of "c # s"] utf8_step_def byte_at_def Let_def)
qed simp

lemma digits64: "(n :: nat) = 64 * (n div 64) + n mod 64"
  by simp

lemma valid_utf8_encode:
  assumes "scalar n"
  shows "valid_utf8 (utf8_encode n)"
proof -
  consider (one) "n < 128" | (two) "128 \<le> n" "n < 2048" | (three) "2048 \<le> n" "n < 65536"
    | (four) "65536 \<le> n" "n < 1114112"
    using assms unfolding scalar_def by linarith
  then show ?thesis
  proof cases
    case one
    then show ?thesis
      by (simp add: utf8_encode_def valid_utf8_ascii)
  next
    case two
    then have "2 \<le> n div 64" "n div 64 < 32" "n mod 64 < 64" by (simp_all add: less_mult_imp_div_less)
    then have "utf8_step (utf8_encode n) = (2, True)"
      using two by (simp add: utf8_encode_def utf8_step_def byte_at_def Let_def cont_byte_def)
    then show ?thesis
      using two by (simp add: utf8_encode_def valid_utf8.simps [of "_ # _"])
  next
    case three
    define a b c where "a = n div 4096" and "b = n div 64 mod 64" and "c = n mod 64"
    have a': "a = n div 64 div 64" by (simp add: a_def div_mult2_eq [of n 64 64, simplified])
    have "n = 4096 * a + 64 * b + c"
      using digits64 [of n] digits64 [of "n div 64"] unfolding a' b_def c_def by linarith
    then have n: "n = 4096 * a + 64 * b + c" "b < 64" "c < 64"
      by (simp_all add: b_def c_def)
    have a: "a < 16" using three n by linarith
    have "a = 0 \<Longrightarrow> 32 \<le> b" using three n by linarith
    moreover have "a = 13 \<Longrightarrow> b < 32" using assms n unfolding scalar_def by linarith
    ultimately have "utf8_step (map char_of [224 + a, 128 + b, 128 + c]) = (3, True)"
      using a n by (auto simp: utf8_step_def byte_at_def Let_def cont_byte_def second_ok_def)
    then show ?thesis
      using three by (simp add: utf8_encode_def valid_utf8.simps [of "_ # _"] a_def b_def c_def)
  next
    case four
    define a b c d where "a = n div 262144" and "b = n div 4096 mod 64" and "c = n div 64 mod 64"
      and "d = n mod 64"
    have ab: "a = n div 64 div 64 div 64" "b = n div 64 div 64 mod 64"
      by (simp_all add: a_def b_def div_mult2_eq [of n 64 64, simplified]
          div_mult2_eq [of n 4096 64, simplified])
    have "n = 262144 * a + 4096 * b + 64 * c + d"
      using digits64 [of n] digits64 [of "n div 64"] digits64 [of "n div 64 div 64"]
      unfolding ab c_def d_def by linarith
    then have n: "n = 262144 * a + 4096 * b + 64 * c + d" "b < 64" "c < 64" "d < 64"
      by (simp_all add: b_def c_def d_def)
    have a: "a < 5" using four n by linarith
    have "a = 0 \<Longrightarrow> 16 \<le> b" using four n by linarith
    moreover have "a = 4 \<Longrightarrow> b < 16" using four n by linarith
    ultimately have "utf8_step (map char_of [240 + a, 128 + b, 128 + c, 128 + d]) = (4, True)"
      using a n by (auto simp: utf8_step_def byte_at_def Let_def cont_byte_def second_ok_def)
    then show ?thesis
      using four by (simp add: utf8_encode_def valid_utf8.simps [of "_ # _"] a_def b_def c_def d_def)
  qed
qed

end
