(* ===== verification/Std_Path.thy ===== *)
theory Std_Path
  imports Http
begin

section \<open>Paths (std::path on Unix)\<close>

text \<open>
  A \<open>PathBuf\<close> is its byte string. \<open>components\<close> is \<open>Path::components\<close>: repeated separators and
  a trailing separator count for nothing, and \<open>.\<close> only where it starts a relative path.
  Equality, \<open>starts_with\<close>, \<open>parent\<close> and \<open>file_name\<close> are defined on the components, as in the
  library; \<open>join\<close> works on the bytes.
\<close>

type_synonym pathbuf = string

abbreviation sep :: char where
  "sep \<equiv> CHR ''/''"

datatype component = RootDir | CurDir | ParentDir | Normal string

definition seg_component :: "string \<Rightarrow> component option" where
  "seg_component w =
     (if w = [] \<or> w = ''.'' then None else if w = ''..'' then Some ParentDir else Some (Normal w))"

definition components :: "pathbuf \<Rightarrow> component list" where
  "components p =
     (let ws = split_on sep p
      in (if starts_with p ''/'' then [RootDir] else if hd ws = ''.'' then [CurDir] else []) @
         List.map_filter seg_component ws)"

fun component_str :: "component \<Rightarrow> string" where
  "component_str RootDir = []"
| "component_str CurDir = ''.''"
| "component_str ParentDir = ''..''"
| "component_str (Normal w) = w"

definition of_components :: "component list \<Rightarrow> pathbuf" where
  "of_components cs =
     (if cs = [RootDir] then ''/'' else join_with ''/'' (map component_str cs))"

definition path_eq :: "pathbuf \<Rightarrow> pathbuf \<Rightarrow> bool" where
  "path_eq p q \<longleftrightarrow> components p = components q"

definition path_starts_with :: "pathbuf \<Rightarrow> pathbuf \<Rightarrow> bool" where
  "path_starts_with p base \<longleftrightarrow> prefix (components base) (components p)"

text \<open>The parent as the library gives it, up to \<open>Path\<close> equality: the last component is dropped.\<close>

definition path_parent :: "pathbuf \<Rightarrow> pathbuf option" where
  "path_parent p =
     (let cs = components p
      in if cs = [] \<or> cs = [RootDir] then None else Some (of_components (butlast cs)))"

definition path_file_name :: "pathbuf \<Rightarrow> string option" where
  "path_file_name p =
     (let cs = components p
      in if cs = [] then None else case last cs of Normal w \<Rightarrow> Some w | _ \<Rightarrow> None)"

definition path_join :: "pathbuf \<Rightarrow> pathbuf \<Rightarrow> pathbuf" where
  "path_join p q =
     (if starts_with q ''/'' then q
      else if p = [] \<or> last p = sep then p @ q else p @ ''/'' @ q)"

subsection \<open>Canonical absolute paths\<close>

text \<open>
  What \<open>canonicalize\<close> returns: a slash, and the names from the root with a slash between them.
  \<open>abs_path ns\<close> is that path; it is injective on lists of names without a
  separator that are no dot segments, so \<open>Path\<close> equality and
  byte equality agree on canonical paths.
\<close>

definition safe_name :: "string \<Rightarrow> bool" where
  "safe_name w \<longleftrightarrow> w \<noteq> [] \<and> w \<noteq> ''.'' \<and> w \<noteq> ''..'' \<and> sep \<notin> set w"

definition valid_name :: "string \<Rightarrow> bool" where
  "valid_name w \<longleftrightarrow> safe_name w \<and> CHR 0x00 \<notin> set w"

lemma valid_safe: "valid_name w \<Longrightarrow> safe_name w"
  by (simp add: valid_name_def)

lemma valid_safe_list: "\<forall>w\<in>set ns. valid_name w \<Longrightarrow> \<forall>w\<in>set ns. safe_name w"
  by (simp add: valid_name_def)

definition abs_path :: "string list \<Rightarrow> pathbuf" where
  "abs_path ns = (if ns = [] then ''/'' else concat (map (\<lambda>n. sep # n) ns))"

lemma split_on_not_Nil [simp]: "split_on c s \<noteq> []"
  by (induction s) (auto split: list.splits)

lemma split_on_no_sep: "c \<notin> set s \<Longrightarrow> split_on c s = [s]"
  by (induction s) auto

lemma split_on_append:
  "c \<notin> set s \<Longrightarrow> split_on c (s @ c # t) = s # split_on c t"
  by (induction s) auto

lemma split_on_join: "ns \<noteq> [] \<Longrightarrow> \<forall>w\<in>set ns. c \<notin> set w \<Longrightarrow> split_on c (join_with [c] ns) = ns"
proof (induction ns rule: induct_list012)
  case (3 v w ns)
  then show ?case using split_on_append [of c v "join_with [c] (w # ns)"] by simp
qed (simp_all add: split_on_no_sep)

lemma split_on_pieces: "w \<in> set (split_on c s) \<Longrightarrow> c \<notin> set w"
proof (induction s arbitrary: w)
  case Nil
  then show ?case by simp
next
  case (Cons x xs)
  obtain v vs where v: "split_on c xs = v # vs"
    using split_on_not_Nil [of c xs] by (cases "split_on c xs") auto
  with Cons.prems have "w = [] \<or> w = x # v \<and> x \<noteq> c \<or> w \<in> set (v # vs)"
    by (auto split: if_splits)
  with Cons.IH v show ?case by auto
qed

lemma split_on_concat:
  "\<forall>n\<in>set ns. c \<notin> set n \<Longrightarrow> split_on c (concat (map (\<lambda>n. c # n) ns)) = [] # ns"
proof (induction ns)
  case Nil
  then show ?case by simp
next
  case (Cons n ns)
  show ?case
  proof (cases ns)
    case Nil
    with Cons.prems show ?thesis by (simp add: split_on_no_sep)
  next
    case (Cons m ms)
    with Cons.prems Cons.IH show ?thesis
      using split_on_append [of c n "m @ concat (map (\<lambda>n. c # n) ms)"] by simp
  qed
qed

lemma split_abs_path:
  "\<forall>n\<in>set ns. safe_name n \<Longrightarrow>
     split_on sep (abs_path ns) = [] # (if ns = [] then [[]] else ns)"
  using split_on_concat [of ns sep] by (auto simp: abs_path_def safe_name_def)

lemma starts_with_abs_path [simp]: "starts_with (abs_path ns) ''/''"
  by (cases ns) (simp_all add: abs_path_def starts_with_def)

lemma map_filter_safe:
  "\<forall>n\<in>set ns. safe_name n \<Longrightarrow> List.map_filter seg_component ns = map Normal ns"
  by (induction ns) (auto simp: List.map_filter_def seg_component_def safe_name_def)

lemma components_abs_path:
  assumes "\<forall>n\<in>set ns. safe_name n"
  shows "components (abs_path ns) = RootDir # map Normal ns"
  using map_filter_safe [OF assms]
  by (auto simp: components_def split_abs_path [OF assms] List.map_filter_def seg_component_def)

lemma map_Normal_inject [simp]: "map Normal ns = map Normal ms \<longleftrightarrow> ns = ms"
  by (rule inj_map_eq_map) (simp add: inj_def)

lemma abs_path_inject:
  assumes "\<forall>n\<in>set ns. safe_name n" "\<forall>n\<in>set ms. safe_name n"
  shows "abs_path ns = abs_path ms \<longleftrightarrow> ns = ms"
proof
  assume "abs_path ns = abs_path ms"
  then have "components (abs_path ns) = components (abs_path ms)" by (rule arg_cong)
  then show "ns = ms"
    unfolding components_abs_path [OF assms(1)] components_abs_path [OF assms(2)] by simp
qed simp

lemma path_eq_abs_path:
  assumes "\<forall>n\<in>set ns. safe_name n" "\<forall>n\<in>set ms. safe_name n"
  shows "path_eq (abs_path ns) (abs_path ms) \<longleftrightarrow> abs_path ns = abs_path ms"
  unfolding path_eq_def components_abs_path [OF assms(1)] components_abs_path [OF assms(2)]
    abs_path_inject [OF assms] by simp

lemma map_Normal_prefix [simp]: "prefix (map Normal ns) (map Normal ms) \<longleftrightarrow> prefix ns ms"
proof (induction ns arbitrary: ms)
  case Nil
  then show ?case by simp
next
  case (Cons n ns)
  then show ?case by (cases ms) auto
qed

lemma starts_with_abs_paths:
  assumes "\<forall>n\<in>set ns. safe_name n" "\<forall>n\<in>set ms. safe_name n"
  shows "path_starts_with (abs_path ms) (abs_path ns) \<longleftrightarrow> prefix ns ms"
  by (simp add: path_starts_with_def components_abs_path [OF assms(1)]
      components_abs_path [OF assms(2)])

lemma last_abs_path:
  assumes "\<forall>n\<in>set ns. safe_name n" "ns \<noteq> []"
  shows "abs_path ns \<noteq> []" "last (abs_path ns) \<noteq> sep"
proof -
  obtain ms m where ns: "ns = ms @ [m]"
    using assms(2) by (cases ns rule: rev_cases) auto
  with assms(1) have m: "m \<noteq> []" "sep \<notin> set m"
    by (auto simp: safe_name_def)
  then have "last m \<noteq> sep" by (metis last_in_set)
  with ns m show "abs_path ns \<noteq> []" "last (abs_path ns) \<noteq> sep"
    by (simp_all add: abs_path_def)
qed

lemma join_abs_path:
  assumes "safe_name n" "\<forall>n\<in>set ns. safe_name n"
  shows "path_join (abs_path ns) n = abs_path (ns @ [n])"
proof -
  have n: "\<not> starts_with n ''/''"
    using assms(1) by (cases n) (auto simp: safe_name_def starts_with_def)
  show ?thesis
  proof (cases "ns = []")
    case True
    with n show ?thesis by (simp add: path_join_def abs_path_def)
  next
    case False
    note l = last_abs_path [OF assms(2) False]
    from l n have "path_join (abs_path ns) n = abs_path ns @ ''/'' @ n"
      by (simp add: path_join_def)
    with False show ?thesis by (simp add: abs_path_def)
  qed
qed

lemma file_name_abs_path:
  assumes "\<forall>n\<in>set (ns @ [n]). safe_name n"
  shows "path_file_name (abs_path (ns @ [n])) = Some n"
  unfolding path_file_name_def components_abs_path [OF assms] by simp

lemma map_component_str_Normal: "map component_str (map Normal ns) = ns"
  by (induction ns) simp_all

lemma join_with_abs: "ns \<noteq> [] \<Longrightarrow> join_with ''/'' ([] # ns) = concat (map (\<lambda>n. sep # n) ns)"
proof (induction ns rule: induct_list012)
  case (3 x y zs)
  then show ?case by simp
qed simp_all

lemma of_components_abs:
  "of_components (RootDir # map Normal ns) = abs_path ns"
proof (cases "ns = []")
  case True
  then show ?thesis by (simp add: of_components_def abs_path_def)
next
  case False
  with join_with_abs [OF False] show ?thesis
    by (simp add: of_components_def abs_path_def del: map_map)
      (simp add: comp_def)
qed

lemma parent_abs_path:
  assumes "\<forall>n\<in>set (ns @ [n]). safe_name n"
  shows "path_parent (abs_path (ns @ [n])) = Some (abs_path ns)"
  unfolding path_parent_def components_abs_path [OF assms] Let_def
  using of_components_abs [of ns] by (simp add: butlast_append)

lemma parent_root: "path_parent (abs_path []) = None"
  by (simp add: path_parent_def components_abs_path)

end
