(* ===== verification/Webdav_Types.thy ===== *)
theory Webdav_Types
  imports Utf8 Http Std_Path
begin

section \<open>Protocol types and header parsers (src/webdav/mod.rs)\<close>

text \<open>
  The types of the WebDAV stores and the parsers of headers and request bodies. The clock is an
  argument \<open>now\<close>. The XML reader is code of another package: it is an argument that
  gives, for the bytes of a body, the events before the end of the document or before the first
  error, each tag with its raw name, its local name and its well-formed attributes.
\<close>

definition from_secs :: "nat \<Rightarrow> duration" where
  "from_secs n = n * 1000000000"

subsection \<open>Stores\<close>

type_synonym dead_property_store = "(pathbuf \<times> (string \<times> string) list) list"

datatype prop_patch_action = PropPatchAction string "string option"

record prop_patch_op =
  pp_actions :: "prop_patch_action list"

datatype depth = Zero | One | Infinity

fun depth_to_string :: "depth \<Rightarrow> string" where
  "depth_to_string Zero = ''0''"
| "depth_to_string One = ''1''"
| "depth_to_string Infinity = ''infinity''"

datatype prop_request = AllProp | PropName | Named "string list"

datatype lock_scope = Exclusive | Shared

record lock_info =
  lk_scope :: lock_scope
  lk_token :: string
  lk_owner :: "string option"
  lk_created :: system_time
  lk_timeout :: "duration option"
  lk_depth :: depth

record prop_entry =
  pe_href :: string
  pe_modified :: system_time
  pe_created :: "system_time option"
  pe_size :: nat
  pe_is_dir :: bool
  pe_content_type :: "string option"
  pe_dead_props :: "(string \<times> string) list option"
  pe_active_locks :: "lock_info list option"
  pe_canonical_path :: "pathbuf option"

type_synonym lock_store = "(pathbuf \<times> lock_info list) list"

definition elapsed :: "system_time \<Rightarrow> system_time \<Rightarrow> duration" where
  \<comment> \<open>\<open>created.elapsed().unwrap_or_default()\<close>: zero for a time in the future\<close>
  "elapsed now t = (if t \<le> now then nat (now - t) else 0)"

definition is_expired :: "system_time \<Rightarrow> lock_info \<Rightarrow> bool" where
  "is_expired now l =
     (case lk_timeout l of None \<Rightarrow> False | Some t \<Rightarrow> t \<le> elapsed now (lk_created l))"

definition is_exclusive :: "lock_info \<Rightarrow> bool" where
  "is_exclusive l = (case lk_scope l of Exclusive \<Rightarrow> True | Shared \<Rightarrow> False)"

definition generate_lock_token :: "(nat \<Rightarrow> nat) \<Rightarrow> system_time \<Rightarrow> string" where
  \<comment> \<open>\<open>hash\<close> is the library's \<open>DefaultHasher\<close> on the nanoseconds, whose algorithm is unspecified\<close>
  "generate_lock_token hash now =
     ''opaquelocktoken:'' @ pad0 16 (show_hex (hash (if 0 \<le> now then nat now else 0)))"

subsection \<open>Header parsers\<close>

definition parse_lock_token_header :: "header_map \<Rightarrow> string option" where
  "parse_lock_token_header headers =
     map_option (\<lambda>v. trim (trim_matches (CHR ''>'') (trim_matches (CHR ''<'') v)))
       (header_str headers ''lock-token'')"

definition parse_timeout :: "header_map \<Rightarrow> duration option" where
  "parse_timeout headers =
     (case header_str headers ''timeout'' of
        None \<Rightarrow> None
      | Some v \<Rightarrow>
          (case strip_prefix v ''Second-'' of
             None \<Rightarrow> None
           | Some s \<Rightarrow> map_option from_secs (parse_u64 s)))"

definition parse_depth :: "header_map \<Rightarrow> depth" where
  "parse_depth headers =
     (let v = (case header_str headers ''depth'' of None \<Rightarrow> ''infinity'' | Some v \<Rightarrow> v)
      in if v = ''0'' then Zero else if v = ''1'' then One else Infinity)"

definition parse_destination :: "(string \<Rightarrow> string) \<Rightarrow> header_map \<Rightarrow> string option" where
  "parse_destination pct headers =
     (case header_str headers ''destination'' of
        None \<Rightarrow> None
      | Some v \<Rightarrow>
          map_option (trim_end_matches sep)
            (case find_str ''://'' v of
               Some pos \<Rightarrow>
                 (let after_scheme = drop (pos + 3) v
                  in case find_str ''/'' after_scheme of
                       None \<Rightarrow> None
                     | Some slash_pos \<Rightarrow> Some (pct (drop slash_pos after_scheme)))
             | None \<Rightarrow> if starts_with v ''/'' then Some (pct v) else None))"

definition parse_overwrite :: "header_map \<Rightarrow> bool" where
  "parse_overwrite headers \<longleftrightarrow>
     (case header_str headers ''overwrite'' of None \<Rightarrow> ''T'' | Some v \<Rightarrow> to_ascii_uppercase v) \<noteq> ''F''"

subsection \<open>Clark notation\<close>

definition clark_key :: "string \<Rightarrow> string \<Rightarrow> string" where
  "clark_key ns local = (if ns = [] then local else ''{'' @ ns @ ''}'' @ local)"

definition parse_clark :: "string \<Rightarrow> (string \<times> string) option" where
  "parse_clark key =
     (case strip_prefix key ''{'' of
        Some rest \<Rightarrow> split_once (CHR ''}'') rest
      | None \<Rightarrow> Some ([], key))"

subsection \<open>Request bodies\<close>

datatype parse_error = InvalidBody string | Xml_Error string

record xml_tag =
  tag_name :: string
  tag_local :: string
  tag_attrs :: "(string \<times> string) list"

datatype xml_event =
  Ev_Start xml_tag | Ev_Empty xml_tag | Ev_End string | Ev_Text string | Ev_Other

type_synonym xml_input = "xml_event list \<times> string option"

definition extract_element_ns :: "xml_tag \<Rightarrow> parse_error + string \<times> string" where
  "extract_element_ns e =
     (case split_once (CHR '':'') (tag_name e) of
        Some (p, l) \<Rightarrow>
          (let key = ''xmlns:'' @ from_utf8_lossy p
           in case find (\<lambda>(k, v). from_utf8_lossy k = key) (tag_attrs e) of
                Some (k, v) \<Rightarrow>
                  (let value = from_utf8_lossy v
                   in if value = [] then Inl (InvalidBody ''invalid namespace declaration: empty URI'')
                      else Inr (value, from_utf8_lossy l))
              | None \<Rightarrow> Inr ([], from_utf8_lossy l))
      | None \<Rightarrow>
          (case find (\<lambda>(k, v). k = ''xmlns'') (tag_attrs e) of
             Some (k, v) \<Rightarrow> Inr (from_utf8_lossy v, from_utf8_lossy (tag_name e))
           | None \<Rightarrow> Inr ([], from_utf8_lossy (tag_name e))))"

record propfind_scan =
  pf_props :: "string list"
  pf_in_prop :: bool
  pf_allprop :: bool
  pf_propname :: bool
  pf_seen :: bool

definition propfind_tag :: "string \<Rightarrow> string \<Rightarrow> propfind_scan \<Rightarrow> propfind_scan" where
  "propfind_tag ns local s =
     (if local = ''prop'' then s\<lparr>pf_in_prop := True\<rparr>
      else if local = ''allprop'' then s\<lparr>pf_allprop := True\<rparr>
      else if local = ''propname'' then s\<lparr>pf_propname := True\<rparr>
      else if pf_in_prop s then s\<lparr>pf_props := pf_props s @ [clark_key ns local]\<rparr>
      else s)"

fun propfind_event :: "propfind_scan \<Rightarrow> xml_event \<Rightarrow> parse_error + propfind_scan" where
  "propfind_event s (Ev_Start e) =
     (case extract_element_ns e of
        Inl err \<Rightarrow> Inl err
      | Inr (ns, local) \<Rightarrow> Inr (propfind_tag ns local (s\<lparr>pf_seen := True\<rparr>)))"
| "propfind_event s (Ev_Empty e) =
     (case extract_element_ns e of
        Inl err \<Rightarrow> Inl err
      | Inr (ns, local) \<Rightarrow> Inr (propfind_tag ns local (s\<lparr>pf_seen := True\<rparr>)))"
| "propfind_event s (Ev_End local) =
     Inr (if from_utf8_lossy local = ''prop'' then s\<lparr>pf_in_prop := False\<rparr> else s)"
| "propfind_event s _ = Inr s"

fun scan_events ::
  "('s \<Rightarrow> xml_event \<Rightarrow> parse_error + 's) \<Rightarrow> 's \<Rightarrow> xml_event list \<Rightarrow> string option \<Rightarrow> parse_error + 's" where
  "scan_events step s [] None = Inr s"
| "scan_events step s [] (Some err) = Inl (Xml_Error err)"
| "scan_events step s (e # es) err =
     (case step s e of Inl x \<Rightarrow> Inl x | Inr s' \<Rightarrow> scan_events step s' es err)"

definition propfind_result :: "propfind_scan \<Rightarrow> parse_error + prop_request" where
  "propfind_result s =
     (if pf_allprop s \<or> (pf_props s = [] \<and> \<not> pf_seen s) then Inr AllProp
      else if pf_props s = [] \<and> pf_seen s then Inl (InvalidBody ''invalid PROPFIND request body'')
      else if pf_propname s then Inr PropName
      else Inr (Named (pf_props s)))"

definition parse_propfind_request :: "(string \<Rightarrow> xml_input) \<Rightarrow> string \<Rightarrow> parse_error + prop_request" where
  "parse_propfind_request reader xml =
     (case reader xml of (es, err) \<Rightarrow>
        (case scan_events propfind_event
                \<lparr>pf_props = [], pf_in_prop = False, pf_allprop = False, pf_propname = False,
                 pf_seen = False\<rparr> es err of
           Inl x \<Rightarrow> Inl x
         | Inr s \<Rightarrow> propfind_result s))"

function decode_xml_char_refs :: "string \<Rightarrow> string" where
  "decode_xml_char_refs rest =
     (case find_str ''&#'' rest of
        None \<Rightarrow> rest
      | Some pos \<Rightarrow>
          (let r1 = drop (pos + 2) rest;
               hex = starts_with r1 ''x'' \<or> starts_with r1 ''X'';
               r2 = (if hex then drop 1 r1 else r1);
               radix = (if hex then 16 else 10)
           in take pos rest @
              (case find_str '';'' r2 of
                 None \<Rightarrow> r2
               | Some end \<Rightarrow>
                   (case from_str_radix 32 radix (take end r2) of
                      None \<Rightarrow> []
                    | Some n \<Rightarrow> if scalar n then utf8_encode n else []) @
                   decode_xml_char_refs (drop (end + 1) r2))))"
  by pat_completeness auto
termination
  by (relation "measure length") (auto dest!: find_str_bound split: if_splits)

declare decode_xml_char_refs.simps [simp del]

record proppatch_scan =
  ps_actions :: "prop_patch_action list"
  ps_in_set :: bool
  ps_in_remove :: bool
  ps_current :: "string option"

fun proppatch_event :: "proppatch_scan \<Rightarrow> xml_event \<Rightarrow> parse_error + proppatch_scan" where
  "proppatch_event s (Ev_Start e) =
     (case extract_element_ns e of
        Inl err \<Rightarrow> Inl err
      | Inr (ns, local) \<Rightarrow>
          Inr (if local = ''set'' then s\<lparr>ps_in_set := True\<rparr>
               else if local = ''remove'' then s\<lparr>ps_in_remove := True\<rparr>
               else if local = ''prop'' then s
               else if ps_in_set s then s\<lparr>ps_current := Some (clark_key ns local)\<rparr>
               else if ps_in_remove s then
                 s\<lparr>ps_actions := ps_actions s @ [PropPatchAction (clark_key ns local) None]\<rparr>
               else s))"
| "proppatch_event s (Ev_Empty e) =
     (case extract_element_ns e of
        Inl err \<Rightarrow> Inl err
      | Inr (ns, local) \<Rightarrow>
          Inr (if ps_in_remove s \<and> local \<noteq> ''prop'' then
                 s\<lparr>ps_actions := ps_actions s @ [PropPatchAction (clark_key ns local) None]\<rparr>
               else if ps_in_set s \<and> local \<noteq> ''prop'' then
                 s\<lparr>ps_actions := ps_actions s @ [PropPatchAction (clark_key ns local) (Some [])]\<rparr>
               else s))"
| "proppatch_event s (Ev_Text t) =
     Inr (case ps_current s of
            None \<Rightarrow> s
          | Some name \<Rightarrow>
              if ps_in_set s then
                s\<lparr>ps_actions := ps_actions s @
                     [PropPatchAction name (Some (decode_xml_char_refs (from_utf8_lossy t)))],
                   ps_current := None\<rparr>
              else s)"
| "proppatch_event s (Ev_End l) =
     (let local = from_utf8_lossy l
      in Inr (if local = ''set'' then s\<lparr>ps_in_set := False\<rparr>
              else if local = ''remove'' then s\<lparr>ps_in_remove := False\<rparr>
              else case ps_current s of
                     None \<Rightarrow> s
                   | Some name \<Rightarrow>
                       if ps_in_set s then
                         s\<lparr>ps_actions := ps_actions s @ [PropPatchAction name (Some [])],
                           ps_current := None\<rparr>
                       else s))"
| "proppatch_event s Ev_Other = Inr s"

definition parse_proppatch_request ::
  "(string \<Rightarrow> xml_input) \<Rightarrow> string \<Rightarrow> parse_error + prop_patch_op" where
  "parse_proppatch_request reader xml =
     (let decoded = decode_xml_char_refs (from_utf8_lossy xml)
      in case reader decoded of (es, err) \<Rightarrow>
           (case scan_events proppatch_event
                   \<lparr>ps_actions = [], ps_in_set = False, ps_in_remove = False, ps_current = None\<rparr> es err of
              Inl x \<Rightarrow> Inl x
            | Inr s \<Rightarrow>
                if ps_actions s = [] then Inl (InvalidBody ''invalid PROPPATCH body'')
                else Inr \<lparr>pp_actions = ps_actions s\<rparr>))"

subsection \<open>Locks and time\<close>

lemma expired_mono:
  assumes "is_expired now l" "now \<le> now'"
  shows "is_expired now' l"
  using assms by (auto simp: is_expired_def elapsed_def split: option.splits if_splits)

lemma lock_without_timeout_never_expires: "lk_timeout l = None \<Longrightarrow> \<not> is_expired now l"
  by (simp add: is_expired_def)

lemma is_exclusive_iff [simp]: "is_exclusive l \<longleftrightarrow> lk_scope l = Exclusive"
  by (cases "lk_scope l") (simp_all add: is_exclusive_def)

lemma parse_depth_to_string:
  "parse_depth [(''depth'', Str (depth_to_string d))] = d"
  by (cases d) (simp_all add: parse_depth_def header_str_def)

subsection \<open>Round trips\<close>

lemma starts_with_append [simp]: "starts_with (p @ s) p"
  by (simp add: starts_with_def)

lemma strip_prefix_append [simp]: "strip_prefix (p @ s) p = Some s"
  by (simp add: strip_prefix_def)

lemma split_once_append: "c \<notin> set a \<Longrightarrow> split_once c (a @ c # b) = Some (a, b)"
  by (induction a) (auto simp: split_once_def split: if_splits)

text \<open>
  Clark notation round trips: the key of a namespace and a local name parses back to both
  when the namespace has no closing brace and a name without a namespace does not start with a
  brace.
\<close>

theorem clark_roundtrip:
  assumes "CHR ''}'' \<notin> set ns" and "ns = [] \<Longrightarrow> \<not> starts_with local ''{''"
  shows "parse_clark (clark_key ns local) = Some (ns, local)"
proof (cases "ns = []")
  case True
  with assms(2) show ?thesis by (simp add: clark_key_def parse_clark_def strip_prefix_def)
next
  case False
  then have "parse_clark (clark_key ns local) = split_once (CHR ''}'') (ns @ CHR ''}'' # local)"
    using strip_prefix_append [of "''{''" "ns @ CHR ''}'' # local"]
    by (simp add: clark_key_def parse_clark_def)
  with assms(1) show ?thesis by (simp add: split_once_append)
qed

theorem clark_roundtrip_witness:
  "clark_key ''DAV:'' ''{odd'' = ''{DAV:}{odd'' \<and>
   parse_clark (clark_key ''DAV:'' ''{odd'') = Some (''DAV:'', ''{odd'')"
proof -
  have c: "CHR ''}'' \<notin> set ''DAV:''" by simp
  show ?thesis using clark_roundtrip [OF c, of "''{odd''"] by (simp add: clark_key_def)
qed

text \<open>Text with decimal character references, and what they stand for.\<close>

definition char_ref :: "nat \<Rightarrow> string" where
  "char_ref n = ''&#'' @ show_nat n @ '';''"

lemma decode_plain: "CHR ''&'' \<notin> set t \<Longrightarrow> decode_xml_char_refs t = t"
  using find_str_none [of "CHR ''&''" t "''#''"] by (simp add: decode_xml_char_refs.simps)

lemma decode_char_ref:
  assumes "CHR ''&'' \<notin> set t" "scalar n"
  shows "decode_xml_char_refs (t @ char_ref n @ r) = t @ utf8_encode n @ decode_xml_char_refs r"
proof -
  have n: "n < 2 ^ 32" using assms(2) by (auto simp: scalar_def)
  obtain c cs where s: "show_nat n = c # cs" by (cases "show_nat n") auto
  have "CHR ''x'' \<notin> set (show_nat n)" "CHR ''X'' \<notin> set (show_nat n)" "CHR '';'' \<notin> set (show_nat n)"
    by (rule not_digit, simp add: byte_def)+
  then have c: "c \<noteq> CHR ''x''" "c \<noteq> CHR ''X''"
    and e: "find_str '';'' (show_nat n @ '';'' @ r) = Some (length (show_nat n))"
    using s find_str_at [of "CHR '';''" "show_nat n" "[]" r] by auto
  have f: "find_str ''&#'' (t @ char_ref n @ r) = Some (length t)"
    using find_str_at [OF assms(1), of "''#''" "show_nat n @ '';'' @ r"] by (simp add: char_ref_def)
  have d: "drop (length t + 2) (t @ char_ref n @ r) = show_nat n @ '';'' @ r"
    by (simp add: char_ref_def)
  have h: "\<not> starts_with (show_nat n @ '';'' @ r) ''x''" "\<not> starts_with (show_nat n @ '';'' @ r) ''X''"
    using c s by (simp_all add: starts_with_def)
  show ?thesis
    unfolding decode_xml_char_refs.simps [of "t @ char_ref n @ r"]
    using f d h e from_str_radix_show_nat [OF n] assms(2) by (simp add: Let_def)
qed

text \<open>
  Decoding character references inverts writing them: in text where every scalar value in
  \<open>ps\<close> is written as a decimal reference after a piece without an ampersand, each reference
  becomes the UTF-8 bytes of its character and the pieces stay as they are.
\<close>

theorem decode_xml_char_refs_roundtrip:
  assumes "\<forall>(t, n)\<in>set ps. CHR ''&'' \<notin> set t \<and> scalar n" and "CHR ''&'' \<notin> set rest"
  shows "decode_xml_char_refs (concat (map (\<lambda>(t, n). t @ char_ref n) ps) @ rest) =
           concat (map (\<lambda>(t, n). t @ utf8_encode n) ps) @ rest"
  using assms
proof (induction ps)
  case Nil
  then show ?case by (simp add: decode_plain)
next
  case (Cons p ps)
  obtain t n where p: "p = (t, n)" by (cases p)
  with Cons decode_char_ref [of t n "concat (map (\<lambda>(t, n). t @ char_ref n) ps) @ rest"]
  show ?case by simp
qed

theorem decode_xml_char_refs_roundtrip_witness:
  "''caf&#233;!'' = concat (map (\<lambda>(t, n). t @ char_ref n) [(''caf'', 233)]) @ ''!'' \<and>
   decode_xml_char_refs ''caf&#233;!'' = ''caf'' @ utf8_encode 233 @ ''!''"
proof -
  have "\<forall>(t, n)\<in>set [(''caf'', 233)]. CHR ''&'' \<notin> set t \<and> scalar n" "CHR ''&'' \<notin> set ''!''"
    by (simp_all add: scalar_def)
  note r = decode_xml_char_refs_roundtrip [OF this]
  have e: "''caf&#233;!'' = concat (map (\<lambda>(t, n). t @ char_ref n) [(''caf'', 233)]) @ ''!''"
    by code_simp
  show ?thesis using r unfolding e by simp
qed

subsection \<open>What the body parsers make of a document\<close>

text \<open>The tag an XML writer gives an element of a namespace, with a prefix declared on it.\<close>

definition ns_tag :: "string \<Rightarrow> string \<Rightarrow> xml_tag" where
  "ns_tag ns local =
     (if ns = [] then \<lparr>tag_name = local, tag_local = local, tag_attrs = []\<rparr>
      else \<lparr>tag_name = ''X:'' @ local, tag_local = local, tag_attrs = [(''xmlns:X'', ns)]\<rparr>)"

definition plain_name :: "string \<times> string \<Rightarrow> bool" where
  "plain_name = (\<lambda>(ns, local). valid_utf8 ns \<and> valid_utf8 local \<and> CHR '':'' \<notin> set local)"

lemma extract_ns_tag [simp]:
  assumes "plain_name (ns, local)"
  shows "extract_element_ns (ns_tag ns local) = Inr (ns, local)"
proof (cases "ns = []")
  case True
  with assms show ?thesis
    by (simp add: extract_element_ns_def ns_tag_def plain_name_def split_once_def valid_utf8_lossy)
next
  case False
  have x: "from_utf8_lossy ''X'' = ''X''" "from_utf8_lossy ''xmlns:X'' = ''xmlns:X''"
    by (rule valid_utf8_lossy, rule valid_utf8_ascii, simp add: byte_def)+
  have "split_once (CHR '':'') (CHR ''X'' # CHR '':'' # local) = Some (''X'', local)"
    using split_once_append [of "CHR '':''" "''X''" local] by simp
  with False assms x show ?thesis
    by (simp add: extract_element_ns_def ns_tag_def plain_name_def valid_utf8_lossy Let_def)
qed

lemma scan_events_append:
  "scan_events step s es None = Inr s' \<Longrightarrow>
     scan_events step s (es @ fs) err = scan_events step s' fs err"
  by (induction es arbitrary: s) (auto split: sum.splits)

definition dav :: "string \<Rightarrow> xml_tag" where
  "dav local = ns_tag ''DAV:'' local"

definition dav_names :: "string list" where
  "dav_names = [''propfind'', ''prop'', ''propertyupdate'', ''set'', ''remove'']"

lemma extract_dav [simp]: "local \<in> set dav_names \<Longrightarrow> extract_element_ns (dav local) = Inr (''DAV:'', local)"
  unfolding dav_def
  by (rule extract_ns_tag) (auto simp: plain_name_def dav_names_def byte_def intro!: valid_utf8_ascii)

lemma lossy_dav [simp]: "local \<in> set dav_names \<Longrightarrow> from_utf8_lossy local = local"
  by (rule valid_utf8_lossy) (auto simp: dav_names_def byte_def intro!: valid_utf8_ascii)

definition propfind_document :: "(string \<times> string) list \<Rightarrow> xml_event list" where
  "propfind_document names =
     [Ev_Start (dav ''propfind''), Ev_Start (dav ''prop'')] @
     map (\<lambda>(ns, local). Ev_Empty (ns_tag ns local)) names @
     [Ev_End ''prop'', Ev_End ''propfind'']"

lemma propfind_names:
  assumes "\<forall>n\<in>set names. plain_name n \<and> snd n \<notin> {''prop'', ''allprop'', ''propname''}" "pf_in_prop s"
  shows "scan_events propfind_event s (map (\<lambda>(ns, local). Ev_Empty (ns_tag ns local)) names) None =
           Inr (s\<lparr>pf_props := pf_props s @ map (\<lambda>(ns, local). clark_key ns local) names,
                  pf_seen := pf_seen s \<or> names \<noteq> []\<rparr>)"
  using assms
proof (induction names arbitrary: s)
  case Nil
  then show ?case by simp
next
  case (Cons n names)
  obtain ns local where n: "n = (ns, local)" by (cases n)
  with Cons.prems have e: "extract_element_ns (ns_tag ns local) = Inr (ns, local)"
    and l: "local \<noteq> ''prop''" "local \<noteq> ''allprop''" "local \<noteq> ''propname''" by auto
  let ?s = "s\<lparr>pf_seen := True, pf_props := pf_props s @ [clark_key ns local]\<rparr>"
  have "propfind_event s (Ev_Empty (ns_tag ns local)) = Inr ?s"
    using e l Cons.prems(2) by (simp add: propfind_tag_def)
  moreover have "pf_in_prop ?s" using Cons.prems(2) by simp
  ultimately show ?case
    using n Cons.IH [of ?s] Cons.prems(1) by simp
qed

text \<open>
  A PROPFIND body that lists properties is read as exactly those properties, as Clark keys in
  document order, whatever their namespaces.
\<close>

theorem propfind_named_roundtrip:
  assumes "reader xml = (propfind_document names, None)" and "names \<noteq> []"
    and "\<forall>n\<in>set names. plain_name n \<and> snd n \<notin> {''prop'', ''allprop'', ''propname''}"
  shows "parse_propfind_request reader xml =
           Inr (Named (map (\<lambda>(ns, local). clark_key ns local) names))"
proof -
  let ?s = "\<lparr>pf_props = [], pf_in_prop = True, pf_allprop = False, pf_propname = False, pf_seen = True\<rparr>"
  note sc = scan_events_append [OF propfind_names [OF assms(3), of ?s, simplified],
      of "[Ev_End ''prop'', Ev_End ''propfind'']" None]
  have d: "''propfind'' \<in> set dav_names" "''prop'' \<in> set dav_names" by (simp_all add: dav_names_def)
  show ?thesis
    using assms(1,2) sc extract_dav [OF d(1)] extract_dav [OF d(2)] lossy_dav [OF d(1)] lossy_dav [OF d(2)]
    by (simp add: parse_propfind_request_def propfind_document_def propfind_tag_def propfind_result_def)
qed

definition demo_reader :: "xml_input \<Rightarrow> string \<Rightarrow> xml_input" where
  "demo_reader doc = (\<lambda>xml. doc)"

theorem propfind_named_roundtrip_witness:
  "parse_propfind_request (demo_reader (propfind_document [(''DAV:'', ''getetag''), ([], ''x'')], None)) [] =
     Inr (Named [''{DAV:}getetag'', ''x''])"
proof -
  have v: "\<forall>n\<in>set [(''DAV:'', ''getetag''), ([], ''x'')].
      plain_name n \<and> snd n \<notin> {''prop'', ''allprop'', ''propname''}"
    by (simp add: plain_name_def) (simp add: valid_utf8_ascii byte_def)
  have r: "demo_reader (propfind_document [(''DAV:'', ''getetag''), ([], ''x'')], None) [] =
      (propfind_document [(''DAV:'', ''getetag''), ([], ''x'')], None)"
    by (simp add: demo_reader_def)
  show ?thesis
    using propfind_named_roundtrip [of "demo_reader (propfind_document [(''DAV:'', ''getetag''), ([], ''x'')], None)" "[]",
        OF r _ v] by (simp add: clark_key_def)
qed

text \<open>The events whose tags name something other than \<open>prop\<close> and \<open>allprop\<close>.\<close>

definition other_tag :: "xml_tag \<Rightarrow> bool" where
  "other_tag t \<longleftrightarrow>
     (case extract_element_ns t of
        Inl _ \<Rightarrow> False
      | Inr (ns, local) \<Rightarrow> local \<noteq> ''prop'' \<and> local \<noteq> ''allprop'')"

fun tag_of :: "xml_event \<Rightarrow> xml_tag option" where
  "tag_of (Ev_Start t) = Some t"
| "tag_of (Ev_Empty t) = Some t"
| "tag_of _ = None"

lemma propfind_no_prop:
  assumes "list_all (\<lambda>e. case tag_of e of Some t \<Rightarrow> other_tag t | None \<Rightarrow> True) es"
    and "\<not> pf_in_prop s" "\<not> pf_allprop s" "pf_props s = []"
  shows "\<exists>s'. scan_events propfind_event s es None = Inr s' \<and> \<not> pf_allprop s' \<and> pf_props s' = [] \<and>
            pf_seen s' = (pf_seen s \<or> list_ex (\<lambda>e. tag_of e \<noteq> None) es)"
  using assms
proof (induction es arbitrary: s)
  case Nil
  then show ?case by simp
next
  case (Cons e es)
  have step: "\<exists>s1. propfind_event s e = Inr s1 \<and> \<not> pf_in_prop s1 \<and> \<not> pf_allprop s1 \<and>
      pf_props s1 = [] \<and> pf_seen s1 = (pf_seen s \<or> tag_of e \<noteq> None)"
    using Cons.prems
    by (cases e) (auto simp: other_tag_def propfind_tag_def split: sum.splits if_splits)
  then obtain s1 where s1: "propfind_event s e = Inr s1" "\<not> pf_in_prop s1" "\<not> pf_allprop s1"
      "pf_props s1 = []" "pf_seen s1 = (pf_seen s \<or> tag_of e \<noteq> None)"
    by blast
  with Cons.IH [OF _ s1(2-4)] Cons.prems(1) show ?case by auto
qed

text \<open>
  A PROPFIND body that asks for property names alone is refused. Whatever well-formed document
  has an element but none named \<open>prop\<close> or \<open>allprop\<close>, \<open>propname\<close> among them or not, is an
  invalid body: the test for an empty list of properties comes before the test for \<open>propname\<close>.
\<close>

theorem propname_request_refused:
  assumes "reader xml = (es, None)"
    and "list_all (\<lambda>e. case tag_of e of Some t \<Rightarrow> other_tag t | None \<Rightarrow> True) es"
    and "list_ex (\<lambda>e. tag_of e \<noteq> None) es"
  shows "parse_propfind_request reader xml = Inl (InvalidBody ''invalid PROPFIND request body'')"
  using propfind_no_prop [OF assms(2), of "\<lparr>pf_props = [], pf_in_prop = False, pf_allprop = False,
      pf_propname = False, pf_seen = False\<rparr>"] assms(1,3)
  by (auto simp: parse_propfind_request_def propfind_result_def)

definition propname_document :: "xml_event list" where
  "propname_document =
     [Ev_Start (dav ''propfind''), Ev_Empty (dav ''propname''), Ev_End ''propfind'']"

theorem propname_request_refused_witness:
  "parse_propfind_request (demo_reader (propname_document, None)) [] =
     Inl (InvalidBody ''invalid PROPFIND request body'')"
proof (rule propname_request_refused)
  show "demo_reader (propname_document, None) [] = (propname_document, None)"
    by (simp add: demo_reader_def)
  show "list_all (\<lambda>e. case tag_of e of Some t \<Rightarrow> other_tag t | None \<Rightarrow> True) propname_document"
    by code_simp
  show "list_ex (\<lambda>e. tag_of e \<noteq> None) propname_document"
    by (simp add: propname_document_def)
qed

type_synonym update = "(string \<times> string) \<times> string option"

definition update_events :: "update \<Rightarrow> xml_event list" where
  "update_events = (\<lambda>((ns, local), v).
     case v of
       None \<Rightarrow> [Ev_Start (dav ''remove''), Ev_Start (dav ''prop''), Ev_Empty (ns_tag ns local),
                Ev_End ''prop'', Ev_End ''remove'']
     | Some t \<Rightarrow>
         [Ev_Start (dav ''set''), Ev_Start (dav ''prop''), Ev_Start (ns_tag ns local)] @
         (if t = [] then [] else [Ev_Text t]) @
         [Ev_End local, Ev_End ''prop'', Ev_End ''set''])"

definition update_document :: "update list \<Rightarrow> xml_event list" where
  "update_document us =
     [Ev_Start (dav ''propertyupdate'')] @ concat (map update_events us) @ [Ev_End ''propertyupdate'']"

definition update_action :: "update \<Rightarrow> prop_patch_action" where
  "update_action = (\<lambda>((ns, local), v). PropPatchAction (clark_key ns local) v)"

definition plain_update :: "update \<Rightarrow> bool" where
  "plain_update = (\<lambda>((ns, local), v).
     plain_name (ns, local) \<and> local \<notin> {''set'', ''remove'', ''prop''} \<and>
     (case v of None \<Rightarrow> True | Some t \<Rightarrow> valid_utf8 t \<and> CHR ''&'' \<notin> set t))"

definition idle :: "prop_patch_action list \<Rightarrow> proppatch_scan" where
  "idle as = \<lparr>ps_actions = as, ps_in_set = False, ps_in_remove = False, ps_current = None\<rparr>"

lemma proppatch_update:
  assumes "plain_update u"
  shows "scan_events proppatch_event (idle as) (update_events u @ es) err =
           scan_events proppatch_event (idle (as @ [update_action u])) es err"
proof -
  obtain ns local v where u: "u = ((ns, local), v)" by (metis prod.exhaust)
  with assms have e: "extract_element_ns (ns_tag ns local) = Inr (ns, local)"
    and l: "local \<noteq> ''set''" "local \<noteq> ''remove''" "local \<noteq> ''prop''" "from_utf8_lossy local = local"
    by (auto simp: plain_update_def plain_name_def valid_utf8_lossy)
  have d: "''set'' \<in> set dav_names" "''remove'' \<in> set dav_names" "''prop'' \<in> set dav_names"
    by (simp_all add: dav_names_def)
  note dd = extract_dav [OF d(1)] extract_dav [OF d(2)] extract_dav [OF d(3)]
    lossy_dav [OF d(1)] lossy_dav [OF d(2)] lossy_dav [OF d(3)]
  show ?thesis
  proof (cases v)
    case None
    with u e l dd show ?thesis by (simp add: update_events_def update_action_def idle_def Let_def)
  next
    case (Some t)
    with assms u have t: "from_utf8_lossy t = t" "decode_xml_char_refs t = t"
      by (auto simp: plain_update_def valid_utf8_lossy decode_plain)
    with Some u e l dd show ?thesis
      by (simp add: update_events_def update_action_def idle_def Let_def)
  qed
qed

lemma proppatch_updates:
  "list_all plain_update us \<Longrightarrow>
     scan_events proppatch_event (idle as) (concat (map update_events us) @ es) err =
       scan_events proppatch_event (idle (as @ map update_action us)) es err"
  by (induction us arbitrary: as) (simp_all add: proppatch_update)

lemma proppatch_document_parsed:
  assumes "reader (decode_xml_char_refs (from_utf8_lossy xml)) = (update_document us, None)"
    and "us \<noteq> []" and "list_all plain_update us"
  shows "parse_proppatch_request reader xml = Inr \<lparr>pp_actions = map update_action us\<rparr>"
proof -
  have d: "''propertyupdate'' \<in> set dav_names" by (simp add: dav_names_def)
  show ?thesis
    using assms(1,2) proppatch_updates [OF assms(3), of "[]"] extract_dav [OF d] lossy_dav [OF d]
    by (simp add: parse_proppatch_request_def update_document_def idle_def Let_def)
qed



end
