(* ===== verification/Lock_System.thy ===== *)
theory Lock_System
  imports Webdav_Types
begin

section \<open>The If header and lock evaluation (src/webdav/ls.rs)\<close>

text \<open>
  The types and the parser of the \<open>If\<close> header, the walk over the ancestors of a path that carry
  locks, and the evaluation of conditions against locks. The parser's cursor, a byte index in the
  code, is the rest of the input from that index. The clock is read once per operation.
\<close>

datatype if_condition = StateToken string | NotCond if_condition

record if_list =
  resource_tag :: "string option"
  conditions :: "if_condition list"

definition active_slice :: "system_time \<Rightarrow> lock_info list \<Rightarrow> lock_info list" where
  "active_slice now infos = filter (\<lambda>l. \<not> is_expired now l) infos"

fun eval_active :: "if_condition \<Rightarrow> lock_info list \<Rightarrow> bool" where
  "eval_active (StateToken t) active =
     (if t = ''DAV:no-lock'' then active = [] else list_ex (\<lambda>l. lk_token l = t) active)"
| "eval_active (NotCond inner) active = (\<not> eval_active inner active)"

definition eval_condition :: "system_time \<Rightarrow> if_condition \<Rightarrow> lock_info list \<Rightarrow> bool" where
  "eval_condition now c infos = eval_active c (active_slice now infos)"

definition positive_tokens :: "if_list \<Rightarrow> string list" where
  "positive_tokens l =
     List.map_filter (\<lambda>c. case c of StateToken t \<Rightarrow> Some t | NotCond _ \<Rightarrow> None) (conditions l)"

definition has_lock_token :: "if_list \<Rightarrow> bool" where
  "has_lock_token l \<longleftrightarrow>
     list_ex (\<lambda>c. case c of
                    StateToken t \<Rightarrow> t \<noteq> ''DAV:no-lock''
                  | NotCond (StateToken t) \<Rightarrow> t \<noteq> ''DAV:no-lock''
                  | NotCond (NotCond _) \<Rightarrow> False) (conditions l)"

subsection \<open>Parsing\<close>

definition skip_ws :: "string \<Rightarrow> string" where
  "skip_ws s = dropWhile is_ascii_whitespace s"

definition read_angle_bracket :: "string \<Rightarrow> (string \<times> string) option" where
  "read_angle_bracket s =
     (case split_once (CHR ''>'') (tl s) of
        None \<Rightarrow> None
      | Some (inner, rest) \<Rightarrow> map_option (\<lambda>t. (t, rest)) (from_utf8 inner))"

text \<open>The keyword \<open>Not\<close> counts only at the end of the input or before a space or a bracket.\<close>

definition read_not :: "string \<Rightarrow> bool \<times> string" where
  "read_not s =
     (if starts_with s ''Not'' then
        (let after = drop 3 s
         in if after = [] \<or> is_ascii_whitespace (hd after) \<or> hd after = CHR ''<'' \<or> hd after = CHR ''(''
            then (True, skip_ws after) else (False, s))
      else (False, s))"

lemma skip_ws_length: "length (skip_ws s) \<le> length s"
  by (simp add: skip_ws_def length_dropWhile_le)

lemma read_angle_length: "read_angle_bracket s = Some (t, r) \<Longrightarrow> length r < length s \<or> s = []"
proof -
  assume "read_angle_bracket s = Some (t, r)"
  then have m: "CHR ''>'' \<in> set (tl s)" and r: "r = tl (dropWhile (\<lambda>x. x \<noteq> CHR ''>'') (tl s))"
    by (auto simp: read_angle_bracket_def split_once_def split: if_splits option.splits)
  then show ?thesis
    using length_dropWhile_le [of "\<lambda>x. x \<noteq> CHR ''>''" "tl s"] by (cases s) auto
qed

lemma read_not_length: "read_not s = (b, r) \<Longrightarrow> length r \<le> length s"
  using skip_ws_length [of "drop 3 s"] by (auto simp: read_not_def Let_def split: if_splits)

function read_conditions :: "string \<Rightarrow> if_condition list \<times> string" where
  "read_conditions p =
     (case skip_ws p of
        [] \<Rightarrow> ([], [])
      | c # cs \<Rightarrow>
          if c = CHR '')'' then ([], cs)
          else (case read_not (c # cs) of
                  (negated, []) \<Rightarrow> ([], [])
                | (negated, d # ds) \<Rightarrow>
                    if d = CHR ''<'' then
                      (case read_angle_bracket (d # ds) of
                         None \<Rightarrow> ([], d # ds)
                       | Some (t, r) \<Rightarrow>
                           (case read_conditions r of
                              (conds, end) \<Rightarrow>
                                ((if negated then NotCond (StateToken t) else StateToken t) # conds, end)))
                    else read_conditions ds))"
  by pat_completeness auto
termination
proof (relation "measure length", goal_cases)
  case (2 p c cs neg rest d ds p1 t r)
  then show ?case
    using skip_ws_length [of p] read_not_length [of "c # cs" neg "d # ds"]
      read_angle_length [of "d # ds" t r] by simp
next
  case (3 p c cs neg rest d ds)
  then show ?case
    using skip_ws_length [of p] read_not_length [of "c # cs" neg "d # ds"] by simp
qed simp

declare read_conditions.simps [simp del]

definition read_list :: "string \<Rightarrow> if_condition list \<times> string" where
  "read_list s = read_conditions (tl s)"

lemma read_conditions_length: "length (snd (read_conditions p)) \<le> length p"
proof (induction p rule: read_conditions.induct)
  case (1 p)
  show ?case
  proof (cases "skip_ws p")
    case Nil
    then show ?thesis by (simp add: read_conditions.simps [of p])
  next
    case (Cons c cs)
    have cs: "Suc (length cs) \<le> length p" using skip_ws_length [of p] Cons by simp
    show ?thesis
    proof (cases "c = CHR '')''")
      case True
      with Cons cs show ?thesis by (simp add: read_conditions.simps [of p])
    next
      case False
      obtain neg rest where n: "read_not (c # cs) = (neg, rest)" by fastforce
      show ?thesis
      proof (cases rest)
        case Nil
        with Cons False n show ?thesis by (simp add: read_conditions.simps [of p])
      next
        case (Cons d ds)
        note ds = Cons
        with read_not_length [OF n] cs have dl: "Suc (length ds) \<le> length p" by simp
        show ?thesis
        proof (cases "d = CHR ''<''")
          case lt: True
          show ?thesis
          proof (cases "read_angle_bracket (d # ds)")
            case None
            with \<open>skip_ws p = c # cs\<close> False n ds lt dl show ?thesis
              by (simp add: read_conditions.simps [of p])
          next
            case (Some tr)
            obtain t r where tr: "tr = (t, r)" by (cases tr)
            have "length r < length (d # ds)" using read_angle_length [of "d # ds" t r] Some tr by simp
            moreover have "length (snd (read_conditions r)) \<le> length r"
              using "1.IH"(1) [OF \<open>skip_ws p = c # cs\<close> False n [symmetric] ds lt Some tr [symmetric]]
              by simp
            ultimately show ?thesis
              using \<open>skip_ws p = c # cs\<close> False n ds lt Some tr dl
              by (auto simp: read_conditions.simps [of p] split: prod.splits)
          qed
        next
          case nlt: False
          with "1.IH"(2) [OF \<open>skip_ws p = c # cs\<close> False n [symmetric] ds nlt]
            \<open>skip_ws p = c # cs\<close> False n ds dl show ?thesis
            by (simp add: read_conditions.simps [of p])
        qed
      qed
    qed
  qed
qed

lemma read_list_length: "read_list (c # s) = (cs, r) \<Longrightarrow> length r \<le> length s"
  using read_conditions_length [of s] by (simp add: read_list_def)

text \<open>The lists that follow one resource tag.\<close>

function read_tagged :: "string \<Rightarrow> string \<Rightarrow> if_list list \<times> string" where
  "read_tagged tag s =
     (if s = [] \<or> hd s \<noteq> CHR ''('' then ([], s)
      else (case read_list s of
              (conds, r) \<Rightarrow>
                (case read_tagged tag (skip_ws r) of
                   (ls, end) \<Rightarrow> (\<lparr>resource_tag = Some tag, conditions = conds\<rparr> # ls, end))))"
  by pat_completeness auto
termination
proof (relation "measure (\<lambda>(tag, s). length s)", goal_cases)
  case (2 tag s conds r)
  then obtain c t where "s = c # t" by (cases s) auto
  with 2 read_list_length [of c t conds r] skip_ws_length [of r] show ?case by simp
qed simp

declare read_tagged.simps [simp del]

lemma read_tagged_length: "length (snd (read_tagged tag s)) \<le> length s"
proof (induction tag s rule: read_tagged.induct)
  case (1 tag s)
  show ?case
  proof (cases "s = [] \<or> hd s \<noteq> CHR ''(''")
    case True
    then show ?thesis by (simp add: read_tagged.simps [of tag s])
  next
    case False
    then obtain c t where s: "s = c # t" by (cases s) auto
    obtain conds r where r: "read_list s = (conds, r)" by fastforce
    with s have "length r \<le> length t" using read_list_length by blast
    moreover have "length (snd (read_tagged tag (skip_ws r))) \<le> length (skip_ws r)"
      using "1.IH" [OF False r [symmetric]] by simp
    ultimately show ?thesis
      using False r s skip_ws_length [of r] read_tagged.simps [of tag s]
      by (simp split: prod.splits)
  qed
qed

function parse_if_value :: "string \<Rightarrow> if_list list" where
  "parse_if_value p =
     (case skip_ws p of
        [] \<Rightarrow> []
      | c # cs \<Rightarrow>
          if c = CHR ''<'' then
            (case read_angle_bracket (c # cs) of
               None \<Rightarrow> []
             | Some (tag, r) \<Rightarrow>
                 (if skip_ws r \<noteq> [] \<and> hd (skip_ws r) = CHR ''('' then
                    (case read_tagged tag (skip_ws r) of (ls, end) \<Rightarrow> ls @ parse_if_value end)
                  else
                    \<lparr>resource_tag = None, conditions = [StateToken tag]\<rparr> # parse_if_value (skip_ws r)))
          else if c = CHR ''('' then
            (case read_list (c # cs) of
               (conds, r) \<Rightarrow>
                 \<lparr>resource_tag = None, conditions = conds\<rparr> # parse_if_value (skip_ws r))
          else parse_if_value cs)"
  by pat_completeness auto
termination
proof (relation "measure length", goal_cases)
  case (2 p c cs tr tag r ls rest)
  have "length r < length (c # cs)" using 2 read_angle_length [of "c # cs" tag r] by simp
  moreover have "length rest \<le> length (skip_ws r)"
    using 2 read_tagged_length [of tag "skip_ws r"] by (metis snd_conv)
  ultimately show ?case using 2 skip_ws_length [of p] skip_ws_length [of r] by simp
next
  case (3 p c cs tr tag r)
  have "length r < length (c # cs)" using 3 read_angle_length [of "c # cs" tag r] by simp
  then show ?case using 3 skip_ws_length [of p] skip_ws_length [of r] by simp
next
  case (4 p c cs conds r)
  have "length r \<le> length cs" using 4 read_list_length [of c cs] by metis
  then show ?case using 4 skip_ws_length [of p] skip_ws_length [of r] by simp
next
  case (5 p c cs)
  then show ?case using skip_ws_length [of p] by simp
qed simp

declare parse_if_value.simps [simp del]

definition parse_if_header :: "header_map \<Rightarrow> if_list list" where
  "parse_if_header headers =
     (case header_str headers ''if'' of None \<Rightarrow> [] | Some v \<Rightarrow> parse_if_value v)"

subsection \<open>The parser inverts printing\<close>

fun show_condition :: "if_condition \<Rightarrow> string" where
  "show_condition (StateToken t) = ''<'' @ t @ ''> ''"
| "show_condition (NotCond c) = ''Not '' @ show_condition c"

definition show_list :: "if_condition list \<Rightarrow> string" where
  "show_list cs = ''('' @ concat (map show_condition cs) @ '')''"

definition show_tagged :: "string \<times> if_condition list list \<Rightarrow> string" where
  "show_tagged = (\<lambda>(tag, ls). ''<'' @ tag @ ''>'' @ concat (map show_list ls))"

definition plain_token :: "string \<Rightarrow> bool" where
  "plain_token t \<longleftrightarrow> valid_utf8 t \<and> CHR ''>'' \<notin> set t"

fun plain_condition :: "if_condition \<Rightarrow> bool" where
  "plain_condition (StateToken t) = plain_token t"
| "plain_condition (NotCond (StateToken t)) = plain_token t"
| "plain_condition (NotCond (NotCond _)) = False"

lemma skip_ws_simps [simp]:
  "skip_ws [] = []" "skip_ws (CHR '' '' # s) = skip_ws s"
  "skip_ws (CHR ''('' # s) = CHR ''('' # s" "skip_ws (CHR '')'' # s) = CHR '')'' # s"
  "skip_ws (CHR ''<'' # s) = CHR ''<'' # s" "skip_ws (CHR ''N'' # s) = CHR ''N'' # s"
  by (simp_all add: skip_ws_def is_ascii_whitespace_def byte_def)

lemma read_angle_bracket_simp [simp]:
  "plain_token t \<Longrightarrow> read_angle_bracket (CHR ''<'' # t @ CHR ''>'' # r) = Some (t, r)"
  by (simp add: read_angle_bracket_def split_once_append plain_token_def from_utf8_def)

lemma read_not_simps [simp]:
  "read_not (CHR ''<'' # s) = (False, CHR ''<'' # s)"
  "read_not (CHR ''N'' # CHR ''o'' # CHR ''t'' # CHR '' '' # s) = (True, skip_ws s)"
  by (simp_all add: read_not_def starts_with_def is_ascii_whitespace_def byte_def)

lemma read_conditions_skip: "read_conditions (CHR '' '' # s) = read_conditions s"
  by (simp add: read_conditions.simps [of "CHR '' '' # s"] read_conditions.simps [of s])

lemma read_conditions_print:
  "list_all plain_condition cs \<Longrightarrow>
     read_conditions (concat (map show_condition cs) @ CHR '')'' # r) = (cs, r)"
proof (induction cs)
  case Nil
  then show ?case by (simp add: read_conditions.simps)
next
  case (Cons c cs)
  let ?rest = "concat (map show_condition cs) @ CHR '')'' # r"
  have ih: "read_conditions (CHR '' '' # ?rest) = (cs, r)"
    using Cons by (simp add: read_conditions_skip)
  show ?case
  proof (cases c)
    case (StateToken t)
    with Cons.prems ih show ?thesis
      by (simp add: read_conditions.simps [of "CHR ''<'' # _"])
  next
    case (NotCond d)
    with Cons.prems obtain t where "d = StateToken t" "plain_token t" by (cases d) auto
    with NotCond ih show ?thesis
      by (simp add: read_conditions.simps [of "CHR ''N'' # _"])
  qed
qed

lemma read_list_print:
  "list_all plain_condition cs \<Longrightarrow> read_list (show_list cs @ r) = (cs, r)"
  using read_conditions_print [of cs r] by (simp add: read_list_def show_list_def)

lemma show_list_Cons: "show_list cs @ r = CHR ''('' # tl (show_list cs) @ r"
  by (simp add: show_list_def)

lemma read_tagged_print:
  assumes "list_all (list_all plain_condition) ls" "r = [] \<or> hd r = CHR ''<''"
  shows "read_tagged tag (concat (map show_list ls) @ r) =
           (map (\<lambda>cs. \<lparr>resource_tag = Some tag, conditions = cs\<rparr>) ls, r)"
  using assms(1)
proof (induction ls)
  case Nil
  with assms(2) show ?case by (auto simp: read_tagged.simps [of tag r])
next
  case (Cons cs ls)
  let ?rest = "concat (map show_list ls) @ r"
  have "skip_ws ?rest = ?rest"
    using assms(2) by (cases ls; cases r) (auto simp: show_list_def)
  moreover have "show_list cs @ ?rest \<noteq> []" "hd (show_list cs @ ?rest) = CHR ''(''"
    by (simp_all add: show_list_def)
  ultimately have "read_tagged tag (show_list cs @ ?rest) =
      (map (\<lambda>cs. \<lparr>resource_tag = Some tag, conditions = cs\<rparr>) (cs # ls), r)"
    using Cons read_list_print [of cs ?rest] by (subst read_tagged.simps) simp
  then show ?case by simp
qed

definition show_if :: "if_condition list list \<Rightarrow> (string \<times> if_condition list list) list \<Rightarrow> string" where
  "show_if us gs = concat (map show_list us) @ concat (map show_tagged gs)"

definition if_lists :: "if_condition list list \<Rightarrow> (string \<times> if_condition list list) list \<Rightarrow> if_list list" where
  "if_lists us gs =
     map (\<lambda>cs. \<lparr>resource_tag = None, conditions = cs\<rparr>) us @
     concat (map (\<lambda>(tag, ls). map (\<lambda>cs. \<lparr>resource_tag = Some tag, conditions = cs\<rparr>) ls) gs)"

definition plain_groups :: "(string \<times> if_condition list list) list \<Rightarrow> bool" where
  "plain_groups gs \<longleftrightarrow>
     list_all (\<lambda>(tag, ls). plain_token tag \<and> ls \<noteq> [] \<and> list_all (list_all plain_condition) ls) gs"

lemma parse_if_groups:
  "plain_groups gs \<Longrightarrow> parse_if_value (concat (map show_tagged gs)) = if_lists [] gs"
proof (induction gs)
  case Nil
  then show ?case by (simp add: parse_if_value.simps if_lists_def)
next
  case (Cons g gs)
  obtain tag ls where g: "g = (tag, ls)" by (cases g)
  with Cons.prems have t: "plain_token tag" "ls \<noteq> []" "list_all (list_all plain_condition) ls"
    by (auto simp: plain_groups_def)
  let ?rest = "concat (map show_tagged gs)"
  have r: "?rest = [] \<or> hd ?rest = CHR ''<''"
    by (cases gs) (auto simp: show_tagged_def split: prod.splits)
  have ne: "concat (map show_list ls) @ ?rest \<noteq> []" "hd (concat (map show_list ls) @ ?rest) = CHR ''(''"
    using t(2) by (cases ls; simp add: show_list_def)+
  then have sk: "skip_ws (concat (map show_list ls) @ ?rest) = concat (map show_list ls) @ ?rest"
    by (cases "concat (map show_list ls) @ ?rest") auto
  have "concat (map show_tagged (g # gs)) =
      CHR ''<'' # tag @ CHR ''>'' # concat (map show_list ls) @ ?rest"
    by (simp add: g show_tagged_def)
  then show ?case
    using Cons t(1) ne sk read_tagged_print [OF t(3) r, of tag] g
    by (simp add: parse_if_value.simps [of "CHR ''<'' # _"] if_lists_def plain_groups_def)
qed

lemma parse_if_untagged:
  assumes "list_all (list_all plain_condition) us" "plain_groups gs"
  shows "parse_if_value (show_if us gs) = if_lists us gs"
  using assms(1)
proof (induction us)
  case Nil
  then show ?case using parse_if_groups [OF assms(2)] by (simp add: show_if_def)
next
  case (Cons cs us)
  have sk: "skip_ws (show_if us gs) = show_if us gs"
    by (cases us; cases gs) (auto simp: show_if_def show_list_def show_tagged_def split: prod.splits)
  have e: "show_if (cs # us) gs = CHR ''('' # tl (show_list cs) @ show_if us gs"
    by (simp add: show_if_def show_list_def)
  have "read_list (CHR ''('' # tl (show_list cs) @ show_if us gs) = (cs, show_if us gs)"
    using read_list_print [of cs "show_if us gs"] Cons.prems by (simp add: show_list_def)
  then show ?case
    unfolding e using Cons sk by (simp add: parse_if_value.simps [of "CHR ''('' # _"] if_lists_def)
qed

text \<open>
  C26: the parser of the \<open>If\<close> header inverts printing: a header that lists conditions, first those
  without a resource tag and then groups of lists under a tag, negated conditions included, is read
  as exactly those lists with those tags, in order.
\<close>

theorem if_header_roundtrip:
  assumes "list_all (list_all plain_condition) us" and "plain_groups gs"
  shows "parse_if_header [(''if'', Str (show_if us gs))] = if_lists us gs"
  using parse_if_untagged [OF assms] by (simp add: parse_if_header_def header_str_def)

theorem if_header_roundtrip_witness:
  "parse_if_header [(''if'', Str ''(<t1> Not <t2> )</a>(<t3> )'')] =
     [\<lparr>resource_tag = None, conditions = [StateToken ''t1'', NotCond (StateToken ''t2'')]\<rparr>,
      \<lparr>resource_tag = Some ''/a'', conditions = [StateToken ''t3'']\<rparr>]"
proof -
  let ?us = "[[StateToken ''t1'', NotCond (StateToken ''t2'')]]"
  let ?gs = "[(''/a'', [[StateToken ''t3'']])]"
  have "list_all (list_all plain_condition) ?us" "plain_groups ?gs"
    by (simp_all add: plain_groups_def plain_token_def) (simp_all add: valid_utf8_ascii byte_def)
  from if_header_roundtrip [OF this] show ?thesis
    by (simp add: show_if_def show_list_def show_tagged_def if_lists_def)
qed

subsection \<open>Locks on ancestors\<close>

definition is_ancestor_of :: "pathbuf \<Rightarrow> pathbuf \<Rightarrow> bool" where
  "is_ancestor_of ancestor target \<longleftrightarrow>
     (if ancestor = [] \<or> length target \<le> length ancestor then False
      else if \<not> path_starts_with target ancestor then False
      else if ancestor = ''/'' then True
      else target ! length ancestor = sep)"

text \<open>
  \<open>Path::parent\<close> iterated, the nearest first. The walk stops at the first ancestor for which
  \<open>f\<close> gives a result; \<open>walk_locked_ancestors\<close> is the walk with a test as \<open>f\<close>.
\<close>

function parents_of :: "component list \<Rightarrow> pathbuf list" where
  "parents_of cs =
     (if cs = [] \<or> cs = [RootDir] then [] else of_components (butlast cs) # parents_of (butlast cs))"
  by pat_completeness auto
termination by (relation "measure length") auto

declare parents_of.simps [simp del]

fun walk_up :: "lock_store \<Rightarrow> pathbuf \<Rightarrow> (lock_info list \<Rightarrow> 'r option) \<Rightarrow> pathbuf list \<Rightarrow> 'r option" where
  "walk_up locks root_canonical f [] = None"
| "walk_up locks root_canonical f (parent # ps) =
     (if \<not> path_starts_with parent root_canonical then None
      else case Option.bind (map_of locks parent) f of
             Some r \<Rightarrow> Some r
           | None \<Rightarrow> walk_up locks root_canonical f ps)"

fun walk_direct :: "(pathbuf \<times> lock_info list) list \<Rightarrow> pathbuf \<Rightarrow> (lock_info list \<Rightarrow> 'r option) \<Rightarrow> 'r option" where
  "walk_direct [] target f = None"
| "walk_direct ((lock_path, infos) # es) target f =
     (case (if is_ancestor_of lock_path target then f infos else None) of
        Some r \<Rightarrow> Some r
      | None \<Rightarrow> walk_direct es target f)"

definition walk_first ::
  "lock_store \<Rightarrow> pathbuf \<Rightarrow> pathbuf \<Rightarrow> (lock_info list \<Rightarrow> 'r option) \<Rightarrow> 'r option" where
  "walk_first locks target root_canonical f =
     (if locks = [] then None
      else (let inf_entries = filter (\<lambda>(_, infos). list_ex (\<lambda>l. lk_depth l = Infinity) infos) locks
            in if inf_entries = [] then None
               else if length inf_entries \<le> 10 then walk_direct inf_entries target f
               else walk_up locks root_canonical f (parents_of (components target))))"

definition walk_locked_ancestors ::
  "lock_store \<Rightarrow> pathbuf \<Rightarrow> pathbuf \<Rightarrow> (lock_info list \<Rightarrow> bool) \<Rightarrow> bool" where
  "walk_locked_ancestors locks target root_canonical f \<longleftrightarrow>
     walk_first locks target root_canonical (\<lambda>infos. if f infos then Some () else None) \<noteq> None"

definition find_ancestor_lock ::
  "system_time \<Rightarrow> lock_store \<Rightarrow> pathbuf \<Rightarrow> pathbuf \<Rightarrow> (lock_info \<Rightarrow> bool) \<Rightarrow> lock_info option" where
  "find_ancestor_lock now locks target root_canonical p =
     walk_first locks target root_canonical
       (find (\<lambda>lock. lk_depth lock = Infinity \<and> \<not> is_expired now lock \<and> p lock))"

fun refresh_first ::
  "system_time \<Rightarrow> (lock_info \<Rightarrow> bool) \<Rightarrow> lock_info list \<Rightarrow> (lock_info \<times> lock_info list) option" where
  "refresh_first now p [] = None"
| "refresh_first now p (lock # ls) =
     (if lk_depth lock = Infinity \<and> \<not> is_expired now lock \<and> p lock then
        (let lock' = lock\<lparr>lk_created := now\<rparr> in Some (lock', lock' # ls))
      else map_option (\<lambda>(r, ls'). (r, lock # ls')) (refresh_first now p ls))"

fun refresh_candidates ::
  "system_time \<Rightarrow> (lock_info \<Rightarrow> bool) \<Rightarrow> pathbuf list \<Rightarrow> lock_store \<Rightarrow> lock_info option \<times> lock_store" where
  "refresh_candidates now p [] locks = (None, locks)"
| "refresh_candidates now p (path # ps) locks =
     (case Option.bind (map_of locks path) (refresh_first now p) of
        Some (lock, infos) \<Rightarrow> (Some lock, AList.update path infos locks)
      | None \<Rightarrow> refresh_candidates now p ps locks)"

definition find_and_refresh_ancestor_lock ::
  "system_time \<Rightarrow> lock_store \<Rightarrow> pathbuf \<Rightarrow> (lock_info \<Rightarrow> bool) \<Rightarrow> lock_info option \<times> lock_store" where
  "find_and_refresh_ancestor_lock now locks target p =
     refresh_candidates now p
       (map fst (filter (\<lambda>(path, infos).
          list_ex (\<lambda>l. lk_depth l = Infinity \<and> \<not> is_expired now l) infos \<and> is_ancestor_of path target) locks))
       locks"

definition eval_if :: "system_time \<Rightarrow> if_list list \<Rightarrow> lock_info list \<Rightarrow> string \<Rightarrow> bool" where
  "eval_if now ifs infos request_path =
     (if ifs = [] then active_slice now infos = []
      else (let applicable = filter (\<lambda>l. case resource_tag l of Some tag \<Rightarrow> tag = request_path | None \<Rightarrow> True) ifs
            in if applicable = [] then True
               else (let active = active_slice now infos
                     in list_all (\<lambda>l. list_all (\<lambda>c. eval_active c active) (conditions l)) applicable)))"

definition check_existing_exclusive ::
  "system_time \<Rightarrow> lock_info list \<Rightarrow> string list \<Rightarrow> status + string option" where
  "check_existing_exclusive now entry if_tokens =
     (case map_option lk_token (find is_exclusive (active_slice now entry)) of
        Some t \<Rightarrow> if t \<in> set if_tokens then Inr (Some t) else Inl LOCKED
      | None \<Rightarrow> Inr None)"

subsection \<open>The walk over the ancestors\<close>

definition store_ok :: "string list \<Rightarrow> lock_store \<Rightarrow> bool" where
  "store_ok rn locks \<longleftrightarrow>
     hm_inv locks \<and>
     (\<forall>p\<in>fst ` set locks. \<exists>ns. p = abs_path (rn @ ns) \<and> ns \<noteq> [] \<and> (\<forall>w\<in>set (rn @ ns). safe_name w))"

lemma length_abs_path_prefix:
  assumes "\<forall>w\<in>set (ns @ ms). safe_name w" "ms \<noteq> []"
  shows "length (abs_path ns) < length (abs_path (ns @ ms))"
    and "ns \<noteq> [] \<Longrightarrow> abs_path (ns @ ms) ! length (abs_path ns) = sep"
proof -
  obtain m mt where m: "ms = m # mt" using assms(2) by (cases ms) auto
  with assms(1) have "m \<noteq> []" by (auto simp: safe_name_def)
  with m show "length (abs_path ns) < length (abs_path (ns @ ms))"
    by (cases "ns = []") (auto simp: abs_path_def)
  show "abs_path (ns @ ms) ! length (abs_path ns) = sep" if "ns \<noteq> []"
    using that m by (simp add: abs_path_def nth_append)
qed

lemma is_ancestor_of_abs_path:
  assumes "\<forall>w\<in>set an. safe_name w" "\<forall>w\<in>set tn. safe_name w"
  shows "is_ancestor_of (abs_path an) (abs_path tn) \<longleftrightarrow> strict_prefix an tn"
proof
  assume a: "is_ancestor_of (abs_path an) (abs_path tn)"
  then have "prefix an tn" "an \<noteq> tn"
    using starts_with_abs_paths [OF assms] by (auto simp: is_ancestor_of_def split: if_splits)
  then show "strict_prefix an tn" by (simp add: strict_prefix_def)
next
  assume "strict_prefix an tn"
  then obtain ms where t: "tn = an @ ms" "ms \<noteq> []" by (auto simp: strict_prefix_def prefix_def)
  have pa: "abs_path an \<noteq> []" by (cases an) (simp_all add: abs_path_def)
  have "path_starts_with (abs_path tn) (abs_path an)"
    using starts_with_abs_paths [OF assms] t(1) by simp
  then show "is_ancestor_of (abs_path an) (abs_path tn)"
    using pa length_abs_path_prefix [of an ms] assms(2) t
    by (cases "an = []") (auto simp: is_ancestor_of_def abs_path_def)
qed

lemma parents_of_abs:
  "parents_of (RootDir # map Normal ns) = map (\<lambda>i. abs_path (take i ns)) (rev [0..<length ns])"
proof (induction ns rule: rev_induct)
  case Nil
  then show ?case by (simp add: parents_of.simps)
next
  case (snoc n ns)
  have "parents_of (RootDir # map Normal (ns @ [n])) =
      abs_path ns # parents_of (RootDir # map Normal ns)"
    by (subst parents_of.simps) (simp add: butlast_append of_components_abs)
  also have "\<dots> = map (\<lambda>i. abs_path (take i (ns @ [n]))) (rev [0..<length (ns @ [n])])"
    unfolding snoc.IH by (simp add: rev_map [symmetric])
  finally show ?case .
qed

lemma walk_direct_iff:
  "walk_direct es target f \<noteq> None \<longleftrightarrow>
     (\<exists>(p, infos)\<in>set es. is_ancestor_of p target \<and> f infos \<noteq> None)"
  by (induction es target f rule: walk_direct.induct) (auto split: option.splits if_splits)

lemma walk_up_iff:
  assumes "\<forall>w\<in>set (rn @ tn). safe_name w" "k \<le> length (rn @ tn)"
  shows "walk_up locks (abs_path rn) f (map (\<lambda>i. abs_path (take i (rn @ tn))) (rev [0..<k])) \<noteq> None \<longleftrightarrow>
     (\<exists>i < k. length rn \<le> i \<and> Option.bind (map_of locks (abs_path (take i (rn @ tn)))) f \<noteq> None)"
  using assms(2)
proof (induction k)
  case 0
  then show ?case by simp
next
  case (Suc k)
  let ?p = "take k (rn @ tn)"
  have ps: "\<forall>w\<in>set ?p. safe_name w" using assms(1) by (meson in_set_takeD)
  have "path_starts_with (abs_path ?p) (abs_path rn) \<longleftrightarrow> prefix rn ?p"
    using starts_with_abs_paths [of rn ?p] assms(1) ps by simp
  also have "\<dots> \<longleftrightarrow> length rn \<le> k"
  proof
    assume "prefix rn ?p"
    from prefix_length_le [OF this] Suc.prems show "length rn \<le> k" by simp
  qed (simp add: take_append)
  finally have sw: "path_starts_with (abs_path ?p) (abs_path rn) \<longleftrightarrow> length rn \<le> k" .
  show ?case
  proof (cases "length rn \<le> k")
    case False
    with sw show ?thesis by auto
  next
    case True
    with sw Suc show ?thesis
      by (auto split: option.splits simp: less_Suc_eq)
  qed
qed

lemma strict_prefix_same [simp]: "strict_prefix (rn @ ns) (rn @ tn) \<longleftrightarrow> strict_prefix ns tn"
  by (simp add: strict_prefix_def)

lemma walk_first_iff:
  assumes ok: "store_ok rn locks" and safe: "\<forall>w\<in>set (rn @ tn). safe_name w"
    and inf: "\<And>infos. f infos \<noteq> None \<Longrightarrow> list_ex (\<lambda>l. lk_depth l = Infinity) infos"
  shows "walk_first locks (abs_path (rn @ tn)) (abs_path rn) f \<noteq> None \<longleftrightarrow>
     (\<exists>ns infos. strict_prefix ns tn \<and> map_of locks (abs_path (rn @ ns)) = Some infos \<and> f infos \<noteq> None)"
    (is "?walk \<longleftrightarrow> ?ref")
proof -
  let ?inf = "filter (\<lambda>(_, infos). list_ex (\<lambda>l. lk_depth l = Infinity) infos) locks"
  have inv: "hm_inv locks" using ok by (simp add: store_ok_def)
  have mem: "(\<exists>(p, infos)\<in>set ?inf. is_ancestor_of p (abs_path (rn @ tn)) \<and> f infos \<noteq> None) \<longleftrightarrow> ?ref"
  proof
    assume "\<exists>(p, infos)\<in>set ?inf. is_ancestor_of p (abs_path (rn @ tn)) \<and> f infos \<noteq> None"
    then obtain p infos where p: "(p, infos) \<in> set locks" "is_ancestor_of p (abs_path (rn @ tn))" "f infos \<noteq> None"
      by auto
    then obtain ns where ns: "p = abs_path (rn @ ns)" "\<forall>w\<in>set (rn @ ns). safe_name w"
      using ok unfolding store_ok_def by force
    with p(2) is_ancestor_of_abs_path [OF ns(2) safe] have "strict_prefix ns tn" by simp
    with p ns inv show ?ref by (auto simp: hm_in_set)
  next
    assume ?ref
    then obtain ns infos where ns: "strict_prefix ns tn" "map_of locks (abs_path (rn @ ns)) = Some infos" "f infos \<noteq> None"
      by blast
    have s: "\<forall>w\<in>set (rn @ ns). safe_name w"
      using safe ns(1) by (auto simp: strict_prefix_def prefix_def)
    have "is_ancestor_of (abs_path (rn @ ns)) (abs_path (rn @ tn))"
      using is_ancestor_of_abs_path [OF s safe] ns(1) by simp
    moreover have "(abs_path (rn @ ns), infos) \<in> set ?inf"
      using ns inf inv by (auto simp: hm_in_set)
    ultimately show "\<exists>(p, infos)\<in>set ?inf. is_ancestor_of p (abs_path (rn @ tn)) \<and> f infos \<noteq> None"
      using ns(3) by auto
  qed
  have empty: "?inf = [] \<Longrightarrow> \<not> ?ref" using mem by (metis (no_types, lifting) empty_iff list.set(1))
  have up: "walk_up locks (abs_path rn) f (parents_of (components (abs_path (rn @ tn)))) \<noteq> None \<longleftrightarrow> ?ref"
  proof -
    have "walk_up locks (abs_path rn) f (parents_of (components (abs_path (rn @ tn)))) \<noteq> None \<longleftrightarrow>
        (\<exists>i < length (rn @ tn). length rn \<le> i \<and>
           Option.bind (map_of locks (abs_path (take i (rn @ tn)))) f \<noteq> None)"
      unfolding components_abs_path [OF safe] parents_of_abs
      by (rule walk_up_iff [OF safe order_refl])
    also have "\<dots> \<longleftrightarrow> ?ref"
    proof
      assume "\<exists>i < length (rn @ tn). length rn \<le> i \<and>
           Option.bind (map_of locks (abs_path (take i (rn @ tn)))) f \<noteq> None"
      then obtain i infos where i: "i < length (rn @ tn)" "length rn \<le> i"
          "map_of locks (abs_path (rn @ take (i - length rn) tn)) = Some infos" "f infos \<noteq> None"
        by (auto simp: take_append bind_eq_Some_conv)
      moreover have "strict_prefix (take (i - length rn) tn) tn"
        using i(1,2) by (simp add: strict_prefix_def take_is_prefix)
      ultimately show ?ref by blast
    next
      assume ?ref
      then obtain ns infos where ns: "strict_prefix ns tn" "map_of locks (abs_path (rn @ ns)) = Some infos" "f infos \<noteq> None"
        by blast
      then obtain ms where t: "tn = ns @ ms" "ms \<noteq> []" by (auto simp: strict_prefix_def prefix_def)
      show "\<exists>i < length (rn @ tn). length rn \<le> i \<and>
           Option.bind (map_of locks (abs_path (take i (rn @ tn)))) f \<noteq> None"
        using ns t by (intro exI [of _ "length (rn @ ns)"]) simp
    qed
    finally show ?thesis .
  qed
  show ?thesis
    using mem empty up walk_direct_iff [of ?inf "abs_path (rn @ tn)" f]
    by (cases "locks = []") (auto simp: walk_first_def Let_def)
qed

lemma walk_locked_iff:
  assumes "store_ok rn locks" and "\<forall>w\<in>set (rn @ tn). safe_name w"
    and "\<forall>infos. f infos \<longrightarrow> list_ex (\<lambda>l. lk_depth l = Infinity) infos"
  shows "walk_locked_ancestors locks (abs_path (rn @ tn)) (abs_path rn) f \<longleftrightarrow>
     (\<exists>ns infos. strict_prefix ns tn \<and> map_of locks (abs_path (rn @ ns)) = Some infos \<and> f infos)"
proof -
  have e: "(if f infos then Some () else None) \<noteq> None \<longleftrightarrow> f infos" for infos by simp
  show ?thesis
    unfolding walk_locked_ancestors_def
    using walk_first_iff [OF assms(1,2), of "\<lambda>infos. if f infos then Some () else None", unfolded e] assms(3)
    by blast
qed

text \<open>
  C25: both strategies of the ancestor walk agree with the specification. Whether there are at most
  ten entries with a depth-infinity lock (then the entries are scanned) or more (then the parents
  of the path are looked up one by one), a test that only accepts entries with such a lock
  succeeds exactly when some proper ancestor of the target below the root has an entry that it
  accepts.
\<close>

theorem walk_locked_ancestors_reference:
  assumes "store_ok rn locks" and "\<forall>w\<in>set (rn @ tn). safe_name w"
    and "\<forall>infos. f infos \<longrightarrow> list_ex (\<lambda>l. lk_depth l = Infinity) infos"
  shows "walk_locked_ancestors locks (abs_path (rn @ tn)) (abs_path rn) f \<longleftrightarrow>
     (\<exists>ns infos. strict_prefix ns tn \<and> map_of locks (abs_path (rn @ ns)) = Some infos \<and> f infos)"
  by (rule walk_locked_iff [OF assms])

definition demo_lock :: "lock_scope \<Rightarrow> string \<Rightarrow> depth \<Rightarrow> lock_info" where
  "demo_lock s t d =
     \<lparr>lk_scope = s, lk_token = t, lk_owner = None, lk_created = 0, lk_timeout = Some 60, lk_depth = d\<rparr>"

definition demo_inf :: "lock_info list \<Rightarrow> bool" where
  "demo_inf infos = list_ex (\<lambda>l. lk_depth l = Infinity) infos"

theorem walk_locked_ancestors_reference_witness:
  "walk_locked_ancestors [(abs_path [''srv'', ''a''], [demo_lock Exclusive ''t'' Infinity])]
     (abs_path [''srv'', ''a'', ''b'', ''c'']) (abs_path [''srv'']) demo_inf \<and>
   strict_prefix [''a''] [''a'', ''b'', ''c''] \<and>
   demo_inf [demo_lock Exclusive ''t'' Infinity]"
proof -
  let ?locks = "[(abs_path [''srv'', ''a''], [demo_lock Exclusive ''t'' Infinity])]"
  have ok: "store_ok [''srv''] ?locks"
    by (auto simp: store_ok_def safe_name_def intro!: exI [of _ "[''a'']"])
  have sn: "\<forall>w\<in>set ([''srv''] @ [''a'', ''b'', ''c'']). safe_name w"
    by (simp add: safe_name_def)
  have f: "\<forall>infos. demo_inf infos \<longrightarrow> list_ex (\<lambda>l. lk_depth l = Infinity) infos"
    by (simp add: demo_inf_def)
  have d: "demo_inf [demo_lock Exclusive ''t'' Infinity]"
    by (simp add: demo_inf_def demo_lock_def)
  have p: "strict_prefix [''a''] [''a'', ''b'', ''c'']"
    by (simp add: strict_prefix_def)
  have "\<exists>ns infos. strict_prefix ns [''a'', ''b'', ''c''] \<and>
      map_of ?locks (abs_path ([''srv''] @ ns)) = Some infos \<and> demo_inf infos"
    using d p by (intro exI [of _ "[''a'']"] exI [of _ "[demo_lock Exclusive ''t'' Infinity]"]) simp
  with walk_locked_ancestors_reference [OF ok sn f] d p show ?thesis by simp
qed

subsection \<open>Evaluation and refresh\<close>

lemma active_slice_idem [simp]: "active_slice now (active_slice now infos) = active_slice now infos"
  by (simp add: active_slice_def)

lemma eval_if_active: "eval_if now ls (active_slice now infos) rp = eval_if now ls infos rp"
  by (simp add: eval_if_def)

lemma eval_if_no_header: "eval_if now [] infos rp \<longleftrightarrow> active_slice now infos = []"
  by (simp add: eval_if_def)

lemma eval_if_other_resource:
  "ls \<noteq> [] \<Longrightarrow> list_all (\<lambda>l. \<exists>tag. resource_tag l = Some tag \<and> tag \<noteq> rp) ls \<Longrightarrow> eval_if now ls infos rp"
  by (auto simp: eval_if_def Let_def filter_empty_conv list_all_iff split: option.splits)

definition refreshed :: "system_time \<Rightarrow> lock_info list \<Rightarrow> lock_info list \<Rightarrow> bool" where
  "refreshed now infos infos' \<longleftrightarrow>
     list_all2 (\<lambda>l l'. l' = l \<or> \<not> is_expired now l \<and> l' = l\<lparr>lk_created := now\<rparr>) infos infos'"

lemma refresh_not_expired: "\<not> is_expired now l \<Longrightarrow> \<not> is_expired now (l\<lparr>lk_created := now\<rparr>)"
  by (auto simp: is_expired_def elapsed_def split: option.splits if_splits)

lemma refreshed_refl [simp]: "refreshed now infos infos"
  by (simp add: refreshed_def list_all2_same)

lemma refreshed_scopes:
  "refreshed now infos infos' \<Longrightarrow>
     map lk_scope (active_slice now infos') = map lk_scope (active_slice now infos)"
  unfolding refreshed_def active_slice_def
proof (induction rule: list_all2_induct)
  case (Cons l ls l' ls')
  then show ?case using refresh_not_expired [of now l] by auto
qed simp

lemma refresh_first_refreshed:
  "refresh_first now p infos = Some (l, infos') \<Longrightarrow>
     refreshed now infos infos' \<and> l \<in> set infos' \<and> lk_depth l = Infinity \<and> \<not> is_expired now l"
proof (induction infos arbitrary: l infos')
  case (Cons k ks)
  then show ?case
    using refresh_not_expired [of now k]
    by (auto simp: refreshed_def Let_def list_all2_same split: if_splits)
qed simp

text \<open>A refresh changes at most one entry, and there only the creation time of an active lock.\<close>

lemma refresh_candidates_get:
  "refresh_candidates now p ps locks = (r, locks') \<Longrightarrow>
     (\<forall>k. case map_of locks' k of
            None \<Rightarrow> map_of locks k = None
          | Some infos' \<Rightarrow> \<exists>infos. map_of locks k = Some infos \<and> refreshed now infos infos') \<and>
     (hm_inv locks \<longrightarrow> hm_inv locks') \<and> fst ` set locks' = fst ` set locks"
proof (induction ps arbitrary: r locks')
  case Nil
  then show ?case by (auto split: option.splits)
next
  case (Cons q ps)
  show ?case
  proof (cases "Option.bind (map_of locks q) (refresh_first now p)")
    case None
    with Cons show ?thesis by simp
  next
    case (Some li)
    obtain l infos' where li: "li = (l, infos')" by (cases li)
    with Some obtain infos where i: "map_of locks q = Some infos" "refresh_first now p infos = Some (l, infos')"
      by (auto simp: bind_eq_Some_conv)
    have u: "locks' = AList.update q infos' locks" using Cons.prems Some li by simp
    have "q \<in> fst ` set locks" using i(1) by (force dest: map_of_SomeD)
    then have "fst ` set locks' = fst ` set locks" using u by (auto simp: dom_update)
    with u i refresh_first_refreshed [OF i(2)] show ?thesis
      by (auto simp: hm_simps split: option.splits)
  qed
qed

end
