(* ===== verification/Cleanup.thy ===== *)
theory Cleanup
  imports Lock_System
begin

section \<open>The cleanup task (src/server/cleanup.rs)\<close>

text \<open>
  One round of the background task: the lock store is pruned of expired locks and of entries
  without locks, then the authentication cache of entries whose expiry has been reached. The
  rounds come every 30 seconds until the server stops; here a round is a function and its times
  (the wall clock and the monotonic clock) are arguments. An \<open>Instant\<close> is a number of nanoseconds.
\<close>

type_synonym instant = nat
type_synonym auth_cache = "(nat \<times> instant) list"

definition prune_locks :: "system_time \<Rightarrow> lock_store \<Rightarrow> lock_store" where
  "prune_locks now store =
     filter (\<lambda>(_, infos). infos \<noteq> [])
       (map (\<lambda>(path, infos). (path, filter (\<lambda>l. \<not> is_expired now l) infos)) store)"

definition prune_auth_cache :: "instant \<Rightarrow> auth_cache \<Rightarrow> auth_cache" where
  "prune_auth_cache inow cache = filter (\<lambda>(_, expiry). inow < expiry) cache"

definition cleanup_round ::
  "system_time \<Rightarrow> instant \<Rightarrow> bool \<Rightarrow> lock_store \<times> auth_cache \<Rightarrow> lock_store \<times> auth_cache" where
  \<comment> \<open>\<open>poisoned\<close>: the cache's lock is poisoned, and the round leaves the cache alone\<close>
  "cleanup_round now inow poisoned =
     (\<lambda>(locks, cache).
        (prune_locks now locks, if poisoned then cache else prune_auth_cache inow cache))"

lemma map_of_map_filter:
  "hm_inv m \<Longrightarrow>
     map_of (filter (\<lambda>(_, v). P v) (map (\<lambda>(k, v). (k, f v)) m)) k =
       (case map_of m k of None \<Rightarrow> None | Some v \<Rightarrow> if P (f v) then Some (f v) else None)"
proof (induction m)
  case Nil
  then show ?case by simp
next
  case (Cons kv m)
  obtain a b where kv: "kv = (a, b)" by (cases kv)
  have "map_of (filter (\<lambda>(_, v). P v) (map (\<lambda>(k, v). (k, f v)) m)) a = None"
    using Cons.prems kv by (force simp: map_of_eq_None_iff)
  with Cons kv show ?case by auto
qed

lemma prune_locks_get:
  "hm_inv store \<Longrightarrow>
     map_of (prune_locks now store) p =
       (case map_of store p of
          None \<Rightarrow> None
        | Some infos \<Rightarrow> if active_slice now infos = [] then None else Some (active_slice now infos))"
  unfolding prune_locks_def active_slice_def
  by (simp add: map_of_map_filter [of store "\<lambda>v. v \<noteq> []" "filter (\<lambda>l. \<not> is_expired now l)"] split: option.splits)

lemma prune_locks_keys: "fst ` set (prune_locks now store) \<subseteq> fst ` set store"
  by (force simp: prune_locks_def)

lemma prune_locks_inv: "hm_inv store \<Longrightarrow> hm_inv (prune_locks now store)"
  unfolding prune_locks_def
  by (rule hm_inv_filter) (simp add: hm_inv_def comp_def case_prod_beta')

text \<open>
  A cleanup round removes exactly what has expired. A path keeps its locks that have not expired,
  in their order, and loses its entry when none is left; no other path appears. Evaluating a
  condition of an \<open>If\<close> header gives the same answer before and after the round.
\<close>

theorem cleanup_removes_exactly_expired:
  assumes "hm_inv locks" and "cleanup_round now inow poisoned (locks, cache) = (locks', cache')"
  shows "hm_inv locks' \<and>
     map_of locks' p =
       (case map_of locks p of
          None \<Rightarrow> None
        | Some infos \<Rightarrow> if active_slice now infos = [] then None else Some (active_slice now infos)) \<and>
     eval_if now ls (case map_of locks' p of None \<Rightarrow> [] | Some v \<Rightarrow> v) rp =
       eval_if now ls (case map_of locks p of None \<Rightarrow> [] | Some v \<Rightarrow> v) rp"
proof -
  have l: "locks' = prune_locks now locks" using assms(2) by (simp add: cleanup_round_def)
  have e: "eval_if now ls [] rp = eval_if now ls infos rp" if "active_slice now infos = []" for infos
    using eval_if_active [of now ls infos rp] that by simp
  show ?thesis
    unfolding l using prune_locks_inv [OF assms(1)] e
    by (simp add: prune_locks_get [OF assms(1)] eval_if_active split: option.splits)
qed

theorem cleanup_removes_exactly_expired_witness:
  "cleanup_round 100 0 False
     ([(''/a'', [demo_lock Exclusive ''t'' Zero]), (''/b'', [(demo_lock Shared ''u'' Zero)\<lparr>lk_timeout := None\<rparr>])],
      [(1, 5)]) =
     ([(''/b'', [(demo_lock Shared ''u'' Zero)\<lparr>lk_timeout := None\<rparr>])], [(1, 5)]) \<and>
   map_of [(''/b'', [(demo_lock Shared ''u'' Zero)\<lparr>lk_timeout := None\<rparr>])] ''/a'' = None"
proof -
  let ?m = "[(''/a'', [demo_lock Exclusive ''t'' Zero]), (''/b'', [(demo_lock Shared ''u'' Zero)\<lparr>lk_timeout := None\<rparr>])]"
  have r: "cleanup_round 100 0 False (?m, [(1, 5)]) =
      ([(''/b'', [(demo_lock Shared ''u'' Zero)\<lparr>lk_timeout := None\<rparr>])], [(1, 5)])"
    by (simp add: cleanup_round_def prune_locks_def prune_auth_cache_def is_expired_def elapsed_def demo_lock_def)
  have "hm_inv ?m" by simp
  from cleanup_removes_exactly_expired [OF this r, of "''/a''"] r show ?thesis
    by (simp add: active_slice_def is_expired_def elapsed_def demo_lock_def)
qed

end
