(* ===== verification/Fs_Model.thy ===== *)
theory Fs_Model
  imports Std_Path
begin

section \<open>The file system (std::fs on Linux)\<close>

text \<open>
  The state the server changes through \<open>tokio::fs\<close>, and the calls it makes. A file system holds
  a node for each absolute list of names (the root directory is there without an entry), the
  working directory of the process, and \<open>fs_deny\<close>: the calls that fail for a reason outside the
  tree (permissions, a full disk, name limits). Symbolic links are followed as Linux does it, at
  most 40 per resolution. The order of the entries is the unspecified order of \<open>read_dir\<close>.
\<close>

datatype io_error =
    NotFound | AlreadyExists | NotADirectory | IsADirectory | InvalidInput | FilesystemLoop
  | DirectoryNotEmpty | OtherError

datatype node = File string | Dir | Symlink string

datatype fsop =
    Op_canonicalize | Op_metadata | Op_create | Op_create_new | Op_create_dir | Op_remove_file
  | Op_remove_dir_all | Op_rename | Op_copy | Op_read_dir | Op_open | Op_write | Op_set_permissions

record fs =
  fs_nodes :: "(string list \<times> node) list"
  fs_cwd :: "string list"
  fs_deny :: "fsop \<Rightarrow> pathbuf \<Rightarrow> bool"

definition fs_lookup :: "fs \<Rightarrow> string list \<Rightarrow> node option" where
  "fs_lookup f p = (if p = [] then Some Dir else map_of (fs_nodes f) p)"

definition fs_set :: "string list \<Rightarrow> node \<Rightarrow> fs \<Rightarrow> fs" where
  "fs_set p n f = f\<lparr>fs_nodes := AList.update p n (fs_nodes f)\<rparr>"

definition fs_remove :: "string list \<Rightarrow> fs \<Rightarrow> fs" where
  "fs_remove p f = f\<lparr>fs_nodes := filter (\<lambda>(q, _). \<not> prefix p q) (fs_nodes f)\<rparr>"

definition fs_wf :: "fs \<Rightarrow> bool" where
  "fs_wf f \<longleftrightarrow> hm_inv (fs_nodes f) \<and>
     (\<forall>(p, n)\<in>set (fs_nodes f). p \<noteq> [] \<and> (\<forall>w\<in>set p. valid_name w) \<and>
        fs_lookup f (butlast p) = Some Dir)"

subsection \<open>Path resolution\<close>

fun walk :: "fs \<Rightarrow> nat \<Rightarrow> string list \<Rightarrow> string list \<Rightarrow> io_error + string list" where
  "walk f k cur [] = Inr cur"
| "walk f k cur (s # ss) =
     (if fs_lookup f cur \<noteq> Some Dir then Inl NotADirectory
      else if s = [] \<or> s = ''.'' then walk f k cur ss
      else if s = ''..'' then walk f k (butlast cur) ss
      else (case fs_lookup f (cur @ [s]) of
              None \<Rightarrow> Inl NotFound
            | Some (Symlink t) \<Rightarrow>
                (case k of
                   0 \<Rightarrow> Inl FilesystemLoop
                 | Suc k' \<Rightarrow>
                     walk f k' (if starts_with t ''/'' then [] else cur) (split_on sep t @ ss))
            | Some _ \<Rightarrow> walk f k (cur @ [s]) ss))"

definition start_dir :: "fs \<Rightarrow> pathbuf \<Rightarrow> string list" where
  "start_dir f p = (if starts_with p ''/'' then [] else fs_cwd f)"

definition resolve :: "fs \<Rightarrow> pathbuf \<Rightarrow> io_error + string list" where
  "resolve f p =
     (if p = [] then Inl NotFound
      else if CHR 0x00 \<in> set p then Inl InvalidInput
      else walk f 40 (start_dir f p) (split_on sep p))"

text \<open>
  The directory and the name that a call on the last component itself works on, for a path that
  ends in a name (the server passes no other path to such a call).
\<close>

definition locate :: "fs \<Rightarrow> pathbuf \<Rightarrow> io_error + (string list \<times> string)" where
  "locate f p =
     (let ws = split_on sep p; n = last ws
      in if CHR 0x00 \<in> set p \<or> \<not> valid_name n then Inl InvalidInput
         else case walk f 40 (start_dir f p) (butlast ws) of
                Inl e \<Rightarrow> Inl e
              | Inr d \<Rightarrow> if fs_lookup f d = Some Dir then Inr (d, n) else Inl NotADirectory)"

text \<open>Opening for writing follows a link in the last component, also to a missing target.\<close>

fun open_target :: "nat \<Rightarrow> fs \<Rightarrow> pathbuf \<Rightarrow> io_error + string list" where
  "open_target k f p =
     (case locate f p of
        Inl e \<Rightarrow> Inl e
      | Inr (d, n) \<Rightarrow>
          (case fs_lookup f (d @ [n]) of
             None \<Rightarrow> Inr (d @ [n])
           | Some (File _) \<Rightarrow> Inr (d @ [n])
           | Some Dir \<Rightarrow> Inl IsADirectory
           | Some (Symlink t) \<Rightarrow>
               (case k of
                  0 \<Rightarrow> Inl FilesystemLoop
                | Suc k' \<Rightarrow> open_target k' f (path_join (abs_path d) t))))"

declare open_target.simps [simp del]

subsection \<open>The calls\<close>

definition canonicalize :: "fs \<Rightarrow> pathbuf \<Rightarrow> io_error + pathbuf" where
  "canonicalize f p =
     (if fs_deny f Op_canonicalize p then Inl OtherError else map_sum id abs_path (resolve f p))"

definition metadata :: "fs \<Rightarrow> pathbuf \<Rightarrow> io_error + node" where
  "metadata f p =
     (if fs_deny f Op_metadata p then Inl OtherError
      else case resolve f p of
             Inl e \<Rightarrow> Inl e
           | Inr q \<Rightarrow> (case fs_lookup f q of None \<Rightarrow> Inl NotFound | Some n \<Rightarrow> Inr n))"

definition path_exists :: "fs \<Rightarrow> pathbuf \<Rightarrow> bool" where
  \<comment> \<open>\<open>try_exists(..).unwrap_or(false)\<close>, and \<open>metadata(..).is_ok()\<close>\<close>
  "path_exists f p = (case metadata f p of Inr _ \<Rightarrow> True | Inl _ \<Rightarrow> False)"

definition file_create :: "fs \<Rightarrow> pathbuf \<Rightarrow> (io_error + string list) \<times> fs" where
  "file_create f p =
     (if fs_deny f Op_create p then (Inl OtherError, f)
      else case open_target 40 f p of
             Inl e \<Rightarrow> (Inl e, f)
           | Inr q \<Rightarrow> (Inr q, fs_set q (File []) f))"

definition file_create_new :: "fs \<Rightarrow> pathbuf \<Rightarrow> (io_error + unit) \<times> fs" where
  "file_create_new f p =
     (if fs_deny f Op_create_new p then (Inl OtherError, f)
      else case locate f p of
             Inl e \<Rightarrow> (Inl e, f)
           | Inr (d, n) \<Rightarrow>
               (case fs_lookup f (d @ [n]) of
                  Some _ \<Rightarrow> (Inl AlreadyExists, f)
                | None \<Rightarrow> (Inr (), fs_set (d @ [n]) (File []) f)))"

definition create_dir :: "fs \<Rightarrow> pathbuf \<Rightarrow> (io_error + unit) \<times> fs" where
  "create_dir f p =
     (if fs_deny f Op_create_dir p then (Inl OtherError, f)
      else case locate f p of
             Inl e \<Rightarrow> (Inl e, f)
           | Inr (d, n) \<Rightarrow>
               (case fs_lookup f (d @ [n]) of
                  Some _ \<Rightarrow> (Inl AlreadyExists, f)
                | None \<Rightarrow> (Inr (), fs_set (d @ [n]) Dir f)))"

definition remove_file :: "fs \<Rightarrow> pathbuf \<Rightarrow> (io_error + unit) \<times> fs" where
  "remove_file f p =
     (if fs_deny f Op_remove_file p then (Inl OtherError, f)
      else case locate f p of
             Inl e \<Rightarrow> (Inl e, f)
           | Inr (d, n) \<Rightarrow>
               (case fs_lookup f (d @ [n]) of
                  None \<Rightarrow> (Inl NotFound, f)
                | Some Dir \<Rightarrow> (Inl IsADirectory, f)
                | Some _ \<Rightarrow> (Inr (), fs_remove (d @ [n]) f)))"

definition remove_dir_all :: "fs \<Rightarrow> pathbuf \<Rightarrow> (io_error + unit) \<times> fs" where
  "remove_dir_all f p =
     (if fs_deny f Op_remove_dir_all p then (Inl OtherError, f)
      else case locate f p of
             Inl e \<Rightarrow> (Inl e, f)
           | Inr (d, n) \<Rightarrow>
               (case fs_lookup f (d @ [n]) of
                  None \<Rightarrow> (Inl NotFound, f)
                | Some (File _) \<Rightarrow> (Inl NotADirectory, f)
                | Some _ \<Rightarrow> (Inr (), fs_remove (d @ [n]) f)))"

definition copy_content :: "fs \<Rightarrow> pathbuf \<Rightarrow> pathbuf \<Rightarrow> (io_error + unit) \<times> fs" where
  \<comment> \<open>\<open>std::fs::copy\<close>: the source is opened, then the destination is opened and truncated\<close>
  "copy_content f src dst =
     (if fs_deny f Op_copy dst then (Inl OtherError, f)
      else case resolve f src of
             Inl e \<Rightarrow> (Inl e, f)
           | Inr s \<Rightarrow>
               (case fs_lookup f s of
                  Some (File c) \<Rightarrow>
                    (case open_target 40 f dst of
                       Inl e \<Rightarrow> (Inl e, f)
                     | Inr q \<Rightarrow> (Inr (), fs_set q (File (if q = s then [] else c)) f))
                | _ \<Rightarrow> (Inl InvalidInput, f)))"

definition move_key :: "string list \<Rightarrow> string list \<Rightarrow> string list \<Rightarrow> string list" where
  "move_key s d q = (if prefix s q then d @ drop (length s) q else q)"

definition fs_move :: "string list \<Rightarrow> string list \<Rightarrow> fs \<Rightarrow> fs" where
  "fs_move s d f = f\<lparr>fs_nodes := map (\<lambda>(q, n). (move_key s d q, n)) (fs_nodes f)\<rparr>"

definition rename :: "fs \<Rightarrow> pathbuf \<Rightarrow> pathbuf \<Rightarrow> (io_error + unit) \<times> fs" where
  "rename f src dst =
     (if fs_deny f Op_rename src then (Inl OtherError, f)
      else case (locate f src, locate f dst) of
             (Inr (sd, sn), Inr (dd, dn)) \<Rightarrow>
               (let s = sd @ [sn]; d = dd @ [dn]
                in case fs_lookup f s of
                     None \<Rightarrow> (Inl NotFound, f)
                   | Some Dir \<Rightarrow>
                       if s = d then (Inr (), f)
                       else if prefix s d then (Inl InvalidInput, f)
                       else (case fs_lookup f d of
                               None \<Rightarrow> (Inr (), fs_move s d f)
                             | Some Dir \<Rightarrow>
                                 if \<exists>(q, n)\<in>set (fs_nodes f). strict_prefix d q
                                 then (Inl DirectoryNotEmpty, f)
                                 else (Inr (), fs_move s d (fs_remove d f))
                             | Some _ \<Rightarrow> (Inl NotADirectory, f))
                   | Some _ \<Rightarrow>
                       if s = d then (Inr (), f)
                       else (case fs_lookup f d of
                               Some Dir \<Rightarrow> (Inl IsADirectory, f)
                             | _ \<Rightarrow> (Inr (), fs_move s d (fs_remove d f))))
           | (Inl e, _) \<Rightarrow> (Inl e, f)
           | (_, Inl e) \<Rightarrow> (Inl e, f))"

text \<open>The entries of a directory with the type of each, links not followed.\<close>

definition children :: "fs \<Rightarrow> string list \<Rightarrow> (string \<times> node) list" where
  "children f q =
     map (\<lambda>(p, n). (last p, n)) (filter (\<lambda>(p, n). p \<noteq> [] \<and> butlast p = q) (fs_nodes f))"

definition read_dir :: "fs \<Rightarrow> pathbuf \<Rightarrow> io_error + (string \<times> node) list" where
  "read_dir f p =
     (if fs_deny f Op_read_dir p then Inl OtherError
      else case resolve f p of
             Inl e \<Rightarrow> Inl e
           | Inr q \<Rightarrow> if fs_lookup f q = Some Dir then Inr (children f q) else Inl NotADirectory)"

subsection \<open>Well-formed trees\<close>

lemma fs_lookup_Nil [simp]: "fs_lookup f [] = Some Dir"
  by (simp add: fs_lookup_def)

lemma fs_lookup_set:
  "p \<noteq> [] \<Longrightarrow> fs_lookup (fs_set p n f) q = (if q = p then Some n else fs_lookup f q)"
  by (simp add: fs_lookup_def fs_set_def hm_simps)

lemma map_of_filter_key:
  "map_of (filter (\<lambda>(q, _). P q) m) k = (if P k then map_of m k else None)"
  by (induction m) auto

lemma fs_lookup_remove:
  "p \<noteq> [] \<Longrightarrow> fs_lookup (fs_remove p f) q = (if prefix p q then None else fs_lookup f q)"
  by (auto simp: fs_lookup_def fs_remove_def map_of_filter_key)

lemma fs_frame [simp]:
  "fs_cwd (fs_set p n f) = fs_cwd f" "fs_deny (fs_set p n f) = fs_deny f"
  "fs_cwd (fs_remove p f) = fs_cwd f" "fs_deny (fs_remove p f) = fs_deny f"
  by (simp_all add: fs_set_def fs_remove_def)

lemma fs_wf_lookup:
  assumes "fs_wf f" "fs_lookup f p = Some n"
  shows "\<forall>w\<in>set p. valid_name w" and "p \<noteq> [] \<Longrightarrow> fs_lookup f (butlast p) = Some Dir"
proof -
  have "p = [] \<or> (p, n) \<in> set (fs_nodes f)"
    using assms(2) by (auto simp: fs_lookup_def map_of_SomeD split: if_splits)
  then show "\<forall>w\<in>set p. valid_name w" and "p \<noteq> [] \<Longrightarrow> fs_lookup f (butlast p) = Some Dir"
    using assms(1) unfolding fs_wf_def by auto
qed

lemma fs_wf_prefix_dir:
  assumes "fs_wf f" "fs_lookup f (p @ q) = Some n" "q \<noteq> []"
  shows "fs_lookup f p = Some Dir"
  using assms(2,3)
proof (induction q arbitrary: n rule: rev_induct)
  case Nil
  then show ?case by simp
next
  case (snoc w q)
  have d: "fs_lookup f (p @ q) = Some Dir"
    using fs_wf_lookup(2) [OF assms(1) snoc.prems(1)] by (simp add: butlast_append)
  show ?case using snoc.IH [OF d] d by (cases "q = []") auto
qed

lemma fs_wf_missing:
  assumes "fs_wf f" "fs_lookup f p = None" "prefix p q"
  shows "fs_lookup f q = None"
proof (rule ccontr)
  obtain r where r: "q = p @ r" using assms(3) by (auto elim: prefixE)
  assume "fs_lookup f q \<noteq> None"
  then obtain n where "fs_lookup f (p @ r) = Some n" using r by auto
  with fs_wf_prefix_dir [OF assms(1) this] assms(2) show False
    by (cases "r = []") auto
qed

lemma fs_wfI:
  assumes "hm_inv (fs_nodes f)"
    and "\<And>p n. p \<noteq> [] \<Longrightarrow> fs_lookup f p = Some n \<Longrightarrow>
          (\<forall>w\<in>set p. valid_name w) \<and> fs_lookup f (butlast p) = Some Dir"
    and "[] \<notin> fst ` set (fs_nodes f)"
  shows "fs_wf f"
  unfolding fs_wf_def
proof (intro conjI ballI, simp_all add: assms(1), clarify)
  fix p n assume "(p, n) \<in> set (fs_nodes f)"
  moreover from this have "p \<noteq> []" using assms(3) by force
  ultimately show "p \<noteq> [] \<and> (\<forall>w\<in>set p. valid_name w) \<and> fs_lookup f (butlast p) = Some Dir"
    using assms(1) assms(2) [of p n] by (simp add: fs_lookup_def hm_in_set)
qed

lemma fs_wfD:
  assumes "fs_wf f"
  shows "hm_inv (fs_nodes f)" "[] \<notin> fst ` set (fs_nodes f)"
  using assms unfolding fs_wf_def by auto

lemma fs_wf_set:
  assumes "fs_wf f" "fs_lookup f d = Some Dir" "valid_name w"
    and "fs_lookup f (d @ [w]) = Some Dir \<Longrightarrow> n = Dir"
  shows "fs_wf (fs_set (d @ [w]) n f)"
proof (rule fs_wfI)
  show "hm_inv (fs_nodes (fs_set (d @ [w]) n f))"
    using fs_wfD(1) [OF assms(1)] by (simp add: fs_set_def hm_simps)
  show "[] \<notin> fst ` set (fs_nodes (fs_set (d @ [w]) n f))"
    using fs_wfD(2) [OF assms(1)] by (simp add: fs_set_def dom_update)
next
  fix p m assume p: "p \<noteq> []" and l: "fs_lookup (fs_set (d @ [w]) n f) p = Some m"
  have d: "fs_lookup (fs_set (d @ [w]) n f) d = Some Dir"
    using assms(2) by (simp add: fs_lookup_set)
  show "(\<forall>v\<in>set p. valid_name v) \<and> fs_lookup (fs_set (d @ [w]) n f) (butlast p) = Some Dir"
  proof (cases "p = d @ [w]")
    case True
    with d assms(3) fs_wf_lookup(1) [OF assms(1,2)] show ?thesis by auto
  next
    case False
    with l have l': "fs_lookup f p = Some m" by (simp add: fs_lookup_set)
    with fs_wf_lookup [OF assms(1) l'] p assms(4) show ?thesis
      by (auto simp: fs_lookup_set)
  qed
qed

lemma fs_wf_remove:
  assumes "fs_wf f" "p \<noteq> []"
  shows "fs_wf (fs_remove p f)"
proof (rule fs_wfI)
  show "hm_inv (fs_nodes (fs_remove p f))"
    using fs_wfD(1) [OF assms(1)] by (simp add: fs_remove_def hm_simps)
  show "[] \<notin> fst ` set (fs_nodes (fs_remove p f))"
    using fs_wfD(2) [OF assms(1)] by (auto simp: fs_remove_def)
next
  fix q n assume q: "q \<noteq> []" and l: "fs_lookup (fs_remove p f) q = Some n"
  then have l': "fs_lookup f q = Some n" and np: "\<not> prefix p q"
    using assms(2) by (auto simp: fs_lookup_remove split: if_splits)
  have "\<not> prefix p (butlast q)"
    using np by (metis append_butlast_last_id prefix_append prefix_order.trans prefixI q)
  with l' fs_wf_lookup [OF assms(1) l'] q assms(2)
  show "(\<forall>w\<in>set q. valid_name w) \<and> fs_lookup (fs_remove p f) (butlast q) = Some Dir"
    by (auto simp: fs_lookup_remove)
qed

subsection \<open>Resolution of canonical paths\<close>

lemma walk_existing:
  assumes "fs_wf f"
  shows "fs_lookup f (cur @ ns) = Some n \<Longrightarrow> (\<forall>t. n \<noteq> Symlink t) \<Longrightarrow> walk f k cur ns = Inr (cur @ ns)"
proof (induction ns arbitrary: cur)
  case Nil
  then show ?case by simp
next
  case (Cons w ns)
  have v: "valid_name w" using fs_wf_lookup(1) [OF assms Cons.prems(1)] by simp
  have cur: "fs_lookup f cur = Some Dir"
    using fs_wf_prefix_dir [OF assms Cons.prems(1)] by simp
  have "fs_lookup f (cur @ [w]) = (if ns = [] then Some n else Some Dir)"
    using fs_wf_prefix_dir [OF assms, of "cur @ [w]" ns n] Cons.prems(1) by auto
  then show ?case
    using cur v Cons.IH [of "cur @ [w]"] Cons.prems
    by (cases n) (auto simp: valid_name_def safe_name_def split: if_splits)
qed

lemma resolve_abs_path:
  assumes "fs_wf f" "fs_lookup f p = Some n" "\<forall>t. n \<noteq> Symlink t"
  shows "resolve f (abs_path p) = Inr p"
proof -
  have v: "\<forall>w\<in>set p. valid_name w" by (rule fs_wf_lookup(1) [OF assms(1,2)])
  then have "abs_path p \<noteq> []" "CHR 0x00 \<notin> set (abs_path p)"
    by (cases p; auto simp: abs_path_def valid_name_def safe_name_def)+
  moreover have "walk f 40 [] p = Inr p"
    using walk_existing [OF assms(1), of "[]" p] assms(2,3) by simp
  ultimately show ?thesis
    by (simp add: resolve_def split_abs_path [OF valid_safe_list [OF v]] start_dir_def)
qed

text \<open>A resolved path is the place of a directory or a file that exists.\<close>

definition real_node :: "fs \<Rightarrow> string list \<Rightarrow> bool" where
  "real_node f p \<longleftrightarrow> (case fs_lookup f p of Some Dir \<Rightarrow> True | Some (File _) \<Rightarrow> True | _ \<Rightarrow> False)"

lemma real_node_Nil [simp]: "real_node f []"
  by (simp add: real_node_def)

lemma walk_real:
  "walk f k cur ss = Inr q \<Longrightarrow> fs_wf f \<Longrightarrow> real_node f cur \<Longrightarrow> real_node f q"
proof (induction f k cur ss arbitrary: q rule: walk.induct)
  case (1 f k cur)
  then show ?case by simp
next
  case (2 f k cur s ss)
  have dir: "fs_lookup f cur = Some Dir"
    using "2.prems"(1) by (simp split: if_splits)
  then have up: "real_node f (butlast cur)"
    using fs_wf_lookup(2) [OF "2.prems"(2) dir] by (cases "cur = []") (simp_all add: real_node_def)
  consider (skip) "s = [] \<or> s = ''.''" | (up) "s = ''..''"
    | (name) "\<not> (s = [] \<or> s = ''.'')" "s \<noteq> ''..''" by blast
  then show ?case
  proof cases
    case skip
    with "2.IH"(1) "2.prems" dir show ?thesis by simp
  next
    case up
    with "2.IH"(2) "2.prems" dir \<open>real_node f (butlast cur)\<close> show ?thesis by simp
  next
    case name
    show ?thesis
    proof (cases "fs_lookup f (cur @ [s])")
      case None
      with name dir "2.prems"(1) show ?thesis by simp
    next
      case (Some n)
      then show ?thesis
      proof (cases n)
        case (Symlink t)
        with Some name dir "2.prems" "2.IH"(3-5) show ?thesis
          by (cases k) (auto split: if_splits)
      qed (use Some name dir "2.prems" "2.IH"(3-5) in \<open>auto simp: real_node_def\<close>)
    qed
  qed
qed

subsection \<open>Every call keeps the tree well formed\<close>

lemma fs_move_frame [simp]:
  "fs_cwd (fs_move s d f) = fs_cwd f" "fs_deny (fs_move s d f) = fs_deny f"
  by (simp_all add: fs_move_def)

lemma locate_facts:
  assumes "locate f p = Inr (d, n)"
  shows "fs_lookup f d = Some Dir" and "valid_name n"
  using assms by (auto simp: locate_def Let_def split: if_splits sum.splits)

lemma open_target_facts:
  "open_target k f p = Inr q \<Longrightarrow>
     \<exists>d n. q = d @ [n] \<and> fs_lookup f d = Some Dir \<and> valid_name n \<and>
           (\<forall>m. fs_lookup f q = Some m \<longrightarrow> (\<exists>c. m = File c))"
proof (induction k f p rule: open_target.induct)
  case (1 k f p)
  show ?case
  proof (cases "locate f p")
    case (Inl e)
    with "1.prems" show ?thesis by (simp add: open_target.simps)
  next
    case (Inr dn)
    obtain d n where dn: "dn = (d, n)" by (cases dn)
    with Inr locate_facts have l: "fs_lookup f d = Some Dir" "valid_name n" by auto
    show ?thesis
    proof (cases "fs_lookup f (d @ [n])")
      case None
      with Inr dn l "1.prems" show ?thesis by (auto simp: open_target.simps)
    next
      case (Some m)
      show ?thesis
      proof (cases m)
        case (Symlink t)
        with Inr dn Some "1.prems" "1.IH" show ?thesis
          by (cases k) (simp_all add: open_target.simps)
      qed (use Inr dn Some l "1.prems" in \<open>auto simp: open_target.simps\<close>)
    qed
  qed
qed

lemma fs_wf_move:
  assumes wf: "fs_wf f" and d: "d = dd @ [dn]" "fs_lookup f dd = Some Dir" "valid_name dn"
    and free: "\<And>q. prefix d q \<Longrightarrow> fs_lookup f q = None"
    and s: "s \<noteq> []" "\<not> prefix s d"
  shows "fs_wf (fs_move s d f)"
proof -
  have keys: "(q, n) \<in> set (fs_nodes f) \<Longrightarrow> \<not> prefix d q" for q n
    using free [of q] fs_wfD [OF wf] by (force simp: fs_lookup_def hm_in_set split: if_splits)
  have inj: "inj_on (move_key s d) (fst ` set (fs_nodes f))"
  proof (rule inj_onI)
    fix p q assume pq: "p \<in> fst ` set (fs_nodes f)" "q \<in> fst ` set (fs_nodes f)"
      and eq: "move_key s d p = move_key s d q"
    from pq keys have "\<not> prefix d p" "\<not> prefix d q" by auto
    with eq show "p = q"
      by (auto simp: move_key_def prefix_def split: if_splits)
  qed
  have inv: "hm_inv (fs_nodes (fs_move s d f))"
    using fs_wfD(1) [OF wf] inj
    by (simp add: hm_inv_def fs_move_def comp_def case_prod_beta' distinct_map inj_on_def)
  have lookup: "fs_lookup (fs_move s d f) q = Some n" if "fs_lookup f p = Some n" "p \<noteq> []"
    "q = move_key s d p" for p q n
  proof -
    have "(p, n) \<in> set (fs_nodes f)" using that(1,2) by (simp add: fs_lookup_def map_of_SomeD)
    then have "(q, n) \<in> set (fs_nodes (fs_move s d f))"
      using that(3) by (force simp: fs_move_def)
    moreover have "q \<noteq> []" using that(2,3) d(1) by (auto simp: move_key_def)
    ultimately show ?thesis using inv by (simp add: fs_lookup_def hm_in_set)
  qed
  have ddm: "fs_lookup (fs_move s d f) dd = Some Dir"
  proof (cases "dd = []")
    case False
    have "\<not> prefix s dd" using s(2) d(1) by (auto simp: prefix_def)
    with lookup [OF d(2) False] show ?thesis by (simp add: move_key_def)
  qed simp
  show ?thesis
    unfolding fs_wf_def
  proof (intro conjI inv ballI, clarify, intro conjI)
    fix q n assume "(q, n) \<in> set (fs_nodes (fs_move s d f))"
    then obtain p where p: "(p, n) \<in> set (fs_nodes f)" and q: "q = move_key s d p"
      by (auto simp: fs_move_def)
    have p0: "p \<noteq> []" using p fs_wfD(2) [OF wf] by force
    have lp: "p \<noteq> []" "fs_lookup f p = Some n"
      using p p0 fs_wfD(1) [OF wf] by (simp_all add: fs_lookup_def hm_in_set)
    then show "q \<noteq> []" using q d(1) by (auto simp: move_key_def)
    have "\<forall>w\<in>set p. valid_name w" "\<forall>w\<in>set dd. valid_name w"
      using fs_wf_lookup(1) [OF wf] lp(2) d(2) by blast+
    then show "\<forall>w\<in>set q. valid_name w"
      using q d by (auto simp: move_key_def dest: in_set_dropD)
    show "fs_lookup (fs_move s d f) (butlast q) = Some Dir"
    proof (cases "p = s")
      case True
      with q d ddm show ?thesis by (simp add: move_key_def butlast_append)
    next
      case False
      have bp: "fs_lookup f (butlast p) = Some Dir" by (rule fs_wf_lookup(2) [OF wf lp(2,1)])
      have bq: "butlast q = move_key s d (butlast p)"
      proof (cases "prefix s p")
        case True
        then obtain r where r: "p = s @ r" by (auto elim: prefixE)
        with False have "r \<noteq> []" by simp
        with r q show ?thesis by (simp add: move_key_def butlast_append)
      next
        case np: False
        then have "\<not> prefix s (butlast p)"
          using lp(1) by (metis append_butlast_last_id prefix_prefix)
        with np q show ?thesis by (simp add: move_key_def)
      qed
      show ?thesis
      proof (cases "butlast p = []")
        case True
        with s(1) have "butlast q = []" using bq by (simp add: move_key_def)
        then show ?thesis by simp
      qed (use lookup [OF bp] bq in simp)
    qed
  qed
qed

lemma file_create_wf: "fs_wf f \<Longrightarrow> file_create f p = (r, f') \<Longrightarrow> fs_wf f'"
  using open_target_facts [of 40 f p]
  by (auto simp: file_create_def split: if_splits sum.splits intro!: fs_wf_set)

lemma file_create_new_wf: "fs_wf f \<Longrightarrow> file_create_new f p = (r, f') \<Longrightarrow> fs_wf f'"
  using locate_facts [of f p]
  by (auto simp: file_create_new_def split: if_splits sum.splits option.splits intro!: fs_wf_set)

lemma create_dir_wf: "fs_wf f \<Longrightarrow> create_dir f p = (r, f') \<Longrightarrow> fs_wf f'"
  using locate_facts [of f p]
  by (auto simp: create_dir_def split: if_splits sum.splits option.splits intro!: fs_wf_set)

lemma remove_file_wf: "fs_wf f \<Longrightarrow> remove_file f p = (r, f') \<Longrightarrow> fs_wf f'"
  by (auto simp: remove_file_def fs_wf_remove
      split: if_splits sum.splits option.splits node.splits)

lemma remove_dir_all_wf: "fs_wf f \<Longrightarrow> remove_dir_all f p = (r, f') \<Longrightarrow> fs_wf f'"
  by (auto simp: remove_dir_all_def fs_wf_remove
      split: if_splits sum.splits option.splits node.splits)

lemma copy_content_wf: "fs_wf f \<Longrightarrow> copy_content f p q = (r, f') \<Longrightarrow> fs_wf f'"
  using open_target_facts [of 40 f q]
  by (auto simp: copy_content_def split: if_splits sum.splits option.splits node.splits
      intro!: fs_wf_set)

lemma no_children:
  assumes "fs_wf f" "d \<noteq> []" "fs_lookup f d = Some n"
    and "n \<noteq> Dir \<or> (\<forall>(q, n)\<in>set (fs_nodes f). \<not> strict_prefix d q)"
    and "fs_lookup f q = Some m" "prefix d q"
  shows "q = d"
proof (rule ccontr)
  assume "q \<noteq> d"
  with assms(6) obtain r where r: "q = d @ r" "r \<noteq> []" by (auto elim: prefixE)
  have "fs_lookup f d = Some Dir" using fs_wf_prefix_dir [OF assms(1) _ r(2)] assms(5) r(1) by blast
  with assms(3,4) have nc: "\<forall>(q, n)\<in>set (fs_nodes f). \<not> strict_prefix d q" by auto
  have "(q, m) \<in> set (fs_nodes f)"
    using assms(2,5) r by (simp add: fs_lookup_def map_of_SomeD)
  moreover have "strict_prefix d q" using assms(6) \<open>q \<noteq> d\<close> by auto
  ultimately show False using nc by auto
qed

lemma rename_move_wf:
  assumes wf: "fs_wf f" and s: "fs_lookup f s = Some n" "s \<noteq> []" "s \<noteq> dd @ [dn]"
    and d: "fs_lookup f dd = Some Dir" "valid_name dn"
    and np: "\<not> prefix s (dd @ [dn])"
    and free: "\<And>q m. fs_lookup f q = Some m \<Longrightarrow> prefix (dd @ [dn]) q \<Longrightarrow> q = dd @ [dn]"
  shows "fs_wf (fs_move s (dd @ [dn]) (fs_remove (dd @ [dn]) f))"
proof (rule fs_wf_move [OF fs_wf_remove refl])
  show "fs_wf f" "dd @ [dn] \<noteq> []" by (simp_all add: wf)
  show "fs_lookup (fs_remove (dd @ [dn]) f) dd = Some Dir"
    using d(1) by (simp add: fs_lookup_remove)
  show "fs_lookup (fs_remove (dd @ [dn]) f) q = None" if "prefix (dd @ [dn]) q" for q
    using that by (simp add: fs_lookup_remove)
qed (use d s np in simp_all)

lemma rename_wf:
  assumes "fs_wf f" "rename f p q = (r, f')"
  shows "fs_wf f'"
proof (cases "f' = f")
  case False
  then obtain sd sn dd dn n where
    l: "locate f p = Inr (sd, sn)" "locate f q = Inr (dd, dn)"
    and n: "fs_lookup f (sd @ [sn]) = Some n" and ne: "sd @ [sn] \<noteq> dd @ [dn]"
    using assms(2) by (auto simp: rename_def Let_def split: if_splits sum.splits option.splits node.splits)
  note d = locate_facts [OF l(2)]
  have np: "\<not> prefix (sd @ [sn]) (dd @ [dn])"
  proof (cases n)
    case Dir
    with assms(2) False l n ne show ?thesis by (auto simp: rename_def Let_def split: if_splits)
  next
    case (File c)
    show ?thesis
    proof
      assume "prefix (sd @ [sn]) (dd @ [dn])"
      with ne have "prefix (sd @ [sn]) dd" by (auto simp: prefix_snoc)
      then obtain u where u: "dd = (sd @ [sn]) @ u" by (auto elim: prefixE)
      with n File d(1) have "u \<noteq> []" by auto
      with fs_wf_prefix_dir [OF assms(1), of "sd @ [sn]" u Dir] u d(1) n File show False by simp
    qed
  next
    case (Symlink c)
    show ?thesis
    proof
      assume "prefix (sd @ [sn]) (dd @ [dn])"
      with ne have "prefix (sd @ [sn]) dd" by (auto simp: prefix_snoc)
      then obtain u where u: "dd = (sd @ [sn]) @ u" by (auto elim: prefixE)
      with n Symlink d(1) have "u \<noteq> []" by auto
      with fs_wf_prefix_dir [OF assms(1), of "sd @ [sn]" u Dir] u d(1) n Symlink show False by simp
    qed
  qed
  have f': "f' = fs_move (sd @ [sn]) (dd @ [dn]) (fs_remove (dd @ [dn]) f) \<or>
      (f' = fs_move (sd @ [sn]) (dd @ [dn]) f \<and> fs_lookup f (dd @ [dn]) = None)"
    and emp: "\<And>m. fs_lookup f (dd @ [dn]) = Some m \<Longrightarrow>
       m \<noteq> Dir \<or> (\<forall>(q, n)\<in>set (fs_nodes f). \<not> strict_prefix (dd @ [dn]) q)"
    using assms(2) False l n ne
    by (auto simp: rename_def Let_def split: if_splits option.splits node.splits)
  have free: "q = dd @ [dn]" if "fs_lookup f q = Some m" "prefix (dd @ [dn]) q" for q m
  proof (cases "fs_lookup f (dd @ [dn])")
    case None
    with fs_wf_missing [OF assms(1) None that(2)] that(1) show ?thesis by simp
  next
    case (Some k)
    show ?thesis by (rule no_children [OF assms(1) _ Some emp [OF Some] that]) simp
  qed
  from f' show ?thesis
  proof
    assume "f' = fs_move (sd @ [sn]) (dd @ [dn]) (fs_remove (dd @ [dn]) f)"
    with rename_move_wf [OF assms(1) n _ ne d np free] show ?thesis by simp
  next
    assume "f' = fs_move (sd @ [sn]) (dd @ [dn]) f \<and> fs_lookup f (dd @ [dn]) = None"
    moreover from this have "fs_lookup f q = None" if "prefix (dd @ [dn]) q" for q
      using fs_wf_missing [OF assms(1) _ that] by simp
    ultimately show ?thesis
      using fs_wf_move [OF assms(1) refl d, of "sd @ [sn]"] np by simp
  qed
qed (use assms(1) in simp)

lemmas fs_ops_wf =
  file_create_wf file_create_new_wf create_dir_wf remove_file_wf remove_dir_all_wf
  copy_content_wf rename_wf

subsection \<open>A small tree for the examples\<close>

definition demo_fs :: fs where
  "demo_fs =
     \<lparr>fs_nodes =
        [([''srv''], Dir), ([''srv'', ''a''], Dir), ([''srv'', ''a'', ''f''], File ''data''),
         ([''srv'', ''up''], Symlink ''..''), ([''etc''], Dir)],
      fs_cwd = [], fs_deny = (\<lambda>_ _. False)\<rparr>"

lemma demo_fs_wf [simp]: "fs_wf demo_fs"
  by (simp add: fs_wf_def demo_fs_def fs_lookup_def valid_name_def safe_name_def)

lemma demo_fs_cwd [simp]: "real_node demo_fs (fs_cwd demo_fs)"
  by (simp add: demo_fs_def)

end
