(* ===== verification/Paths.thy ===== *)
theory Paths
  imports Fs_Model
begin

section \<open>Path resolution and traversal guards (src/utils/path.rs)\<close>

text \<open>
  The three functions that turn the path of a request into a path of the file system. \<open>pct\<close> is
  \<open>percent_decode_str(..).decode_utf8_lossy()\<close>, code of another package. The canonical cache is a
  hash map from the parent directory to its canonical path; its keys are compared as \<open>Path\<close>s, and
  \<^const>\<open>path_parent\<close> gives every such path the same bytes. \<open>Panicked\<close> is the panic of
  \<open>file_name().unwrap()\<close>, kept as a value so that a property can say that it never happens.
\<close>

datatype resolve_target_error =
    InvalidPath
  | ParentCanonicalizeFailed io_error
  | TraversalBlocked
  | Panicked

fun resolve_status :: "resolve_target_error \<Rightarrow> status \<Rightarrow> status" where
  "resolve_status InvalidPath on_invalid = on_invalid"
| "resolve_status (ParentCanonicalizeFailed _) on_invalid = CONFLICT"
| "resolve_status TraversalBlocked on_invalid = FORBIDDEN"
| "resolve_status Panicked on_invalid = NO_RESPONSE"

definition or_invalid :: "resolve_target_error + 'a \<Rightarrow> status \<Rightarrow> 'a app_result" where
  "or_invalid r on_invalid = (case r of Inl e \<Rightarrow> Inl (resolve_status e on_invalid) | Inr a \<Rightarrow> Inr a)"

definition resolve_existing ::
  "(string \<Rightarrow> string) \<Rightarrow> fs \<Rightarrow> pathbuf \<Rightarrow> pathbuf \<Rightarrow> string \<Rightarrow> pathbuf option" where
  "resolve_existing pct f root_dir root_canonical request_path =
     (let fs_path = path_join root_dir (trim_start_matches sep (pct request_path))
      in case canonicalize f fs_path of
           Inl _ \<Rightarrow> None
         | Inr p \<Rightarrow> if \<not> path_starts_with p root_canonical then None else Some p)"

definition resolve_write_target :: "(string \<Rightarrow> string) \<Rightarrow> pathbuf \<Rightarrow> string \<Rightarrow> pathbuf option" where
  "resolve_write_target pct root_dir request_path =
     (let trimmed = trim_start_matches sep (pct request_path)
      in if trimmed = [] \<or> ends_with trimmed ''/'' then None
         else if list_ex (\<lambda>segment. segment = ''..'' \<or> segment = ''.'') (split_on sep trimmed) then None
         else Some (path_join root_dir trimmed))"

type_synonym canonical_cache = "(pathbuf \<times> pathbuf) list"

definition parent_canonical ::
  "fs \<Rightarrow> pathbuf \<Rightarrow> canonical_cache \<Rightarrow> (resolve_target_error + pathbuf) \<times> canonical_cache" where
  "parent_canonical f parent cache =
     (case map_of cache parent of
        Some cached \<Rightarrow> (Inr cached, cache)
      | None \<Rightarrow>
          (case canonicalize f parent of
             Inl e \<Rightarrow> (Inl (ParentCanonicalizeFailed e), cache)
           | Inr pc \<Rightarrow> (Inr pc, AList.update parent pc cache)))"

definition resolve_and_guard ::
  "(string \<Rightarrow> string) \<Rightarrow> fs \<Rightarrow> pathbuf \<Rightarrow> pathbuf \<Rightarrow> string \<Rightarrow> canonical_cache \<Rightarrow>
     (resolve_target_error + pathbuf) \<times> canonical_cache" where
  "resolve_and_guard pct f root_dir root_canonical request_path cache =
     (case resolve_write_target pct root_dir request_path of
        None \<Rightarrow> (Inl InvalidPath, cache)
      | Some fs_path \<Rightarrow>
          (let parent = (case path_parent fs_path of Some p \<Rightarrow> p | None \<Rightarrow> root_dir)
           in case parent_canonical f parent cache of
                (Inl e, cache') \<Rightarrow> (Inl e, cache')
              | (Inr pc, cache') \<Rightarrow>
                  if \<not> path_starts_with pc root_canonical then (Inl TraversalBlocked, cache')
                  else (case path_file_name fs_path of
                          None \<Rightarrow> (Inl Panicked, cache')
                        | Some n \<Rightarrow> (Inr (path_join pc n), cache'))))"

lemma or_invalid_simps [simp]:
  "or_invalid (Inl e) s = Inl (resolve_status e s)" "or_invalid (Inr a) s = Inr a"
  by (simp_all add: or_invalid_def)

subsection \<open>The file name of a write target\<close>

lemma split_on_append_sep: "split_on c (s @ c # t) = split_on c s @ split_on c t"
proof (induction s)
  case Nil
  then show ?case by simp
next
  case (Cons x s)
  then show ?case by (cases "split_on c s") auto
qed

lemma last_split_join: "last (split_on sep (path_join p q)) = last (split_on sep q)"
proof (cases "starts_with q ''/''")
  case False
  show ?thesis
  proof (cases "p = []")
    case False
    show ?thesis
    proof (cases "last p = sep")
      case True
      with False have p: "p = butlast p @ [sep]" by (metis append_butlast_last_id)
      have "split_on sep (p @ q) = split_on sep (butlast p) @ split_on sep q"
        using split_on_append_sep [of sep "butlast p" q] p by (metis append.assoc append_Cons append_Nil)
      with True \<open>\<not> starts_with q ''/''\<close> show ?thesis by (simp add: path_join_def)
    next
      case np: False
      with False \<open>\<not> starts_with q ''/''\<close> show ?thesis
        using split_on_append_sep [of sep p q] by (simp add: path_join_def)
    qed
  qed (use False in \<open>simp add: path_join_def\<close>)
qed (simp add: path_join_def)

lemma map_filter_append:
  "List.map_filter g (xs @ ys) = List.map_filter g xs @ List.map_filter g ys"
  by (simp add: List.map_filter_def)

lemma components_last:
  assumes "last (split_on sep x) = w" "seg_component w = Some (Normal w)"
  obtains cs where "components x = cs @ [Normal w]"
proof -
  have "split_on sep x = butlast (split_on sep x) @ [w]"
    using assms(1) by (metis append_butlast_last_id split_on_not_Nil)
  then have "List.map_filter seg_component (split_on sep x) =
      List.map_filter seg_component (butlast (split_on sep x)) @ [Normal w]"
    using assms(2) map_filter_append [of seg_component "butlast (split_on sep x)" "[w]"]
    by (simp add: List.map_filter_def)
  then show thesis
    using that unfolding components_def Let_def by (metis append.assoc)
qed

lemma safe_name_component: "safe_name w \<Longrightarrow> seg_component w = Some (Normal w)"
  by (simp add: safe_name_def seg_component_def)

lemma ends_with_last_split:
  assumes "t \<noteq> []" "\<not> ends_with t ''/''"
  shows "last (split_on sep t) \<noteq> []"
proof
  assume e: "last (split_on sep t) = []"
  from assms(1) obtain s x where t: "t = s @ [x]" by (cases t rule: rev_cases) auto
  with assms(2) have x: "x \<noteq> sep" by (simp add: ends_with_def starts_with_def)
  have "last (split_on c (s @ [x])) \<noteq> []" if "x \<noteq> c" for c
    using that
  proof (induction s)
    case (Cons y s)
    then show ?case by (cases "split_on c (s @ [x])") auto
  qed simp
  with e t x show False by simp
qed

lemma resolve_write_target_file_name:
  assumes "resolve_write_target pct root_dir rp = Some p"
  obtains cs w where "components p = cs @ [Normal w]" "safe_name w"
    "w = last (split_on sep (trim_start_matches sep (pct rp)))"
proof -
  let ?t = "trim_start_matches sep (pct rp)"
  let ?w = "last (split_on sep ?t)"
  from assms have p: "p = path_join root_dir ?t" and t: "?t \<noteq> []" "\<not> ends_with ?t ''/''"
    and seg: "\<forall>s\<in>set (split_on sep ?t). s \<noteq> ''..'' \<and> s \<noteq> ''.''"
    by (auto simp: resolve_write_target_def Let_def list_ex_iff split: if_splits)
  have mem: "?w \<in> set (split_on sep ?t)" by simp
  then have "safe_name ?w"
    using ends_with_last_split [OF t] seg split_on_pieces [OF mem] by (auto simp: safe_name_def)
  moreover from components_last [OF _ safe_name_component [OF this], of p] obtain cs where
    "components p = cs @ [Normal ?w]"
    using p last_split_join [of root_dir ?t] by auto
  ultimately show thesis using that by blast
qed

lemma resolve_write_target_file_name_Some:
  "resolve_write_target pct root_dir rp = Some p \<Longrightarrow> \<exists>w. path_file_name p = Some w \<and> safe_name w"
  by (erule resolve_write_target_file_name) (auto simp: path_file_name_def Let_def)

subsection \<open>Containment\<close>

lemma canonicalize_real:
  assumes "fs_wf f" "real_node f (fs_cwd f)" "canonicalize f p = Inr c"
  obtains q where "c = abs_path q" "real_node f q" "\<forall>w\<in>set q. valid_name w" "resolve f p = Inr q"
proof -
  obtain q where r: "resolve f p = Inr q" and c: "c = abs_path q"
    using assms(3) by (cases "resolve f p") (auto simp: canonicalize_def split: if_splits)
  have "real_node f (start_dir f p)" using assms(2) by (simp add: start_dir_def)
  with r have q: "real_node f q"
    using walk_real [OF _ assms(1)] by (auto simp: resolve_def split: if_splits)
  then obtain n where "fs_lookup f q = Some n" by (auto simp: real_node_def split: option.splits)
  then show thesis using that [OF c q _ r] fs_wf_lookup(1) [OF assms(1)] by blast
qed

definition cache_ok :: "canonical_cache \<Rightarrow> bool" where
  "cache_ok cache \<longleftrightarrow> (\<forall>(k, v)\<in>set cache. \<exists>ns. v = abs_path ns \<and> (\<forall>w\<in>set ns. valid_name w))"

lemma cache_ok_Nil [simp]: "cache_ok []"
  by (simp add: cache_ok_def)

lemma cache_ok_update:
  assumes "cache_ok cache" "\<forall>w\<in>set ns. valid_name w"
  shows "cache_ok (AList.update k (abs_path ns) cache)"
  using assms by (induction cache) (auto simp: cache_ok_def)

lemma cache_ok_get:
  assumes "cache_ok cache" "map_of cache k = Some v"
  obtains ns where "v = abs_path ns" "\<forall>w\<in>set ns. valid_name w"
  using assms map_of_SomeD [of cache k v] unfolding cache_ok_def by blast

lemma parent_canonical_ok:
  assumes "fs_wf f" "real_node f (fs_cwd f)" "cache_ok cache"
    and "parent_canonical f parent cache = (r, cache')"
  shows "cache_ok cache'"
    and "r = Inr pc \<Longrightarrow> \<exists>ns. pc = abs_path ns \<and> (\<forall>w\<in>set ns. valid_name w)"
    and "r \<noteq> Inl Panicked" and "r \<noteq> Inl TraversalBlocked"
proof -
  have "cache_ok cache' \<and> (r = Inr pc \<longrightarrow> (\<exists>ns. pc = abs_path ns \<and> (\<forall>w\<in>set ns. valid_name w))) \<and>
        r \<noteq> Inl Panicked \<and> r \<noteq> Inl TraversalBlocked"
  proof (cases "map_of cache parent")
    case (Some v)
    with assms(3,4) cache_ok_get [OF assms(3) Some] show ?thesis
      by (auto simp: parent_canonical_def)
  next
    case None
    show ?thesis
    proof (cases "canonicalize f parent")
      case (Inl e)
      with None assms(3,4) show ?thesis by (auto simp: parent_canonical_def)
    next
      case (Inr c)
      then obtain q where "c = abs_path q" "\<forall>w\<in>set q. valid_name w"
        using canonicalize_real [OF assms(1,2)] by blast
      with Inr None assms(3,4) cache_ok_update show ?thesis
        by (auto simp: parent_canonical_def)
    qed
  qed
  then show "cache_ok cache'"
    and "r = Inr pc \<Longrightarrow> \<exists>ns. pc = abs_path ns \<and> (\<forall>w\<in>set ns. valid_name w)"
    and "r \<noteq> Inl Panicked" and "r \<noteq> Inl TraversalBlocked" by blast+
qed

text \<open>
  The place a write goes to: under the root, and below it by at least one name that is no dot
  segment, so it is never the root itself.
\<close>

definition inside :: "string list \<Rightarrow> pathbuf \<Rightarrow> bool" where
  "inside rn p \<longleftrightarrow>
     (\<exists>ns w. p = abs_path (rn @ ns @ [w]) \<and> safe_name w \<and> (\<forall>v\<in>set (rn @ ns). valid_name v))"

lemma insideE:
  assumes "inside rn p"
  obtains ns where "p = abs_path (rn @ ns)" "ns \<noteq> []" "\<forall>v\<in>set (rn @ ns). safe_name v"
proof -
  obtain ns w where "p = abs_path (rn @ ns @ [w])" "safe_name w" "\<forall>v\<in>set (rn @ ns). valid_name v"
    using assms unfolding inside_def by blast
  then show thesis using that [of "ns @ [w]"] valid_safe by auto
qed

lemma resolve_and_guard_inside:
  assumes "fs_wf f" "real_node f (fs_cwd f)" "cache_ok cache" "\<forall>w\<in>set rn. valid_name w"
    and g: "resolve_and_guard pct f rd (abs_path rn) rp cache = (r, cache')"
  shows "cache_ok cache'" and "r = Inr p \<Longrightarrow> inside rn p" and "r \<noteq> Inl Panicked"
proof -
  have "cache_ok cache' \<and> (r = Inr p \<longrightarrow> inside rn p) \<and> r \<noteq> Inl Panicked"
  proof (cases "resolve_write_target pct rd rp")
    case None
    with g assms(3) show ?thesis by (auto simp: resolve_and_guard_def)
  next
    case (Some fp)
    obtain w where w: "path_file_name fp = Some w" "safe_name w"
      using resolve_write_target_file_name_Some [OF Some] by blast
    define par where "par = (case path_parent fp of Some p \<Rightarrow> p | None \<Rightarrow> rd)"
    obtain r1 c1 where pc: "parent_canonical f par cache = (r1, c1)" by fastforce
    note ok = parent_canonical_ok [OF assms(1,2,3) pc]
    show ?thesis
    proof (cases r1)
      case (Inl e)
      with g Some pc ok(1,3) show ?thesis by (auto simp: resolve_and_guard_def par_def Let_def)
    next
      case (Inr c)
      then obtain ns where ns: "c = abs_path ns" "\<forall>w\<in>set ns. valid_name w" using ok(2) by blast
      have sw: "path_starts_with c (abs_path rn) \<longleftrightarrow> prefix rn ns"
        using starts_with_abs_paths [OF valid_safe_list [OF assms(4)] valid_safe_list [OF ns(2)]] ns(1) by simp
      show ?thesis
      proof (cases "prefix rn ns")
        case False
        with g Some pc Inr ok(1) sw show ?thesis
          by (auto simp: resolve_and_guard_def par_def Let_def)
      next
        case True
        then obtain ms where ms: "ns = rn @ ms" by (auto elim: prefixE)
        have "inside rn (path_join c w)"
          unfolding inside_def
          using join_abs_path [OF w(2) valid_safe_list [OF ns(2)]] ns ms w(2) by auto
        with g Some pc Inr ok(1) sw True w(1) show ?thesis
          by (auto simp: resolve_and_guard_def par_def Let_def)
      qed
    qed
  qed
  then show "cache_ok cache'" and "r = Inr p \<Longrightarrow> inside rn p" and "r \<noteq> Inl Panicked" by blast+
qed

text \<open>
  What a read resolves to lies under the root and exists there: when the root's canonical
  path is \<open>abs_path rn\<close>, a path that \<^const>\<open>resolve_existing\<close> returns is the canonical path of a
  directory or file of the tree whose names start with \<open>rn\<close>. Percent-encoded dots, \<open>..\<close> segments
  and symbolic links that lead out of the root therefore give no path.
\<close>

theorem resolve_existing_contained:
  assumes "fs_wf f" "real_node f (fs_cwd f)" "\<forall>w\<in>set rn. valid_name w"
    and "resolve_existing pct f rd (abs_path rn) rp = Some p"
  shows "\<exists>ns. p = abs_path (rn @ ns) \<and> real_node f (rn @ ns) \<and> (\<forall>w\<in>set ns. valid_name w)"
proof -
  from assms(4) have c: "canonicalize f (path_join rd (trim_start_matches sep (pct rp))) = Inr p"
    and sw: "path_starts_with p (abs_path rn)"
    by (auto simp: resolve_existing_def Let_def split: sum.splits if_splits)
  obtain q where q: "p = abs_path q" "real_node f q" "\<forall>w\<in>set q. valid_name w"
    by (rule canonicalize_real [OF assms(1,2) c]) blast
  then obtain ns where "q = rn @ ns"
    using sw starts_with_abs_paths [OF valid_safe_list [OF assms(3)] valid_safe_list [OF q(3)]] by (auto elim: prefixE)
  with q show ?thesis by auto
qed

theorem resolve_existing_contained_witness:
  "resolve_existing id demo_fs ''/srv'' (abs_path [''srv'']) ''/a/../a//f'' = Some ''/srv/a/f'' \<and>
   resolve_existing id demo_fs ''/srv'' (abs_path [''srv'']) ''/up/etc'' = None \<and>
   (\<exists>ns. ''/srv/a/f'' = abs_path ([''srv''] @ ns) \<and> real_node demo_fs ([''srv''] @ ns) \<and>
         (\<forall>w\<in>set ns. valid_name w))"
proof -
  have r: "resolve_existing id demo_fs ''/srv'' (abs_path [''srv'']) ''/a/../a//f'' = Some ''/srv/a/f''"
    and n: "resolve_existing id demo_fs ''/srv'' (abs_path [''srv'']) ''/up/etc'' = None"
    by code_simp+
  have v: "\<forall>w\<in>set [''srv'']. valid_name w" by code_simp
  show ?thesis
    using resolve_existing_contained [OF demo_fs_wf demo_fs_cwd v r] r n by blast
qed



end
