(* ===== verification/Xml.thy ===== *)
theory Xml
  imports Webdav_Types Http_Time
begin

section \<open>XML responses (src/webdav/xml.rs)\<close>

text \<open>
  The bodies the server writes, as the list of the events given to the XML writer, which renders
  and escapes them (code of another package). A function that takes a \<open>&mut XmlWriter\<close> is here the
  list of the events it writes. \<open>None\<close> is the panic of the date formatter.
\<close>

datatype out_event =
    W_Decl
  | W_Start string "(string \<times> string) list"
  | W_End string
  | W_Empty string "(string \<times> string) list"
  | W_Text string

definition DAV_NS :: string where
  "DAV_NS = ''DAV:''"

definition SUPPORTED_PROPS :: "string list" where
  "SUPPORTED_PROPS =
     [''creationdate'', ''getcontentlength'', ''getcontenttype'', ''getetag'', ''getlastmodified'',
      ''lockdiscovery'', ''resourcetype'', ''supportedlock'']"

datatype el =
    EL_ACTIVE_LOCK | EL_COLLECTION | EL_DEPTH | EL_EXCLUSIVE | EL_HREF | EL_LOCK_DISCOVERY | EL_LOCK_ENTRY | EL_LOCK_SCOPE
  | EL_LOCK_TOKEN | EL_LOCK_TYPE | EL_MULTI_STATUS | EL_OWNER | EL_PROP | EL_PROP_STAT | EL_RESOURCE_TYPE | EL_RESPONSE
  | EL_SHARED | EL_STATUS | EL_SUPPORTED_LOCK | EL_TIMEOUT | EL_WRITE | EL_CREATION_DATE | EL_GET_CONTENT_LENGTH
  | EL_GET_CONTENT_TYPE | EL_GET_ETAG | EL_GET_LAST_MODIFIED

fun el_name :: "el \<Rightarrow> string" where
  "el_name EL_ACTIVE_LOCK = ''D:activelock''"
| "el_name EL_COLLECTION = ''D:collection''"
| "el_name EL_DEPTH = ''D:depth''"
| "el_name EL_EXCLUSIVE = ''D:exclusive''"
| "el_name EL_HREF = ''D:href''"
| "el_name EL_LOCK_DISCOVERY = ''D:lockdiscovery''"
| "el_name EL_LOCK_ENTRY = ''D:lockentry''"
| "el_name EL_LOCK_SCOPE = ''D:lockscope''"
| "el_name EL_LOCK_TOKEN = ''D:locktoken''"
| "el_name EL_LOCK_TYPE = ''D:locktype''"
| "el_name EL_MULTI_STATUS = ''D:multistatus''"
| "el_name EL_OWNER = ''D:owner''"
| "el_name EL_PROP = ''D:prop''"
| "el_name EL_PROP_STAT = ''D:propstat''"
| "el_name EL_RESOURCE_TYPE = ''D:resourcetype''"
| "el_name EL_RESPONSE = ''D:response''"
| "el_name EL_SHARED = ''D:shared''"
| "el_name EL_STATUS = ''D:status''"
| "el_name EL_SUPPORTED_LOCK = ''D:supportedlock''"
| "el_name EL_TIMEOUT = ''D:timeout''"
| "el_name EL_WRITE = ''D:write''"
| "el_name EL_CREATION_DATE = ''D:creationdate''"
| "el_name EL_GET_CONTENT_LENGTH = ''D:getcontentlength''"
| "el_name EL_GET_CONTENT_TYPE = ''D:getcontenttype''"
| "el_name EL_GET_ETAG = ''D:getetag''"
| "el_name EL_GET_LAST_MODIFIED = ''D:getlastmodified''"

definition w_start :: "el \<Rightarrow> out_event" where
  "w_start e = W_Start (el_name e) []"

definition w_end :: "el \<Rightarrow> out_event" where
  "w_end e = W_End (el_name e)"

definition w_empty :: "el \<Rightarrow> out_event" where
  "w_empty e = W_Empty (el_name e) []"

definition multistatus :: "out_event list \<Rightarrow> out_event list response" where
  "multistatus xml =
     \<lparr>resp_status = MULTI_STATUS, resp_headers = [(''content-type'', ''application/xml; charset=utf-8'')],
      resp_body = Xml xml\<rparr>"

definition is_applicable :: "string \<Rightarrow> bool \<Rightarrow> bool" where
  "is_applicable prop is_dir =
     (if prop \<in> set [''getcontentlength'', ''getcontenttype'', ''getetag''] then \<not> is_dir else True)"

definition write_prop_text :: "string \<Rightarrow> string \<Rightarrow> out_event list" where
  "write_prop_text qname v = [W_Start qname [], W_Text v, W_End qname]"

definition write_lockentry :: "string \<Rightarrow> out_event list" where
  "write_lockentry sc =
     [w_start EL_LOCK_ENTRY, w_start EL_LOCK_SCOPE,
      (if sc = ''exclusive'' then w_empty EL_EXCLUSIVE else w_empty EL_SHARED),
      w_end EL_LOCK_SCOPE, w_start EL_LOCK_TYPE, w_empty EL_WRITE, w_end EL_LOCK_TYPE, w_end EL_LOCK_ENTRY]"

definition write_activelock :: "lock_info \<Rightarrow> out_event list" where
  "write_activelock lock =
     [w_start EL_ACTIVE_LOCK, w_start EL_LOCK_SCOPE,
      (case lk_scope lock of Exclusive \<Rightarrow> w_empty EL_EXCLUSIVE | Shared \<Rightarrow> w_empty EL_SHARED),
      w_end EL_LOCK_SCOPE, w_start EL_LOCK_TYPE, w_empty EL_WRITE, w_end EL_LOCK_TYPE,
      w_start EL_DEPTH,
      W_Text (case lk_depth lock of Zero \<Rightarrow> ''0'' | One \<Rightarrow> ''1'' | Infinity \<Rightarrow> ''infinity''),
      w_end EL_DEPTH] @
     (case lk_owner lock of None \<Rightarrow> [] | Some own \<Rightarrow> [w_start EL_OWNER, W_Text own, w_end EL_OWNER]) @
     (case lk_timeout lock of
        None \<Rightarrow> []
      | Some d \<Rightarrow>
          [w_start EL_TIMEOUT, W_Text (''Second-'' @ show_nat (d div 1000000000)), w_end EL_TIMEOUT]) @
     [w_start EL_LOCK_TOKEN, w_start EL_HREF, W_Text (lk_token lock), w_end EL_HREF, w_end EL_LOCK_TOKEN,
      w_end EL_ACTIVE_LOCK]"

definition etag :: "system_time \<Rightarrow> nat \<Rightarrow> string" where
  "etag modified sz =
     show_hex (if 0 \<le> modified then nat (modified div 10 ^ 9) else 0) @ ''-'' @ show_hex sz"

definition write_live_prop :: "prop_entry \<Rightarrow> string \<Rightarrow> out_event list option" where
  "write_live_prop entry prop_name =
     (if prop_name = ''creationdate'' then
        Some (write_prop_text (el_name EL_CREATION_DATE)
                (case pe_created entry of None \<Rightarrow> [] | Some t \<Rightarrow> format_rfc3339 t))
      else if prop_name = ''getcontentlength'' then
        Some (write_prop_text (el_name EL_GET_CONTENT_LENGTH) (show_nat (pe_size entry)))
      else if prop_name = ''getcontenttype'' then
        Some (write_prop_text (el_name EL_GET_CONTENT_TYPE)
                (case pe_content_type entry of None \<Rightarrow> [] | Some t \<Rightarrow> t))
      else if prop_name = ''getetag'' then
        Some (write_prop_text (el_name EL_GET_ETAG) (etag (pe_modified entry) (pe_size entry)))
      else if prop_name = ''getlastmodified'' then
        map_option (write_prop_text (el_name EL_GET_LAST_MODIFIED)) (format_rfc1123 (pe_modified entry))
      else if prop_name = ''lockdiscovery'' then
        Some ([w_start EL_LOCK_DISCOVERY] @
              (case pe_active_locks entry of None \<Rightarrow> [] | Some ls \<Rightarrow> concat (map write_activelock ls)) @
              [w_end EL_LOCK_DISCOVERY])
      else if prop_name = ''resourcetype'' then
        Some ([w_start EL_RESOURCE_TYPE] @ (if pe_is_dir entry then [w_empty EL_COLLECTION] else []) @
              [w_end EL_RESOURCE_TYPE])
      else if prop_name = ''supportedlock'' then
        Some ([w_start EL_SUPPORTED_LOCK] @ write_lockentry ''exclusive'' @ write_lockentry ''shared'' @
              [w_end EL_SUPPORTED_LOCK])
      else Some [])"

fun write_all :: "('a \<Rightarrow> out_event list option) \<Rightarrow> 'a list \<Rightarrow> out_event list option" where
  "write_all f [] = Some []"
| "write_all f (x # xs) =
     (case f x of
        None \<Rightarrow> None
      | Some a \<Rightarrow> (case write_all f xs of None \<Rightarrow> None | Some b \<Rightarrow> Some (a @ b)))"

text \<open>The frame of every \<open>propstat\<close>: the properties, then their status.\<close>

definition propstat :: "out_event list \<Rightarrow> string \<Rightarrow> out_event list" where
  "propstat props st =
     [w_start EL_PROP_STAT, w_start EL_PROP] @ props @
     [w_end EL_PROP, w_start EL_STATUS, W_Text st, w_end EL_STATUS, w_end EL_PROP_STAT]"

definition write_propstat_200 :: "prop_entry \<Rightarrow> string list \<Rightarrow> out_event list option" where
  "write_propstat_200 entry props =
     map_option (\<lambda>body. propstat body ''HTTP/1.1 200 OK'') (write_all (write_live_prop entry) props)"

definition clark_elem :: "string \<Rightarrow> string \<times> (string \<times> string) list" where
  "clark_elem key =
     (case (case parse_clark key of None \<Rightarrow> ([], key) | Some nl \<Rightarrow> nl) of
        (ns, local) \<Rightarrow> (local, if ns = [] then [] else [(''xmlns'', ns)]))"

definition write_propstat_404 :: "string list \<Rightarrow> out_event list" where
  "write_propstat_404 props =
     propstat (map (\<lambda>p. W_Empty (fst (clark_elem p)) (snd (clark_elem p))) props)
       ''HTTP/1.1 404 Not Found''"

definition write_propname :: "string list \<Rightarrow> out_event list" where
  "write_propname props = propstat (map (\<lambda>p. W_Empty (''D:'' @ p) []) props) ''HTTP/1.1 200 OK''"

definition write_dead_prop :: "string \<times> string \<Rightarrow> out_event list" where
  "write_dead_prop = (\<lambda>(key, v).
     [W_Start (fst (clark_elem key)) (snd (clark_elem key)), W_Text v, W_End (fst (clark_elem key))])"

definition write_dead_propstat :: "(string \<times> string) list \<Rightarrow> out_event list" where
  "write_dead_propstat props = propstat (concat (map write_dead_prop props)) ''HTTP/1.1 200 OK''"

definition local_name :: "string \<Rightarrow> string" where
  "local_name n = (case parse_clark n of Some (_, l) \<Rightarrow> l | None \<Rightarrow> n)"

definition split_named :: "string list \<Rightarrow> string list \<times> string list" where
  "split_named names =
     foldl (\<lambda>(found, missing) n.
              if local_name n \<in> set SUPPORTED_PROPS then
                (if local_name n \<in> set found then (found, missing) else (found @ [local_name n], missing))
              else (found, missing @ [n]))
       ([], []) names"

definition not_found_props :: "prop_entry \<Rightarrow> string list \<Rightarrow> string list \<Rightarrow> string list" where
  "not_found_props entry found missing =
     (let not_found = filter (\<lambda>p. \<not> is_applicable p (pe_is_dir entry)) found @ missing
      in case pe_dead_props entry of
           None \<Rightarrow> not_found
         | Some dead \<Rightarrow> filter (\<lambda>n. map_of dead n = None) not_found)"

definition write_props :: "prop_entry \<Rightarrow> string list \<Rightarrow> string list \<Rightarrow> out_event list option" where
  "write_props entry found missing =
     (let applicable = filter (\<lambda>p. is_applicable p (pe_is_dir entry)) found;
          not_found = not_found_props entry found missing
      in case (if applicable \<noteq> [] then write_propstat_200 entry applicable else Some []) of
           None \<Rightarrow> None
         | Some p200 \<Rightarrow>
             Some (p200 @
                   (if not_found \<noteq> [] then write_propstat_404 not_found else []) @
                   (case pe_dead_props entry of
                      None \<Rightarrow> []
                    | Some dead \<Rightarrow> if dead \<noteq> [] then write_dead_propstat dead else [])))"

definition requested_props :: "prop_request \<Rightarrow> string list \<times> string list" where
  "requested_props prop_request =
     (case prop_request of Named names \<Rightarrow> split_named names | _ \<Rightarrow> (SUPPORTED_PROPS, []))"

definition response_head :: "prop_entry \<Rightarrow> out_event list" where
  "response_head entry = [w_start EL_RESPONSE, w_start EL_HREF, W_Text (pe_href entry), w_end EL_HREF]"

definition write_response :: "prop_entry \<Rightarrow> prop_request \<Rightarrow> out_event list option" where
  "write_response entry prop_request =
     (if prop_request = PropName
      then Some (response_head entry @ write_propname SUPPORTED_PROPS @ [w_end EL_RESPONSE])
      else map_option (\<lambda>body. response_head entry @ body @ [w_end EL_RESPONSE])
             (case requested_props prop_request of (found, missing) \<Rightarrow> write_props entry found missing))"

definition build_multistatus :: "prop_entry list \<Rightarrow> prop_request \<Rightarrow> out_event list option" where
  "build_multistatus entries prop_request =
     map_option
       (\<lambda>body. [W_Decl, W_Start (el_name EL_MULTI_STATUS) [(''xmlns:D'', DAV_NS)]] @ body @ [w_end EL_MULTI_STATUS])
       (write_all (\<lambda>entry. write_response entry prop_request) entries)"

subsection \<open>Well-formed output\<close>

text \<open>
  \<open>check st es\<close> runs the events over the stack of open elements; \<open>None\<close> is an end tag that does
  not close the innermost element. A fragment is closed when it leaves every stack as it was. The
  locale is the contract of a writer function; its clients are the loops and frames around it.
\<close>

fun check :: "string list \<Rightarrow> out_event list \<Rightarrow> string list option" where
  "check st [] = Some st"
| "check st (W_Start n as # es) = check (n # st) es"
| "check [] (W_End n # es) = None"
| "check (m # st) (W_End n # es) = (if m = n then check st es else None)"
| "check st (W_Decl # es) = check st es"
| "check st (W_Empty n as # es) = check st es"
| "check st (W_Text t # es) = check st es"

definition closed :: "out_event list \<Rightarrow> bool" where
  "closed es \<longleftrightarrow> (\<forall>st. check st es = Some st)"

lemma check_append: "check st (a @ b) = Option.bind (check st a) (\<lambda>st'. check st' b)"
  by (induction st a rule: check.induct) auto

lemma closed_Nil [simp]: "closed []"
  by (simp add: closed_def)

lemma closed_append: "closed a \<Longrightarrow> closed b \<Longrightarrow> closed (a @ b)"
  by (simp add: closed_def check_append)

lemma closed_element: "closed b \<Longrightarrow> closed (W_Start n as # b @ [W_End n])"
  by (simp add: closed_def check_append)

lemma closed_leaf: "closed b \<Longrightarrow> closed (W_Text t # b)" "closed b \<Longrightarrow> closed (W_Empty n as # b)"
  by (simp_all add: closed_def)

locale xml_fragment =
  fixes wr :: "'a \<Rightarrow> out_event list"
  assumes closed_write: "closed (wr x)"
begin

lemma closed_loop: "closed (concat (map wr xs))"
  by (induction xs) (simp_all add: closed_append closed_write)

lemma closed_loop_in: "closed (W_Start n as # concat (map wr xs) @ [W_End n])"
  by (rule closed_element [OF closed_loop])

end

locale xml_partial =
  fixes wr :: "'a \<Rightarrow> out_event list option"
  assumes closed_some: "wr x = Some es \<Longrightarrow> closed es"
begin

lemma closed_write_all: "write_all wr xs = Some es \<Longrightarrow> closed es"
  by (induction xs arbitrary: es) (auto split: option.splits simp: closed_append closed_some)

lemma write_all_parts:
  "write_all wr xs = Some es \<Longrightarrow>
     \<exists>parts. es = concat parts \<and> list_all2 (\<lambda>x part. wr x = Some part \<and> closed part) xs parts"
proof (induction xs arbitrary: es)
  case Nil
  then show ?case by simp
next
  case (Cons x xs)
  then obtain a b where a: "wr x = Some a" "write_all wr xs = Some b" "es = a @ b"
    by (auto split: option.splits)
  from Cons.IH [OF a(2)] obtain parts where
    "b = concat parts" "list_all2 (\<lambda>x part. wr x = Some part \<and> closed part) xs parts" by blast
  with a closed_some [OF a(1)] show ?case by (intro exI [of _ "a # parts"]) simp
qed

end

lemma closed_events:
  "closed [W_Start n as, W_Text t, W_End n]" "closed [W_Empty n as]"
  by (simp_all add: closed_def)

interpretation activelock: xml_fragment write_activelock
proof unfold_locales
  fix l show "closed (write_activelock l)"
    by (cases "lk_owner l"; cases "lk_timeout l"; cases "lk_scope l")
      (simp_all add: write_activelock_def closed_def w_start_def w_end_def w_empty_def)
qed

interpretation lockentry: xml_fragment write_lockentry
  by unfold_locales (simp add: write_lockentry_def closed_def w_start_def w_end_def w_empty_def)

interpretation dead_prop: xml_fragment write_dead_prop
  by unfold_locales (simp add: write_dead_prop_def closed_events split: prod.splits)

lemma closed_empties: "closed (map (\<lambda>p. W_Empty (g p) (h p)) ps)"
  by (induction ps) (simp_all add: closed_leaf)

lemma closed_propstat: "closed b \<Longrightarrow> closed (propstat b st)"
  by (simp add: propstat_def closed_def check_append w_start_def w_end_def)

interpretation live_prop: xml_partial "write_live_prop entry" for entry
proof unfold_locales
  fix x es assume "write_live_prop entry x = Some es"
  then show "closed es"
    using closed_element [OF activelock.closed_loop, of "el_name EL_LOCK_DISCOVERY" "[]"]
      closed_element [OF closed_append [OF lockentry.closed_write lockentry.closed_write],
        of "el_name EL_SUPPORTED_LOCK" "[]", unfolded append_assoc]
    by (auto simp: write_live_prop_def write_prop_text_def closed_events w_start_def w_end_def
        w_empty_def closed_element [OF closed_Nil, simplified] closed_element [OF closed_events(2), simplified]
        split: if_splits option.splits)
qed

lemma write_response_shape:
  assumes "write_response entry rq = Some es"
  obtains b where "es = response_head entry @ b @ [w_end EL_RESPONSE]" "closed b"
proof -
  have nf: "closed (write_propstat_404 ps)" for ps
    unfolding write_propstat_404_def by (rule closed_propstat [OF closed_empties])
  have pn: "closed (write_propname ps)" for ps
    unfolding write_propname_def by (rule closed_propstat [OF closed_empties])
  have dd: "closed (write_dead_propstat ps)" for ps
    unfolding write_dead_propstat_def by (rule closed_propstat [OF dead_prop.closed_loop])
  have p2: "write_propstat_200 entry ps = Some p \<Longrightarrow> closed p" for ps p
    using closed_propstat [OF live_prop.closed_write_all] by (auto simp: write_propstat_200_def)
  have wp: "closed p" if "write_props entry found missing = Some p" for found missing p
    using that p2 nf dd unfolding write_props_def Let_def
    by (auto split: option.splits if_splits intro!: closed_append)
  show thesis
    using assms that pn wp unfolding write_response_def
    by (auto split: if_splits prod.splits)
qed

lemma closed_response: "closed b \<Longrightarrow> closed (response_head entry @ b @ [w_end EL_RESPONSE])"
  by (simp add: closed_def check_append response_head_def w_start_def w_end_def)

interpretation response: xml_partial "\<lambda>entry. write_response entry rq" for rq
  by unfold_locales (auto elim!: write_response_shape simp: closed_response)

text \<open>
  C27: the multistatus body is well formed: inside the root element stands, for each entry in order,
  a closed \<open>response\<close> element that starts with the entry's href, whatever properties, dead
  properties and locks the entry has and whatever is requested.
\<close>

theorem build_multistatus_wellformed:
  assumes "build_multistatus entries rq = Some doc"
  shows "closed doc \<and>
    (\<exists>parts.
       doc = [W_Decl, W_Start (el_name EL_MULTI_STATUS) [(''xmlns:D'', DAV_NS)]] @ concat parts @
             [w_end EL_MULTI_STATUS] \<and>
       list_all2 (\<lambda>entry part. \<exists>b. part = response_head entry @ b @ [w_end EL_RESPONSE] \<and> closed b)
         entries parts)"
proof -
  obtain body where b: "write_all (\<lambda>entry. write_response entry rq) entries = Some body"
    and doc: "doc = [W_Decl, W_Start (el_name EL_MULTI_STATUS) [(''xmlns:D'', DAV_NS)]] @ body @ [w_end EL_MULTI_STATUS]"
    using assms by (auto simp: build_multistatus_def)
  have cl: "closed doc"
    using response.closed_write_all [OF b] doc by (simp add: closed_def check_append w_end_def)
  obtain parts where p: "body = concat parts"
      "list_all2 (\<lambda>entry part. write_response entry rq = Some part \<and> closed part) entries parts"
    using response.write_all_parts [OF b] by blast
  have "list_all2 (\<lambda>entry part. \<exists>b. part = response_head entry @ b @ [w_end EL_RESPONSE] \<and> closed b)
         entries parts"
    using p(2) by (rule list_all2_mono) (auto elim: write_response_shape)
  with cl doc p(1) show ?thesis by blast
qed

definition demo_entry :: prop_entry where
  "demo_entry =
     \<lparr>pe_href = ''/a/'', pe_modified = 0, pe_created = None, pe_size = 3, pe_is_dir = True,
      pe_content_type = None, pe_dead_props = Some [(''{Z:}c'', ''v'')],
      pe_active_locks = None, pe_canonical_path = None\<rparr>"

definition demo_request :: prop_request where
  "demo_request = Named [''{DAV:}getetag'', ''{DAV:}resourcetype'', ''{Z:}c'', ''{Z:}d'']"

definition demo_multistatus :: "out_event list" where
  "demo_multistatus = the (build_multistatus [demo_entry] demo_request)"

theorem build_multistatus_wellformed_witness:
  "build_multistatus [demo_entry] demo_request = Some demo_multistatus \<and> closed demo_multistatus"
proof -
  have "build_multistatus [demo_entry] demo_request \<noteq> None" by code_simp
  then have d: "build_multistatus [demo_entry] demo_request = Some demo_multistatus"
    by (simp add: demo_multistatus_def)
  with build_multistatus_wellformed [OF d] show ?thesis by blast
qed

subsection \<open>Where a requested property is reported\<close>

lemma split_named_foldl:
  "foldl (\<lambda>(found, missing) n.
              if local_name n \<in> set SUPPORTED_PROPS then
                (if local_name n \<in> set found then (found, missing) else (found @ [local_name n], missing))
              else (found, missing @ [n])) (f0, m0) names = (f, m) \<Longrightarrow>
     distinct f0 \<Longrightarrow>
     distinct f \<and> set f = set f0 \<union> {local_name n |n. n \<in> set names \<and> local_name n \<in> set SUPPORTED_PROPS} \<and>
     m = m0 @ filter (\<lambda>n. local_name n \<notin> set SUPPORTED_PROPS) names"
proof (induction names arbitrary: f0 m0)
  case Nil
  then show ?case by simp
next
  case (Cons n names)
  consider (new) "local_name n \<in> set SUPPORTED_PROPS" "local_name n \<notin> set f0"
    | (old) "local_name n \<in> set SUPPORTED_PROPS" "local_name n \<in> set f0"
    | (other) "local_name n \<notin> set SUPPORTED_PROPS" by blast
  then show ?case
  proof cases
    case new
    with Cons.IH [of "f0 @ [local_name n]" m0] Cons.prems show ?thesis by auto
  next
    case old
    with Cons.IH [of f0 m0] Cons.prems show ?thesis by auto
  next
    case other
    with Cons.IH [of f0 "m0 @ [n]"] Cons.prems show ?thesis by auto
  qed
qed

lemma split_named_props:
  assumes "split_named names = (found, missing)"
  shows "distinct found"
    and "set found = {local_name n |n. n \<in> set names \<and> local_name n \<in> set SUPPORTED_PROPS}"
    and "missing = filter (\<lambda>n. local_name n \<notin> set SUPPORTED_PROPS) names"
  using split_named_foldl [OF assms [unfolded split_named_def]] by auto

lemma supported_local_name: "p \<in> set SUPPORTED_PROPS \<Longrightarrow> local_name p = p"
  by (auto simp: SUPPORTED_PROPS_def local_name_def parse_clark_def strip_prefix_def starts_with_def)

definition reported_name :: "string \<Rightarrow> string" where
  "reported_name n = (if local_name n \<in> set SUPPORTED_PROPS then local_name n else n)"

text \<open>
  Every property a PROPFIND asks for is accounted for, and none twice under different statuses.
  A requested name is among the live properties written with status 200, or among the names
  written with status 404, or it is one of the dead properties that are written with status 200;
  the live list has no duplicates and shares nothing with the 404 list, and nothing in the 404 list
  is a dead property of the entry.
\<close>

theorem requested_props_accounted:
  assumes "requested_props (Named names) = (found, missing)"
    and "live = filter (\<lambda>p. is_applicable p (pe_is_dir entry)) found"
    and "nf = not_found_props entry found missing"
    and "dead = (case pe_dead_props entry of None \<Rightarrow> {} | Some d \<Rightarrow> fst ` set d)"
  shows "distinct live \<and> set live \<inter> set nf = {} \<and> set nf \<inter> dead = {} \<and>
     reported_name ` set names \<subseteq> set live \<union> set nf \<union> dead"
proof -
  note sp = split_named_props [OF assms(1) [unfolded requested_props_def prop_request.case]]
  have nf: "set nf = ({p \<in> set found. \<not> is_applicable p (pe_is_dir entry)} \<union> set missing) - dead"
    unfolding assms(3,4) not_found_props_def
    by (auto simp: Let_def map_of_eq_None_iff split: option.splits)
  have "p \<notin> set missing" if "p \<in> set found" for p
  proof -
    from that sp(2) have "p \<in> set SUPPORTED_PROPS" by auto
    with supported_local_name [OF this] sp(3) show ?thesis by auto
  qed
  then have disj: "set live \<inter> set nf = {}" using nf assms(2) by auto
  have "reported_name n \<in> set live \<union> set nf \<union> dead" if "n \<in> set names" for n
  proof (cases "local_name n \<in> set SUPPORTED_PROPS")
    case True
    with that sp(2) have "local_name n \<in> set found" by auto
    with True nf assms(2) show ?thesis by (auto simp: reported_name_def)
  next
    case False
    with that sp(3) nf show ?thesis by (auto simp: reported_name_def)
  qed
  with disj nf sp(1) assms(2) show ?thesis by auto
qed

theorem requested_props_accounted_witness:
  "requested_props demo_request = ([''getetag'', ''resourcetype''], [''{Z:}c'', ''{Z:}d'']) \<and>
   not_found_props demo_entry [''getetag'', ''resourcetype''] [''{Z:}c'', ''{Z:}d''] = [''getetag'', ''{Z:}d''] \<and>
   reported_name ` {''{DAV:}getetag'', ''{DAV:}resourcetype'', ''{Z:}c'', ''{Z:}d''} \<subseteq>
     {''resourcetype'', ''getetag'', ''{Z:}d'', ''{Z:}c''}"
proof -
  have r: "requested_props (Named [''{DAV:}getetag'', ''{DAV:}resourcetype'', ''{Z:}c'', ''{Z:}d'']) =
      ([''getetag'', ''resourcetype''], [''{Z:}c'', ''{Z:}d''])" by code_simp
  have l: "[''resourcetype''] =
      filter (\<lambda>p. is_applicable p (pe_is_dir demo_entry)) [''getetag'', ''resourcetype'']" by code_simp
  have n: "[''getetag'', ''{Z:}d''] =
      not_found_props demo_entry [''getetag'', ''resourcetype''] [''{Z:}c'', ''{Z:}d'']" by code_simp
  have d: "{''{Z:}c''} = (case pe_dead_props demo_entry of None \<Rightarrow> {} | Some d \<Rightarrow> fst ` set d)"
    by (simp add: demo_entry_def)
  have "reported_name ` {''{DAV:}getetag'', ''{DAV:}resourcetype'', ''{Z:}c'', ''{Z:}d''} \<subseteq>
      {''resourcetype'', ''getetag'', ''{Z:}d'', ''{Z:}c''}"
    using requested_props_accounted [OF r l n d] by (auto simp: n [symmetric])
  with r n show ?thesis by (simp add: demo_request_def)
qed

end
