(* ===== verification/Scandir.thy ===== *)
theory Scandir
  imports Fs_Model "HOL-Library.Word"
begin

unbundle bit_operations_syntax

section \<open>Batched directory reading (src/scandir.rs)\<close>

text \<open>
  The Linux path: names are read with \<open>read_dir\<close>, their metadata with batches of at most 256 \<open>statx\<close>
  operations on an io_uring. The kernel is an argument: for the directory and the names of one
  submission it gives the buffers it filled, in submission order, and the completion queue, pairs
  of user data and result in any order, or the error of the submission. A \<open>DirEntry\<close> knows its
  file type, of the entry itself and not of what a link points to.
\<close>

record statx =
  stx_mode :: "16 word"
  stx_size :: nat
  stx_mtime :: "int \<times> nat"
  stx_btime :: "int \<times> nat"

definition S_IFMT :: "32 word" where
  "S_IFMT = 0xF000"

definition S_IFDIR :: "32 word" where
  "S_IFDIR = 0x4000"

definition stx_is_dir :: "statx \<Rightarrow> bool" where
  "stx_is_dir s \<longleftrightarrow> (ucast (stx_mode s) AND S_IFMT) = S_IFDIR"

definition timestamp_to_systemtime :: "int \<Rightarrow> nat \<Rightarrow> system_time" where
  "timestamp_to_systemtime sec nsec =
     (if 0 \<le> sec then sec * 10 ^ 9 + int nsec else - ((- sec) * 10 ^ 9 + int nsec))"

definition stx_modified :: "statx \<Rightarrow> system_time" where
  "stx_modified s = (case stx_mtime s of (sec, nsec) \<Rightarrow> timestamp_to_systemtime sec nsec)"

definition stx_created :: "statx \<Rightarrow> system_time option" where
  "stx_created s =
     (case stx_btime s of (sec, nsec) \<Rightarrow>
        if sec = 0 \<and> nsec = 0 then None else Some (timestamp_to_systemtime sec nsec))"

definition BATCH_SIZE :: nat where
  "BATCH_SIZE = 256"

type_synonym submission = "string list \<Rightarrow> io_error + statx list \<times> (nat \<times> int) list"

definition record_completions ::
  "nat \<Rightarrow> nat \<Rightarrow> statx list \<Rightarrow> (nat \<times> int) list \<Rightarrow> statx option list \<Rightarrow> statx option list" where
  "record_completions chunk_start n bufs cqes results =
     foldl (\<lambda>rs (idx, res). if 0 \<le> res \<and> idx < n then rs[chunk_start + idx := Some (bufs ! idx)] else rs)
       results cqes"

function batch_loop ::
  "submission \<Rightarrow> string list \<Rightarrow> nat \<Rightarrow> statx option list \<Rightarrow> io_error + statx option list" where
  "batch_loop submit names chunk_start results =
     (if length names \<le> chunk_start then Inr results
      else (let chunk = take BATCH_SIZE (drop chunk_start names)
            in case submit chunk of
                 Inl e \<Rightarrow> Inl e
               | Inr (bufs, cqes) \<Rightarrow>
                   batch_loop submit names (chunk_start + BATCH_SIZE)
                     (record_completions chunk_start (length chunk) bufs cqes results)))"
  by pat_completeness auto
termination
  by (relation "measure (\<lambda>(submit, names, start, results). length names - start)")
    (auto simp: BATCH_SIZE_def)

declare batch_loop.simps [simp del]

definition batch_statx :: "submission \<Rightarrow> string list \<Rightarrow> io_error + statx option list" where
  "batch_statx submit names =
     (if names = [] then Inr [] else batch_loop submit names 0 (replicate (length names) None))"

record dir_entry_meta =
  de_name :: string
  de_is_dir :: bool
  de_size :: nat
  de_modified :: system_time
  de_created :: "system_time option"

definition open_dir :: "fs \<Rightarrow> pathbuf \<Rightarrow> io_error + string list" where
  \<comment> \<open>\<open>std::fs::File::open\<close> for reading\<close>
  "open_dir f p =
     (if fs_deny f Op_open p then Inl OtherError
      else case resolve f p of
             Inl e \<Rightarrow> Inl e
           | Inr q \<Rightarrow> (case fs_lookup f q of None \<Rightarrow> Inl NotFound | Some _ \<Rightarrow> Inr q))"

definition merge_entry :: "(string \<times> node) \<times> statx option \<Rightarrow> dir_entry_meta option" where
  "merge_entry = (\<lambda>((name, nd), stat).
     case stat of
       None \<Rightarrow> None
     | Some stx \<Rightarrow>
         Some \<lparr>de_name = name,
               de_is_dir = (case (case nd of Dir \<Rightarrow> Some True | _ \<Rightarrow> Some False) of
                              Some b \<Rightarrow> b | None \<Rightarrow> stx_is_dir stx),
               de_size = stx_size stx, de_modified = stx_modified stx, de_created = stx_created stx\<rparr>)"

definition batch_linux ::
  "(string list \<Rightarrow> submission) \<Rightarrow> fs \<Rightarrow> pathbuf \<Rightarrow> io_error + dir_entry_meta list" where
  "batch_linux uring f dir_path =
     (case open_dir f dir_path of
        Inl e \<Rightarrow> Inl e
      | Inr dir_fd \<Rightarrow>
          (case read_dir f dir_path of
             Inl e \<Rightarrow> Inl e
           | Inr listing \<Rightarrow>
               (let entries = filter (\<lambda>(name, _). CHR 0x00 \<notin> set name) listing
                in if entries = [] then Inr []
                   else case batch_statx (uring dir_fd) (map fst entries) of
                          Inl e \<Rightarrow> Inl e
                        | Inr stats \<Rightarrow> Inr (List.map_filter merge_entry (zip entries stats)))))"

definition batch_read_dir_entries ::
  "(string list \<Rightarrow> submission) \<Rightarrow> fs \<Rightarrow> pathbuf \<Rightarrow> io_error + dir_entry_meta list" where
  "batch_read_dir_entries uring f dir_path = batch_linux uring f dir_path"

subsection \<open>The results are in the order of the names\<close>

text \<open>
  What the kernel promises for one submission: it fills a buffer for each name and completes every
  operation once, in any order, with its user data; \<open>ok\<close> says which names it can stat.
\<close>

definition kernel_contract ::
  "submission \<Rightarrow> (string \<Rightarrow> bool) \<Rightarrow> (string \<Rightarrow> statx) \<Rightarrow> bool" where
  "kernel_contract submit ok buf \<longleftrightarrow>
     (\<forall>chunk. \<exists>cqes. submit chunk = Inr (map buf chunk, cqes) \<and>
        mset (map fst cqes) = mset [0..<length chunk] \<and>
        (\<forall>(i, res)\<in>set cqes. 0 \<le> res \<longleftrightarrow> ok (chunk ! i)))"

lemma record_completions_length [simp]:
  "length (record_completions s n bufs cqes rs) = length rs"
  unfolding record_completions_def by (induction cqes arbitrary: rs) auto

lemma record_completions_nth:
  assumes "distinct (map fst cqes)" "s + n \<le> length rs" "j < length rs"
  shows "record_completions s n bufs cqes rs ! j =
     (if s \<le> j \<and> j < s + n \<and> (\<exists>res. (j - s, res) \<in> set cqes \<and> 0 \<le> res) then Some (bufs ! (j - s))
      else rs ! j)"
  using assms
proof (induction cqes arbitrary: rs)
  case Nil
  then show ?case by (simp add: record_completions_def)
next
  case (Cons c cqes)
  obtain i res where c: "c = (i, res)" by (cases c)
  let ?rs = "if 0 \<le> res \<and> i < n then rs[s + i := Some (bufs ! i)] else rs"
  have ih: "record_completions s n bufs cqes ?rs ! j =
     (if s \<le> j \<and> j < s + n \<and> (\<exists>res. (j - s, res) \<in> set cqes \<and> 0 \<le> res) then Some (bufs ! (j - s))
      else ?rs ! j)"
    using Cons.prems by (intro Cons.IH) auto
  have e: "record_completions s n bufs (c # cqes) rs = record_completions s n bufs cqes ?rs"
    by (simp add: record_completions_def c)
  show ?case
  proof (cases "s \<le> j \<and> j = s + i")
    case True
    then show ?thesis using ih e c Cons.prems(2,3) by (auto simp: nth_list_update)
  next
    case False
    then have "j - s \<noteq> i \<or> \<not> s \<le> j" by auto
    then show ?thesis using ih e c False by (auto simp: nth_list_update)
  qed
qed

definition stat_of :: "(string \<Rightarrow> bool) \<Rightarrow> (string \<Rightarrow> statx) \<Rightarrow> string \<Rightarrow> statx option" where
  "stat_of ok buf name = (if ok name then Some (buf name) else None)"

lemma record_completions_chunk:
  assumes c: "submit chunk = Inr (bufs, cqes)" "kernel_contract submit ok buf"
    and chunk: "chunk = take k (drop s names)" and s: "s < length names"
    and rs: "rs = map (stat_of ok buf) (take s names) @ replicate (length names - s) None"
  shows "record_completions s (length chunk) bufs cqes rs =
     map (stat_of ok buf) (take (s + k) names) @ replicate (length names - (s + k)) None"
proof (rule nth_equalityI)
  obtain cqes' where c': "submit chunk = Inr (map buf chunk, cqes')"
    "mset (map fst cqes') = mset [0..<length chunk]"
    "\<forall>(i, res)\<in>set cqes'. 0 \<le> res \<longleftrightarrow> ok (chunk ! i)"
    using c(2) unfolding kernel_contract_def by blast
  with c(1) have bufs: "bufs = map buf chunk" and ms: "mset (map fst cqes) = mset [0..<length chunk]"
    and res: "\<forall>(i, res)\<in>set cqes. 0 \<le> res \<longleftrightarrow> ok (chunk ! i)"
    by simp_all
  have d: "distinct (map fst cqes)" using ms by (metis distinct_upt mset_eq_imp_distinct_iff)
  have ids: "fst ` set cqes = {0..<length chunk}"
    using arg_cong [OF ms, of set_mset] by simp
  have n: "s + length chunk \<le> length names" using chunk s by simp
  have len: "length rs = length names" using rs s by simp
  show "length (record_completions s (length chunk) bufs cqes rs) =
      length (map (stat_of ok buf) (take (s + k) names) @ replicate (length names - (s + k)) None)"
    using len by simp
  fix j assume "j < length (record_completions s (length chunk) bufs cqes rs)"
  then have j: "j < length names" using len by simp
  note r = record_completions_nth [OF d, of s "length chunk" rs j bufs]
  have r': "record_completions s (length chunk) bufs cqes rs ! j =
     (if s \<le> j \<and> j < s + length chunk \<and> (\<exists>res. (j - s, res) \<in> set cqes \<and> 0 \<le> res)
      then Some (bufs ! (j - s)) else rs ! j)"
    using r n len j by simp
  show "record_completions s (length chunk) bufs cqes rs ! j =
      (map (stat_of ok buf) (take (s + k) names) @ replicate (length names - (s + k)) None) ! j"
  proof (cases "s \<le> j \<and> j < s + length chunk")
    case True
    then have i: "j - s < length chunk" by arith
    then obtain rv where rv: "(j - s, rv) \<in> set cqes" using ids by force
    have "j - s < k" "s + (j - s) = j" using chunk True by auto
    then have ch: "chunk ! (j - s) = names ! j" using chunk s by simp
    have "(\<exists>res. (j - s, res) \<in> set cqes \<and> 0 \<le> res) \<longleftrightarrow> ok (names ! j)"
      using res rv ch by auto
    moreover have "rs ! j = None" using rs True diff_less_mono [OF j, of s] s by (simp add: nth_append)
    moreover have "j < s + k" using \<open>j - s < k\<close> True by linarith
    ultimately show ?thesis
      using r' True i ch bufs j by (simp add: nth_append stat_of_def)
  next
    case False
    then have "record_completions s (length chunk) bufs cqes rs ! j = rs ! j" using r' by auto
    moreover have "j < s \<or> s + k \<le> j" using False chunk j s by auto
    ultimately show ?thesis using rs j s by (auto simp: nth_append)
  qed
qed

lemma batch_loop_result:
  "kernel_contract submit ok buf \<Longrightarrow>
     results = map (stat_of ok buf) (take start names) @ replicate (length names - start) None \<Longrightarrow>
     batch_loop submit names start results = Inr (map (stat_of ok buf) names)"
proof (induction submit names start results rule: batch_loop.induct)
  case (1 submit names start results)
  show ?case
  proof (cases "length names \<le> start")
    case True
    with 1(3) show ?thesis by (simp add: batch_loop.simps [of submit names start])
  next
    case False
    let ?chunk = "take BATCH_SIZE (drop start names)"
    have "\<exists>cqes. submit ?chunk = Inr (map buf ?chunk, cqes)"
      using spec [OF 1(2) [unfolded kernel_contract_def], of ?chunk] by (elim exE conjE) (erule exI)
    then obtain bufs cqes where c: "submit ?chunk = Inr (bufs, cqes)" by blast
    have "record_completions start (length ?chunk) bufs cqes results =
        map (stat_of ok buf) (take (start + BATCH_SIZE) names) @
        replicate (length names - (start + BATCH_SIZE)) None"
      using False 1(3) by (intro record_completions_chunk [OF c 1(2) refl]) auto
    with 1(1) [OF False refl c refl 1(2)] False c show ?thesis
      by (simp add: batch_loop.simps [of submit names start] Let_def)
  qed
qed

lemma batch_statx_result:
  "kernel_contract submit ok buf \<Longrightarrow> batch_statx submit names = Inr (map (stat_of ok buf) names)"
  using batch_loop_result [of submit ok buf "replicate (length names) None" 0 names]
  by (simp add: batch_statx_def)

text \<open>
  The batched metadata arrive in the order of the names. Whatever the number of names and
  however the kernel orders the completions of each submission, the result has, at the position
  of each name, the metadata of that name, or nothing when the kernel could not read them.
\<close>

theorem batch_statx_in_order:
  assumes "kernel_contract submit ok buf"
  shows "batch_statx submit names = Inr (map (\<lambda>n. if ok n then Some (buf n) else None) names)"
  using batch_statx_result [OF assms] by (simp add: stat_of_def)

definition demo_statx :: "string \<Rightarrow> statx" where
  "demo_statx n = \<lparr>stx_mode = 0x81A4, stx_size = length n, stx_mtime = (5, 0), stx_btime = (0, 0)\<rparr>"

text \<open>A kernel that completes in reverse order and cannot read the empty name.\<close>

definition demo_submission :: submission where
  "demo_submission chunk =
     Inr (map demo_statx chunk,
          map (\<lambda>i. (i, if chunk ! i = [] then -2 else 0)) (rev [0..<length chunk]))"

theorem batch_statx_in_order_witness:
  "batch_statx demo_submission [''a'', [], ''bc''] =
     Inr [Some (demo_statx ''a''), None, Some (demo_statx ''bc'')]"
proof -
  have "kernel_contract demo_submission (\<lambda>n. n \<noteq> []) demo_statx"
    unfolding kernel_contract_def demo_submission_def
    by (intro allI exI conjI, rule refl) (auto simp: comp_def multiset.map_comp)
  from batch_statx_in_order [OF this, of "[''a'', [], ''bc'']"] show ?thesis by simp
qed



end
