(* ===== verification/App_State.thy ===== *)
theory App_State
  imports Lock_System Paths Xml Method Scandir
begin

section \<open>The state of the server (AppState in src/server/mod.rs)\<close>

text \<open>
  The state behind the locks of \<open>AppState\<close>, with the file system it works on. The two
  authentication states are separate: the handlers do not see them. \<open>externals\<close> holds the code of
  other packages that the handlers call: percent decoding (lossy UTF-8) and encoding, the hasher
  of the lock tokens, the XML reader, the guessed type of a file name, and what the kernel reports
  about a node besides its kind and content.
\<close>

record externals =
  ext_pct :: "string \<Rightarrow> string"
  ext_encode :: "string \<Rightarrow> string"
  ext_hash :: "nat \<Rightarrow> nat"
  ext_reader :: "string \<Rightarrow> xml_input"
  ext_mime :: "string \<Rightarrow> string option"
  ext_times :: "string list \<Rightarrow> system_time \<times> system_time option"
  ext_dir_size :: "string list \<Rightarrow> nat"
  ext_statx :: "fs \<Rightarrow> string list \<Rightarrow> submission"

record app_state =
  st_fs :: fs
  st_root_dir :: pathbuf
  st_root_canonical :: pathbuf
  st_dead_props :: dead_property_store
  st_locks :: lock_store
  st_cache :: canonical_cache
  st_lock_timeout :: duration

definition app_state_new :: "fs \<Rightarrow> pathbuf \<Rightarrow> duration \<Rightarrow> app_state" where
  "app_state_new f root timeout =
     \<lparr>st_fs = f, st_root_dir = root,
      st_root_canonical = (case canonicalize f root of Inr c \<Rightarrow> c | Inl _ \<Rightarrow> root),
      st_dead_props = [], st_locks = [], st_cache = [], st_lock_timeout = timeout\<rparr>"

definition state_resolve_existing :: "externals \<Rightarrow> app_state \<Rightarrow> string \<Rightarrow> pathbuf option" where
  "state_resolve_existing x st request_path =
     resolve_existing (ext_pct x) (st_fs st) (st_root_dir st) (st_root_canonical st) request_path"

definition state_resolve_write_target :: "externals \<Rightarrow> app_state \<Rightarrow> string \<Rightarrow> pathbuf option" where
  "state_resolve_write_target x st request_path =
     resolve_write_target (ext_pct x) (st_root_dir st) request_path"

definition state_resolve_and_guard ::
  "externals \<Rightarrow> app_state \<Rightarrow> string \<Rightarrow> (resolve_target_error + pathbuf) \<times> app_state" where
  "state_resolve_and_guard x st request_path =
     (case resolve_and_guard (ext_pct x) (st_fs st) (st_root_dir st) (st_root_canonical st)
             request_path (st_cache st) of
        (r, cache) \<Rightarrow> (r, st\<lparr>st_cache := cache\<rparr>))"

type_synonym reply = "out_event list response app_result"

type_synonym handler = "externals \<Rightarrow> system_time \<Rightarrow> request \<Rightarrow> app_state \<Rightarrow> reply \<times> app_state"

definition empty_reply :: "status \<Rightarrow> reply" where
  \<comment> \<open>\<open>Ok(status.into_response())\<close>\<close>
  "empty_reply s = Inr (status_response s)"

definition reply_status :: "reply \<Rightarrow> status" where
  "reply_status r = resp_status (into_response r)"

lemma reply_status_simps [simp]:
  "reply_status (Inl s) = s" "reply_status (Inr r) = resp_status r"
  "reply_status (empty_reply s) = s"
  by (simp_all add: reply_status_def empty_reply_def)

subsection \<open>The invariant of the state\<close>

definition state_ok :: "string list \<Rightarrow> app_state \<Rightarrow> bool" where
  "state_ok rn st \<longleftrightarrow>
     fs_wf (st_fs st) \<and> real_node (st_fs st) (fs_cwd (st_fs st)) \<and>
     (\<forall>w\<in>set rn. valid_name w) \<and> st_root_canonical st = abs_path rn \<and>
     cache_ok (st_cache st) \<and> store_ok rn (st_locks st)"

lemma state_okD:
  assumes "state_ok rn st"
  shows "fs_wf (st_fs st)" "real_node (st_fs st) (fs_cwd (st_fs st))"
    "\<forall>w\<in>set rn. valid_name w" "\<forall>w\<in>set rn. safe_name w"
    "st_root_canonical st = abs_path rn" "cache_ok (st_cache st)" "store_ok rn (st_locks st)"
  using assms valid_safe_list by (auto simp: state_ok_def)

lemma app_state_new_ok:
  assumes "fs_wf f" "real_node f (fs_cwd f)" "canonicalize f root = Inr c"
  obtains rn where "state_ok rn (app_state_new f root timeout)" "c = abs_path rn"
proof -
  obtain q where q: "c = abs_path q" "\<forall>w\<in>set q. valid_name w"
    using canonicalize_real [OF assms] by blast
  then have "state_ok q (app_state_new f root timeout)"
    using assms by (simp add: state_ok_def app_state_new_def store_ok_def)
  with q(1) that show thesis by blast
qed

text \<open>
  The interface the handlers rely on: a resolver that turns request paths into paths of the tree
  and keeps the rest of the state. Both resolvers of the state provide it.
\<close>

locale guarded_resolver =
  fixes resolve :: "externals \<Rightarrow> app_state \<Rightarrow> string \<Rightarrow> pathbuf option \<times> app_state"
  assumes resolved_under: "state_ok rn st \<Longrightarrow> resolve x st rp = (Some p, st') \<Longrightarrow>
      \<exists>ns. p = abs_path (rn @ ns) \<and> (\<forall>w\<in>set (rn @ ns). safe_name w)"
    and resolve_keeps: "state_ok rn st \<Longrightarrow> resolve x st rp = (r, st') \<Longrightarrow>
      state_ok rn st' \<and> st' = st\<lparr>st_cache := st_cache st'\<rparr>"
begin

lemma resolved_starts_with_root:
  assumes "state_ok rn st" "resolve x st rp = (Some p, st')"
  shows "path_starts_with p (st_root_canonical st)"
proof -
  obtain ns where p: "p = abs_path (rn @ ns)" and s: "\<forall>w\<in>set (rn @ ns). safe_name w"
    using resolved_under [OF assms] by blast
  have "path_starts_with (abs_path (rn @ ns)) (abs_path rn)"
    using starts_with_abs_paths [OF state_okD(4) [OF assms(1)] s] by simp
  then show ?thesis using p state_okD(5) [OF assms(1)] by simp
qed

lemma resolve_locks_fs:
  "state_ok rn st \<Longrightarrow> resolve x st rp = (r, st') \<Longrightarrow>
     st_fs st' = st_fs st \<and> st_locks st' = st_locks st \<and> st_dead_props st' = st_dead_props st"
  by (drule (1) resolve_keeps) (cases st, cases st', simp)

end

lemma guard_frame:
  "state_resolve_and_guard x st rp = (r, st') \<Longrightarrow> st' = st\<lparr>st_cache := st_cache st'\<rparr>"
  by (auto simp: state_resolve_and_guard_def split: prod.splits)

lemma guard_frame_fields:
  assumes "state_resolve_and_guard x st rp = (r, st')"
  shows "st_fs st' = st_fs st" "st_locks st' = st_locks st" "st_dead_props st' = st_dead_props st"
    "st_root_canonical st' = st_root_canonical st" "st_root_dir st' = st_root_dir st"
    "st_lock_timeout st' = st_lock_timeout st"
  using guard_frame [OF assms] by (cases st, cases st', simp)+

lemma state_resolve_and_guard_ok:
  assumes "state_ok rn st" "state_resolve_and_guard x st rp = (r, st')"
  shows "state_ok rn st'" "st' = st\<lparr>st_cache := st_cache st'\<rparr>"
    and "r = Inr p \<Longrightarrow> inside rn p" and "r \<noteq> Inl Panicked"
proof -
  obtain cache where g: "resolve_and_guard (ext_pct x) (st_fs st) (st_root_dir st) (abs_path rn) rp (st_cache st) =
      (r, cache)" and st': "st' = st\<lparr>st_cache := cache\<rparr>"
    using assms(2) state_okD(5) [OF assms(1)]
    by (auto simp: state_resolve_and_guard_def split: prod.splits)
  note i = resolve_and_guard_inside [OF state_okD(1,2,6,3) [OF assms(1)] g]
  show "state_ok rn st'" using assms(1) st' i(1) by (simp add: state_ok_def)
  show "st' = st\<lparr>st_cache := st_cache st'\<rparr>" using st' by simp
  show "r = Inr p \<Longrightarrow> inside rn p" "r \<noteq> Inl Panicked" using i(2,3) by blast+
qed

lemma state_resolve_existing_ok:
  assumes "state_ok rn st" "state_resolve_existing x st rp = Some p"
  obtains ns where "p = abs_path (rn @ ns)" "real_node (st_fs st) (rn @ ns)" "\<forall>w\<in>set (rn @ ns). valid_name w"
proof -
  have r: "resolve_existing (ext_pct x) (st_fs st) (st_root_dir st) (abs_path rn) rp = Some p"
    using assms(2) state_okD(5) [OF assms(1)] by (simp add: state_resolve_existing_def)
  obtain q where q: "p = abs_path q" "real_node (st_fs st) q" "\<forall>w\<in>set q. valid_name w"
      and sw: "path_starts_with p (abs_path rn)"
    using r canonicalize_real [OF state_okD(1,2) [OF assms(1)]]
    by (auto simp: resolve_existing_def Let_def split: sum.splits if_splits)
  then obtain ns where "q = rn @ ns"
    using starts_with_abs_paths [OF state_okD(4) [OF assms(1)] valid_safe_list [OF q(3)]]
    by (auto elim: prefixE)
  with q that show thesis by auto
qed

interpretation existing: guarded_resolver "\<lambda>x st rp. (state_resolve_existing x st rp, st)"
proof unfold_locales
  fix rn st x rp p st'
  assume "state_ok rn st" "(state_resolve_existing x st rp, st) = (Some p, st')"
  then show "\<exists>ns. p = abs_path (rn @ ns) \<and> (\<forall>w\<in>set (rn @ ns). safe_name w)"
    using valid_safe by (auto elim!: state_resolve_existing_ok)
qed auto

interpretation guarded: guarded_resolver
  "\<lambda>x st rp. case state_resolve_and_guard x st rp of (r, st') \<Rightarrow> (case r of Inr p \<Rightarrow> Some p | Inl _ \<Rightarrow> None, st')"
proof unfold_locales
  fix rn st x rp p st'
  assume ok: "state_ok rn st"
    and "(case state_resolve_and_guard x st rp of (r, st') \<Rightarrow> (case r of Inr p \<Rightarrow> Some p | Inl _ \<Rightarrow> None, st')) = (Some p, st')"
  then have "state_resolve_and_guard x st rp = (Inr p, st')"
    by (auto split: prod.splits sum.splits)
  from state_resolve_and_guard_ok(3) [OF ok this refl]
  show "\<exists>ns. p = abs_path (rn @ ns) \<and> (\<forall>w\<in>set (rn @ ns). safe_name w)"
    by (rule insideE) auto
next
  fix rn st x rp r st'
  assume ok: "state_ok rn st"
    and "(case state_resolve_and_guard x st rp of (r, st') \<Rightarrow> (case r of Inr p \<Rightarrow> Some p | Inl _ \<Rightarrow> None, st')) = (r, st')"
  then obtain r' where "state_resolve_and_guard x st rp = (r', st')"
    by (auto split: prod.splits)
  with state_resolve_and_guard_ok(1,2) [OF ok this]
  show "state_ok rn st' \<and> st' = st\<lparr>st_cache := st_cache st'\<rparr>" by blast
qed

end
