(* ===== verification/Lock_Handlers.thy ===== *)
theory Lock_Handlers
  imports App_State Cleanup
begin

section \<open>LOCK and UNLOCK (src/handlers/locks.rs)\<close>

text \<open>
  The LOCK handler holds the write guard of the lock store twice: first to refresh or to acquire a
  lock, and, when the path had no locks, again after it has created the file of the resource.
  \<open>lock_phase1\<close> and \<open>lock_phase2\<close> are these two critical sections, functions on the lock store,
  and \<open>handle_lock\<close> runs them with the file creation between them. What other requests may do
  between the two is in the step relation below. The clock is read once in each section.
\<close>

datatype try_acquire = Acquired string | NeedsLockNull

record lock_scan =
  ls_in_owner :: bool
  ls_in_lockscope :: bool
  ls_owner :: "string option"
  ls_scope :: lock_scope

definition lock_body_tag :: "string \<Rightarrow> lock_scan \<Rightarrow> lock_scan" where
  "lock_body_tag name s =
     (if name = ''owner'' then s\<lparr>ls_in_owner := True\<rparr>
      else if name = ''lockscope'' then s\<lparr>ls_in_lockscope := True\<rparr>
      else if name = ''shared'' \<and> ls_in_lockscope s then s\<lparr>ls_scope := Shared\<rparr>
      else s)"

fun lock_body_event :: "lock_scan \<Rightarrow> xml_event \<Rightarrow> lock_scan" where
  "lock_body_event s (Ev_Start e) = lock_body_tag (tag_local e) s"
| "lock_body_event s (Ev_Empty e) = lock_body_tag (tag_local e) s"
| "lock_body_event s (Ev_End name) =
     (if name = ''owner'' then s\<lparr>ls_in_owner := False\<rparr>
      else if name = ''lockscope'' then s\<lparr>ls_in_lockscope := False\<rparr>
      else s)"
| "lock_body_event s (Ev_Text t) =
     (if ls_in_owner s then s\<lparr>ls_owner := Some (from_utf8_lossy t)\<rparr> else s)"
| "lock_body_event s Ev_Other = s"

definition parse_lock_body :: "(string \<Rightarrow> xml_input) \<Rightarrow> string \<Rightarrow> string option \<times> lock_scope" where
  "parse_lock_body reader xml =
     (case reader xml of (es, _) \<Rightarrow>
        (let s = foldl lock_body_event
                   \<lparr>ls_in_owner = False, ls_in_lockscope = False, ls_owner = None, ls_scope = Exclusive\<rparr> es
         in (ls_owner s, ls_scope s)))"

definition build_lock_response :: "lock_info \<Rightarrow> out_event list" where
  "build_lock_response lock =
     [W_Start (el_name EL_PROP) [(''xmlns:D'', ''DAV:'')], w_start EL_LOCK_DISCOVERY] @
     write_activelock lock @ [w_end EL_LOCK_DISCOVERY, w_end EL_PROP]"

definition lock_response :: "string \<Rightarrow> out_event list \<Rightarrow> status \<Rightarrow> reply" where
  "lock_response tok xml st =
     Inr \<lparr>resp_status = st,
          resp_headers = [(''content-type'', ''application/xml; charset=utf-8''),
                          (''lock-token'', ''<'' @ tok @ ''>'')],
          resp_body = Xml xml\<rparr>"

definition try_new_exclusive ::
  "externals \<Rightarrow> system_time \<Rightarrow> lock_info list \<Rightarrow> string list \<Rightarrow> try_acquire app_result \<times> lock_info list" where
  "try_new_exclusive x now entry if_tokens =
     (if entry = [] then (Inr NeedsLockNull, entry)
      else if list_all (\<lambda>l. lk_token l \<in> set if_tokens) entry then
        (Inr (Acquired (generate_lock_token (ext_hash x) now)), [])
      else (Inl LOCKED, entry))"

definition try_new_shared ::
  "externals \<Rightarrow> system_time \<Rightarrow> lock_info list \<Rightarrow> string list \<Rightarrow> try_acquire app_result \<times> lock_info list" where
  "try_new_shared x now entry if_tokens =
     (case find (\<lambda>l. lk_token l \<in> set if_tokens) entry of
        Some existing \<Rightarrow>
          (Inr (Acquired (lk_token existing)), filter (\<lambda>l. lk_token l \<noteq> lk_token existing) entry)
      | None \<Rightarrow>
          if entry = [] then (Inr NeedsLockNull, entry)
          else (Inr (Acquired (generate_lock_token (ext_hash x) now)), entry))"

text \<open>What the first part of the handler takes from the request.\<close>

record lock_request =
  lr_target :: pathbuf
  lr_owner :: "string option"
  lr_scope :: lock_scope
  lr_timeout :: "duration option"
  lr_depth :: depth
  lr_tokens :: "string list"

definition new_lock :: "lock_request \<Rightarrow> string \<Rightarrow> system_time \<Rightarrow> lock_info" where
  "new_lock lr tok now =
     \<lparr>lk_scope = lr_scope lr, lk_token = tok, lk_owner = lr_owner lr, lk_created = now,
      lk_timeout = lr_timeout lr, lk_depth = lr_depth lr\<rparr>"

definition lock_decision ::
  "externals \<Rightarrow> system_time \<Rightarrow> lock_request \<Rightarrow> lock_info list \<Rightarrow> try_acquire app_result \<times> lock_info list" where
  "lock_decision x now lr entry =
     (case check_existing_exclusive now entry (lr_tokens lr) of
        Inl e \<Rightarrow> (Inl e, entry)
      | Inr (Some tok) \<Rightarrow>
          (Inr (Acquired (case lr_scope lr of
                            Exclusive \<Rightarrow> tok
                          | Shared \<Rightarrow> generate_lock_token (ext_hash x) now)),
           filter (\<lambda>l. \<not> is_exclusive l) entry)
      | Inr None \<Rightarrow>
          (case lr_scope lr of
             Exclusive \<Rightarrow> try_new_exclusive x now entry (lr_tokens lr)
           | Shared \<Rightarrow> try_new_shared x now entry (lr_tokens lr)))"

definition entry_of :: "lock_store \<Rightarrow> pathbuf \<Rightarrow> lock_info list" where
  "entry_of locks p = (case map_of locks p of None \<Rightarrow> [] | Some v \<Rightarrow> v)"

definition lock_phase1 ::
  "externals \<Rightarrow> system_time \<Rightarrow> lock_request \<Rightarrow> lock_store \<Rightarrow> reply option \<times> lock_store" where
  "lock_phase1 x now lr locks =
     (case find_and_refresh_ancestor_lock now locks (lr_target lr) (\<lambda>l. lk_token l \<in> set (lr_tokens lr)) of
        (Some found, locks') \<Rightarrow>
          (Some (lock_response (lk_token found) (build_lock_response found) OK), locks')
      | (None, _) \<Rightarrow>
          (let locks0 = entry_or_default (lr_target lr) [] locks
           in case lock_decision x now lr (entry_of locks0 (lr_target lr)) of
                (Inl e, entry) \<Rightarrow> (Some (Inl e), AList.update (lr_target lr) entry locks0)
              | (Inr (Acquired tok), entry) \<Rightarrow>
                  (let lock = new_lock lr tok now
                   in (Some (lock_response tok (build_lock_response lock) OK),
                       AList.update (lr_target lr) (entry @ [lock]) locks0))
              | (Inr NeedsLockNull, entry) \<Rightarrow> (None, AList.update (lr_target lr) entry locks0)))"

definition lock_phase2 ::
  "externals \<Rightarrow> system_time \<Rightarrow> lock_request \<Rightarrow> bool \<Rightarrow> lock_store \<Rightarrow> reply \<times> lock_store" where
  "lock_phase2 x now lr created locks =
     (let locks0 = entry_or_default (lr_target lr) [] locks;
          entry = entry_of locks0 (lr_target lr)
      in if entry \<noteq> [] then (Inl LOCKED, locks0)
         else (let tok = generate_lock_token (ext_hash x) now;
                   lock = new_lock lr tok now
               in (lock_response tok (build_lock_response lock) (if created then CREATED else OK),
                   AList.update (lr_target lr) (entry @ [lock]) locks0)))"

definition ensure_lock_null_resource :: "pathbuf \<Rightarrow> fs \<Rightarrow> bool app_result \<times> fs" where
  "ensure_lock_null_resource target f =
     (case file_create_new f target of
        (Inr _, f') \<Rightarrow> (Inr True, f')
      | (Inl AlreadyExists, f') \<Rightarrow> (Inr False, f')
      | (Inl _, f') \<Rightarrow> (Inl INTERNAL_SERVER_ERROR, f'))"

definition prepare_lock :: "externals \<Rightarrow> request \<Rightarrow> app_state \<Rightarrow> lock_request app_result \<times> app_state" where
  "prepare_lock x req st =
     (let request_path = trim_end_matches sep (req_path req); headers = req_headers req
      in case state_resolve_and_guard x st request_path of
           (r, st') \<Rightarrow>
             (case or_invalid r FORBIDDEN of
                Inl e \<Rightarrow> (Inl e, st')
              | Inr target \<Rightarrow>
                  (case opt_or_status (req_bytes req) BAD_REQUEST of
                     Inl e \<Rightarrow> (Inl e, st')
                   | Inr body_bytes \<Rightarrow>
                       (case parse_lock_body (ext_reader x) body_bytes of
                          (own, sc) \<Rightarrow>
                            (Inr \<lparr>lr_target = target, lr_owner = own, lr_scope = sc,
                                  lr_timeout = (case parse_timeout headers of
                                                  Some t \<Rightarrow> Some t
                                                | None \<Rightarrow> if st_lock_timeout st' = 0 then None
                                                          else Some (st_lock_timeout st')),
                                  lr_depth = parse_depth headers,
                                  lr_tokens = concat (map positive_tokens (parse_if_header headers))\<rparr>, st')))))"

definition handle_lock :: handler where
  "handle_lock x now req st =
     (case prepare_lock x req st of
        (Inl e, st1) \<Rightarrow> (Inl e, st1)
      | (Inr lr, st1) \<Rightarrow>
          (case lock_phase1 x now lr (st_locks st1) of
             (Some r, locks) \<Rightarrow> (r, st1\<lparr>st_locks := locks\<rparr>)
           | (None, locks) \<Rightarrow>
               (case ensure_lock_null_resource (lr_target lr) (st_fs st1) of
                  (Inl e, f) \<Rightarrow> (Inl e, st1\<lparr>st_locks := locks, st_fs := f\<rparr>)
                | (Inr created, f) \<Rightarrow>
                    (case lock_phase2 x now lr created locks of
                       (r, locks') \<Rightarrow> (r, st1\<lparr>st_locks := locks', st_fs := f\<rparr>)))))"

definition unlock_store :: "pathbuf \<Rightarrow> string \<Rightarrow> lock_store \<Rightarrow> bool \<times> lock_store" where
  "unlock_store fs_path tok locks =
     (case map_of locks fs_path of
        None \<Rightarrow> (False, locks)
      | Some entry \<Rightarrow>
          (let entry' = filter (\<lambda>l. lk_token l \<noteq> tok) entry
           in (length entry' < length entry, AList.update fs_path entry' locks)))"

definition handle_unlock :: handler where
  "handle_unlock x now req st =
     (case opt_or_status (parse_lock_token_header (req_headers req)) BAD_REQUEST of
        Inl e \<Rightarrow> (Inl e, st)
      | Inr tok \<Rightarrow>
          (case opt_or_status (state_resolve_existing x st (req_path req)) NOT_FOUND of
             Inl e \<Rightarrow> (Inl e, st)
           | Inr fs_path \<Rightarrow>
               (case unlock_store fs_path tok (st_locks st) of
                  (removed, locks) \<Rightarrow>
                    (if removed then empty_reply NO_CONTENT else Inl FORBIDDEN, st\<lparr>st_locks := locks\<rparr>))))"

subsection \<open>One critical section\<close>

lemma active_slice_append [simp]:
  "active_slice now (a @ b) = active_slice now a @ active_slice now b"
  by (simp add: active_slice_def)

lemma active_slice_set: "l \<in> set (active_slice now e) \<longleftrightarrow> l \<in> set e \<and> \<not> is_expired now l"
  by (auto simp: active_slice_def)

lemma active_slice_filter: "active_slice now (filter P e) = filter P (active_slice now e)"
  by (induction e) (auto simp: active_slice_def)

definition entry_ok :: "system_time \<Rightarrow> lock_info list \<Rightarrow> bool" where
  "entry_ok now e \<longleftrightarrow>
     (Exclusive \<in> set (map lk_scope (active_slice now e)) \<longrightarrow> length (active_slice now e) = 1)"

lemma entry_ok_Nil [simp]: "entry_ok now []"
  by (simp add: entry_ok_def active_slice_def)

lemma entry_ok_single: "active_slice now e = [] \<Longrightarrow> entry_ok now (e @ [l])"
  by (auto simp: entry_ok_def active_slice_def)

lemma entry_ok_one [simp]: "entry_ok now [l]"
  by (auto simp: entry_ok_def active_slice_def)

lemma entry_ok_filter:
  assumes "entry_ok now e"
  shows "entry_ok now (filter P e)"
  unfolding entry_ok_def active_slice_filter
proof
  let ?a = "active_slice now e"
  assume "Exclusive \<in> set (map lk_scope (filter P ?a))"
  then obtain l where l: "l \<in> set (filter P ?a)" "lk_scope l = Exclusive" by auto
  then have "Exclusive \<in> set (map lk_scope ?a)" by force
  with assms have "length ?a = 1" by (simp add: entry_ok_def)
  moreover have "length (filter P ?a) \<le> length ?a" by simp
  moreover have "0 < length (filter P ?a)" using l(1) by (rule length_pos_if_in_set)
  ultimately show "length (filter P ?a) = 1" by linarith
qed

lemma find_SomeD: "find P xs = Some y \<Longrightarrow> P y \<and> y \<in> set xs"
  by (induction xs) (auto split: if_splits)

lemma entry_ok_mono:
  assumes "entry_ok now e" "now \<le> now'"
  shows "entry_ok now' e"
proof -
  have "active_slice now' e = filter (\<lambda>l. \<not> is_expired now' l) (active_slice now e)"
    using expired_mono [OF _ assms(2)] by (induction e) (auto simp: active_slice_def)
  then have "entry_ok now' e \<longleftrightarrow> entry_ok now (filter (\<lambda>l. \<not> is_expired now' l) (active_slice now e))"
    by (simp add: entry_ok_def active_slice_filter)
  moreover have "entry_ok now (active_slice now e)" using assms(1) by (simp add: entry_ok_def)
  ultimately show ?thesis using entry_ok_filter by blast
qed

lemma entry_ok_refreshed: "refreshed now e e' \<Longrightarrow> entry_ok now e \<Longrightarrow> entry_ok now e'"
  using refreshed_scopes [of now e e'] unfolding entry_ok_def by (metis length_map)

lemma check_existing_exclusive_cases:
  "check_existing_exclusive now e toks = Inr None \<longleftrightarrow> Exclusive \<notin> set (map lk_scope (active_slice now e))"
  "check_existing_exclusive now e toks = Inr (Some t) \<Longrightarrow>
     t \<in> set toks \<and> (\<exists>l\<in>set (active_slice now e). lk_scope l = Exclusive \<and> lk_token l = t)"
proof -
  show "check_existing_exclusive now e toks = Inr None \<longleftrightarrow>
      Exclusive \<notin> set (map lk_scope (active_slice now e))"
  proof (cases "find is_exclusive (active_slice now e)")
    case None
    then have "Exclusive \<notin> set (map lk_scope (active_slice now e))" by (auto simp: find_None_iff)
    with None show ?thesis by (simp add: check_existing_exclusive_def)
  next
    case (Some l)
    from find_SomeD [OF this] have "Exclusive \<in> set (map lk_scope (active_slice now e))" by force
    with Some show ?thesis by (auto simp: check_existing_exclusive_def)
  qed
  show "t \<in> set toks \<and> (\<exists>l\<in>set (active_slice now e). lk_scope l = Exclusive \<and> lk_token l = t)"
    if "check_existing_exclusive now e toks = Inr (Some t)"
    using that by (auto simp: check_existing_exclusive_def dest!: find_SomeD split: option.splits if_splits)
qed

lemma lock_decision_ok:
  assumes ok: "entry_ok now e" and d: "lock_decision x now lr e = (r, e')"
  shows "case r of
           Inl st \<Rightarrow> st = LOCKED \<and> e' = e
         | Inr NeedsLockNull \<Rightarrow> e = [] \<and> e' = []
         | Inr (Acquired tok) \<Rightarrow> entry_ok now (e' @ [new_lock lr tok now])"
proof (cases "check_existing_exclusive now e (lr_tokens lr)")
  case (Inl err)
  then have "err = LOCKED"
    by (auto simp: check_existing_exclusive_def split: option.splits if_splits)
  with Inl d show ?thesis by (auto simp: lock_decision_def)
next
  case (Inr m)
  show ?thesis
  proof (cases m)
    case None
    then have ne: "Exclusive \<notin> set (map lk_scope (active_slice now e))"
      using Inr check_existing_exclusive_cases(1) by blast
    show ?thesis
    proof (cases "lr_scope lr")
      case Exclusive
      with Inr None d show ?thesis
        by (auto simp: lock_decision_def try_new_exclusive_def split: if_splits)
    next
      case Shared
      have "entry_ok now (filter P e @ [new_lock lr tok now])" for P tok
        using ne Shared by (auto simp: entry_ok_def active_slice_filter active_slice_def new_lock_def)
      from this [of "\<lambda>_. True"] this Inr None Shared d show ?thesis
        by (auto simp: lock_decision_def try_new_shared_def split: option.splits if_splits)
    qed
  next
    case (Some t)
    then obtain l where l: "l \<in> set (active_slice now e)" "lk_scope l = Exclusive"
      using Inr check_existing_exclusive_cases(2) by blast
    then have "length (active_slice now e) = 1" using ok by (force simp: entry_ok_def)
    with l have "active_slice now e = [l]" by (cases "active_slice now e") auto
    with l(2) have "active_slice now (filter (\<lambda>l. \<not> is_exclusive l) e) = []"
      by (simp add: active_slice_filter)
    with Inr Some d show ?thesis
      by (auto simp: lock_decision_def intro: entry_ok_single split: lock_scope.splits)
  qed
qed

definition exclusive_ok :: "system_time \<Rightarrow> lock_store \<Rightarrow> bool" where
  "exclusive_ok now locks \<longleftrightarrow> hm_inv locks \<and> (\<forall>p e. map_of locks p = Some e \<longrightarrow> entry_ok now e)"

lemma exclusive_ok_entry: "exclusive_ok now locks \<Longrightarrow> entry_ok now (entry_of locks p)"
  by (auto simp: exclusive_ok_def entry_of_def split: option.splits)

lemma exclusive_ok_update:
  "exclusive_ok now locks \<Longrightarrow> entry_ok now e \<Longrightarrow> exclusive_ok now (AList.update p e locks)"
  by (simp add: exclusive_ok_def hm_simps)

lemma exclusive_ok_default: "exclusive_ok now locks \<Longrightarrow> exclusive_ok now (entry_or_default p [] locks)"
  by (auto simp: exclusive_ok_def hm_simps split: option.splits if_splits)

lemma exclusive_ok_refresh:
  assumes "exclusive_ok now locks" "find_and_refresh_ancestor_lock now locks p q = (r, locks')"
  shows "exclusive_ok now locks'"
  unfolding exclusive_ok_def
proof (intro conjI allI impI)
  note g = refresh_candidates_get [OF assms(2) [unfolded find_and_refresh_ancestor_lock_def]]
  show "hm_inv locks'" using g assms(1) by (simp add: exclusive_ok_def)
  fix k e assume e: "map_of locks' k = Some e"
  from g have "case map_of locks' k of None \<Rightarrow> map_of locks k = None
      | Some infos' \<Rightarrow> \<exists>infos. map_of locks k = Some infos \<and> refreshed now infos infos'" by blast
  with e obtain e0 where "map_of locks k = Some e0" "refreshed now e0 e" by auto
  with assms(1) entry_ok_refreshed show "entry_ok now e" by (auto simp: exclusive_ok_def)
qed

lemma lock_phase1_ok:
  assumes "exclusive_ok now locks" "lock_phase1 x now lr locks = (r, locks')"
  shows "exclusive_ok now locks'"
proof -
  obtain f lf where ff: "find_and_refresh_ancestor_lock now locks (lr_target lr)
      (\<lambda>l. lk_token l \<in> set (lr_tokens lr)) = (f, lf)" by fastforce
  show ?thesis
  proof (cases f)
    case (Some a)
    with ff assms(2) exclusive_ok_refresh [OF assms(1) ff] show ?thesis by (simp add: lock_phase1_def)
  next
    case None
    let ?l = "entry_or_default (lr_target lr) [] locks"
    note ok = exclusive_ok_default [OF assms(1), of "lr_target lr"]
    obtain d e where d: "lock_decision x now lr (entry_of ?l (lr_target lr)) = (d, e)" by fastforce
    note dk = lock_decision_ok [OF exclusive_ok_entry [OF ok] d]
    show ?thesis
    proof (cases d)
      case (Inl st)
      with None ff d dk assms(2) exclusive_ok_update [OF ok exclusive_ok_entry [OF ok]]
      show ?thesis by (auto simp: lock_phase1_def Let_def)
    next
      case (Inr t)
      with None ff d dk assms(2) exclusive_ok_update [OF ok] show ?thesis
        by (cases t) (auto simp: lock_phase1_def Let_def)
    qed
  qed
qed

lemma lock_phase2_ok:
  assumes "exclusive_ok now locks" "lock_phase2 x now lr created locks = (r, locks')"
  shows "exclusive_ok now locks'"
proof -
  let ?l = "entry_or_default (lr_target lr) [] locks"
  note ok = exclusive_ok_default [OF assms(1), of "lr_target lr"]
  show ?thesis using assms(2) ok exclusive_ok_update [OF ok]
    by (auto simp: lock_phase2_def Let_def split: if_splits)
qed

lemma unlock_store_ok:
  "exclusive_ok now locks \<Longrightarrow> unlock_store p tok locks = (b, locks') \<Longrightarrow> exclusive_ok now locks'"
  by (auto simp: unlock_store_def Let_def exclusive_ok_def hm_simps entry_ok_filter
      split: option.splits if_splits)

lemma prune_locks_ok: "exclusive_ok now locks \<Longrightarrow> exclusive_ok now (prune_locks now' locks)"
  by (auto simp: exclusive_ok_def prune_locks_inv prune_locks_get entry_ok_filter
      active_slice_def [of now'] split: option.splits if_splits)

subsection \<open>All interleavings of lock operations\<close>

text \<open>
  The lock store as concurrent requests change it. A world is the clock, the store and the LOCK
  requests that are between their two critical sections. The clock does not go back; every
  critical section is one step; the list that stands for the hash map may be reordered at any
  time, as the iteration order of a hash map is unspecified.
\<close>

record lock_world =
  lw_now :: system_time
  lw_locks :: lock_store
  lw_pending :: "lock_request list"

inductive lock_step :: "externals \<Rightarrow> lock_world \<Rightarrow> lock_world \<Rightarrow> bool" for x where
  tick: "lw_now w \<le> t \<Longrightarrow> lock_step x w (w\<lparr>lw_now := t\<rparr>)"
| lock_done: "lock_phase1 x (lw_now w) lr (lw_locks w) = (Some r, locks') \<Longrightarrow>
    lock_step x w (w\<lparr>lw_locks := locks'\<rparr>)"
| lock_wait: "lock_phase1 x (lw_now w) lr (lw_locks w) = (None, locks') \<Longrightarrow>
    lock_step x w (w\<lparr>lw_locks := locks', lw_pending := lr # lw_pending w\<rparr>)"
| lock_commit: "lr \<in> set (lw_pending w) \<Longrightarrow>
    lock_phase2 x (lw_now w) lr created (lw_locks w) = (r, locks') \<Longrightarrow>
    lock_step x w (w\<lparr>lw_locks := locks', lw_pending := remove1 lr (lw_pending w)\<rparr>)"
| lock_abort: "lr \<in> set (lw_pending w) \<Longrightarrow>
    lock_step x w (w\<lparr>lw_pending := remove1 lr (lw_pending w)\<rparr>)"
| unlock: "unlock_store p tok (lw_locks w) = (b, locks') \<Longrightarrow>
    lock_step x w (w\<lparr>lw_locks := locks'\<rparr>)"
| cleanup: "lock_step x w (w\<lparr>lw_locks := prune_locks (lw_now w) (lw_locks w)\<rparr>)"
| rehash: "mset locks' = mset (lw_locks w) \<Longrightarrow> lock_step x w (w\<lparr>lw_locks := locks'\<rparr>)"

inductive_cases lock_stepE: "lock_step x w w'"

definition lock_start :: "system_time \<Rightarrow> lock_world" where
  "lock_start now = \<lparr>lw_now = now, lw_locks = [], lw_pending = []\<rparr>"

lemma exclusive_ok_mono: "exclusive_ok now locks \<Longrightarrow> now \<le> now' \<Longrightarrow> exclusive_ok now' locks"
  unfolding exclusive_ok_def using entry_ok_mono by blast

lemma exclusive_ok_perm:
  "exclusive_ok now locks \<Longrightarrow> mset locks' = mset locks \<Longrightarrow> exclusive_ok now locks'"
  using hm_perm_get [of locks locks'] by (simp add: exclusive_ok_def)

lemma lock_step_ok:
  "lock_step x w w' \<Longrightarrow> exclusive_ok (lw_now w) (lw_locks w) \<Longrightarrow> exclusive_ok (lw_now w') (lw_locks w')"
  by (induction rule: lock_step.induct)
    (auto intro: exclusive_ok_mono lock_phase1_ok lock_phase2_ok unlock_store_ok prune_locks_ok exclusive_ok_perm)

lemma lock_reachable_ok:
  "(lock_step x)\<^sup>*\<^sup>* (lock_start now) w \<Longrightarrow> exclusive_ok (lw_now w) (lw_locks w)"
proof (induction rule: rtranclp_induct)
  case base
  show ?case by (simp add: lock_start_def exclusive_ok_def)
next
  case (step w w')
  then show ?case by (rule_tac lock_step_ok)
qed

text \<open>
  Exclusive locks exclude. In every state that any interleaving of LOCK requests (whose two
  critical sections others may come between), UNLOCK requests, cleanup rounds and the passage of
  time reaches, a path with an active exclusive lock has no other active lock, exclusive or shared.
\<close>

theorem exclusive_locks_exclude:
  assumes "(lock_step x)\<^sup>*\<^sup>* (lock_start now) w"
    and "map_of (lw_locks w) p = Some e"
    and "l \<in> set (active_slice (lw_now w) e)" and "lk_scope l = Exclusive"
  shows "active_slice (lw_now w) e = [l]"
proof -
  have "entry_ok (lw_now w) e"
    using lock_reachable_ok [OF assms(1)] assms(2) by (simp add: exclusive_ok_def)
  moreover have "Exclusive \<in> set (map lk_scope (active_slice (lw_now w) e))"
    using assms(3,4) by force
  ultimately have "length (active_slice (lw_now w) e) = 1" by (simp add: entry_ok_def)
  with assms(3) show ?thesis by (cases "active_slice (lw_now w) e") auto
qed

definition demo_externals :: externals where
  "demo_externals =
     \<lparr>ext_pct = id, ext_encode = id, ext_hash = (\<lambda>n. n), ext_reader = (\<lambda>_. ([], None)),
      ext_mime = (\<lambda>_. None), ext_times = (\<lambda>_. (0, None)), ext_dir_size = (\<lambda>_. 4096),
      ext_statx = (\<lambda>_ _. demo_submission)\<rparr>"

definition demo_lock_request :: lock_request where
  "demo_lock_request =
     \<lparr>lr_target = ''/srv/a'', lr_owner = None, lr_scope = Exclusive, lr_timeout = None,
      lr_depth = Infinity, lr_tokens = []\<rparr>"

definition demo_world :: lock_world where
  "demo_world =
     \<lparr>lw_now = 7, lw_locks = [(''/srv/a'', [new_lock demo_lock_request ''opaquelocktoken:0000000000000007'' 7])],
      lw_pending = []\<rparr>"

lemma demo_world_reachable: "(lock_step demo_externals)\<^sup>*\<^sup>* (lock_start 7) demo_world"
proof -
  let ?w1 = "(lock_start 7)\<lparr>lw_locks := [(''/srv/a'', [])], lw_pending := [demo_lock_request]\<rparr>"
  have p1: "lock_phase1 demo_externals 7 demo_lock_request [] = (None, [(''/srv/a'', [])])"
    by code_simp
  have "lock_step demo_externals (lock_start 7) ?w1"
    using lock_wait [of demo_externals "lock_start 7" demo_lock_request] p1 by (simp add: lock_start_def)
  moreover have "lock_step demo_externals ?w1 demo_world"
  proof -
    have "snd (lock_phase2 demo_externals 7 demo_lock_request True [(''/srv/a'', [])]) = lw_locks demo_world"
      by code_simp
    then obtain r where "lock_phase2 demo_externals 7 demo_lock_request True [(''/srv/a'', [])] =
        (r, lw_locks demo_world)" by (metis prod.collapse)
    then show ?thesis
      using lock_commit [of demo_lock_request ?w1 demo_externals True]
      by (simp add: lock_start_def demo_world_def)
  qed
  ultimately show ?thesis by (metis converse_rtranclp_into_rtranclp r_into_rtranclp)
qed

theorem exclusive_locks_exclude_witness:
  "map_of (lw_locks demo_world) ''/srv/a'' =
     Some [new_lock demo_lock_request ''opaquelocktoken:0000000000000007'' 7] \<and>
   active_slice (lw_now demo_world) [new_lock demo_lock_request ''opaquelocktoken:0000000000000007'' 7] =
     [new_lock demo_lock_request ''opaquelocktoken:0000000000000007'' 7]"
proof -
  have m: "map_of (lw_locks demo_world) ''/srv/a'' =
      Some [new_lock demo_lock_request ''opaquelocktoken:0000000000000007'' 7]"
    by (simp add: demo_world_def)
  have l: "new_lock demo_lock_request ''opaquelocktoken:0000000000000007'' 7 \<in>
      set (active_slice (lw_now demo_world) [new_lock demo_lock_request ''opaquelocktoken:0000000000000007'' 7])"
    by (simp add: active_slice_def is_expired_def new_lock_def demo_lock_request_def)
  have s: "lk_scope (new_lock demo_lock_request ''opaquelocktoken:0000000000000007'' 7) = Exclusive"
    by (simp add: new_lock_def demo_lock_request_def)
  show ?thesis using exclusive_locks_exclude [OF demo_world_reachable m l s] m by simp
qed

subsection \<open>What a LOCK request gets\<close>

lemma refresh_none: "(\<And>l. \<not> q l) \<Longrightarrow> refresh_first now q infos = None"
  by (induction infos) auto

lemma no_token_no_refresh:
  "lr_tokens lr = [] \<Longrightarrow>
     find_and_refresh_ancestor_lock now locks p (\<lambda>l. lk_token l \<in> set (lr_tokens lr)) = (None, locks)"
proof -
  assume "lr_tokens lr = []"
  then have "refresh_first now (\<lambda>l. lk_token l \<in> set (lr_tokens lr)) infos = None" for infos
    by (simp add: refresh_none)
  then have "refresh_candidates now (\<lambda>l. lk_token l \<in> set (lr_tokens lr)) ps locks = (None, locks)" for ps
    by (induction ps) (auto split: option.splits bind_splits)
  then show ?thesis by (simp add: find_and_refresh_ancestor_lock_def)
qed

lemma phase1_no_tokens:
  assumes "lr_tokens lr = []"
  shows "lock_phase1 x now lr locks =
     (let locks0 = entry_or_default (lr_target lr) [] locks
      in case lock_decision x now lr (entry_of locks0 (lr_target lr)) of
           (Inl e, entry) \<Rightarrow> (Some (Inl e), AList.update (lr_target lr) entry locks0)
         | (Inr (Acquired tok), entry) \<Rightarrow>
             (let lock = new_lock lr tok now
              in (Some (lock_response tok (build_lock_response lock) OK),
                  AList.update (lr_target lr) (entry @ [lock]) locks0))
         | (Inr NeedsLockNull, entry) \<Rightarrow> (None, AList.update (lr_target lr) entry locks0))"
  unfolding lock_phase1_def no_token_no_refresh [OF assms] prod.case option.case by (rule refl)

lemma entry_of_default [simp]: "entry_of (entry_or_default p [] locks) p = entry_of locks p"
  by (simp add: entry_of_def hm_simps split: option.splits)

lemma locked_reply:
  assumes "prepare_lock x req st = (Inr lr, st1)" and "lr_tokens lr = []"
    and e: "map_of (st_locks st1) (lr_target lr) = Some e"
    and d: "lock_decision x now lr e = (Inl LOCKED, e)"
    and "handle_lock x now req st = (r, st')"
  shows "r = Inl LOCKED \<and> st_fs st' = st_fs st1 \<and> (\<forall>p. map_of (st_locks st') p = map_of (st_locks st1) p)"
proof -
  have eo: "entry_of (st_locks st1) (lr_target lr) = e" using e by (simp add: entry_of_def)
  have "lock_phase1 x now lr (st_locks st1) =
      (Some (Inl LOCKED), AList.update (lr_target lr) e (entry_or_default (lr_target lr) [] (st_locks st1)))"
    unfolding phase1_no_tokens [OF assms(2)] entry_of_default eo Let_def d by simp
  then have "r = Inl LOCKED" "st' = st1\<lparr>st_locks := AList.update (lr_target lr) e
      (entry_or_default (lr_target lr) [] (st_locks st1))\<rparr>"
    using assms(1,5) by (simp_all add: handle_lock_def)
  with e show ?thesis by (simp add: hm_simps)
qed

text \<open>
  A conflicting LOCK is refused. When the path has an active exclusive lock, a LOCK request that
  presents no token, of either scope, is answered 423 and changes neither the tree nor any lock.
\<close>

theorem conflicting_lock_refused:
  assumes "prepare_lock x req st = (Inr lr, st1)" and "lr_tokens lr = []"
    and "map_of (st_locks st1) (lr_target lr) = Some e"
    and "l \<in> set (active_slice now e)" and "lk_scope l = Exclusive"
    and "handle_lock x now req st = (r, st')"
  shows "r = Inl LOCKED \<and> st_fs st' = st_fs st1 \<and> (\<forall>p. map_of (st_locks st') p = map_of (st_locks st1) p)"
proof -
  have "Exclusive \<in> set (map lk_scope (active_slice now e))" using assms(4,5) by force
  then have "check_existing_exclusive now e [] \<noteq> Inr None"
    using check_existing_exclusive_cases(1) by blast
  then have "check_existing_exclusive now e [] = Inl LOCKED"
    by (auto simp: check_existing_exclusive_def split: option.splits)
  then have d: "lock_decision x now lr e = (Inl LOCKED, e)"
    using assms(2) by (simp add: lock_decision_def)
  show ?thesis by (rule locked_reply [OF assms(1-3) d assms(6)])
qed

definition demo_state :: "lock_info list \<Rightarrow> app_state" where
  "demo_state e =
     \<lparr>st_fs = demo_fs, st_root_dir = ''/srv'', st_root_canonical = ''/srv'', st_dead_props = [],
      st_locks = [(''/srv/a/n'', e)], st_cache = [], st_lock_timeout = 0\<rparr>"

definition demo_req :: "string \<Rightarrow> string \<Rightarrow> header_map \<Rightarrow> request" where
  "demo_req m p hs =
     \<lparr>req_method = m, req_path = p, req_headers = hs, req_bytes = Some [], req_stream = ([], True)\<rparr>"

definition demo_prepared :: lock_request where
  "demo_prepared =
     \<lparr>lr_target = ''/srv/a/n'', lr_owner = None, lr_scope = Exclusive, lr_timeout = None,
      lr_depth = Infinity, lr_tokens = []\<rparr>"

lemma demo_prepare:
  "prepare_lock demo_externals (demo_req ''LOCK'' ''/a/n'' []) (demo_state e) =
     (Inr demo_prepared, (demo_state e)\<lparr>st_cache := [(''/srv/a'', ''/srv/a'')]\<rparr>)"
proof -
  have g: "resolve_and_guard id demo_fs ''/srv'' ''/srv'' ''/a/n'' [] =
      (Inr ''/srv/a/n'', [(''/srv/a'', ''/srv/a'')])" by code_simp
  have t: "trim_end_matches sep ''/a/n'' = ''/a/n''" by code_simp
  show ?thesis
    by (simp add: prepare_lock_def demo_req_def demo_state_def demo_externals_def Let_def t g
        state_resolve_and_guard_def parse_lock_body_def parse_timeout_def parse_depth_def
        parse_if_header_def header_str_def demo_prepared_def)
qed

theorem conflicting_lock_refused_witness:
  "fst (handle_lock demo_externals 10 (demo_req ''LOCK'' ''/a/n'' [])
      (demo_state [demo_lock Exclusive ''t'' Zero])) = Inl LOCKED"
proof -
  let ?st = "demo_state [demo_lock Exclusive ''t'' Zero]"
  have tk: "lr_tokens demo_prepared = []" by (simp add: demo_prepared_def)
  have m: "map_of (st_locks (?st\<lparr>st_cache := [(''/srv/a'', ''/srv/a'')]\<rparr>)) (lr_target demo_prepared) =
      Some [demo_lock Exclusive ''t'' Zero]"
    by (simp add: demo_state_def demo_prepared_def)
  have l: "demo_lock Exclusive ''t'' Zero \<in> set (active_slice 10 [demo_lock Exclusive ''t'' Zero])"
    "lk_scope (demo_lock Exclusive ''t'' Zero) = Exclusive"
    by (simp_all add: active_slice_def is_expired_def elapsed_def demo_lock_def)
  show ?thesis by (rule conjunct1 [OF conflicting_lock_refused [OF demo_prepare tk m l prod.collapse [symmetric]]])
qed

text \<open>
  Locks that have expired still block. When all locks of a path have expired but the cleanup task
  has not removed them, a LOCK request for an exclusive lock that presents no token is answered
  423, although no active lock stands against it.
\<close>

theorem expired_locks_block_exclusive:
  assumes "prepare_lock x req st = (Inr lr, st1)" and "lr_tokens lr = []" and "lr_scope lr = Exclusive"
    and "map_of (st_locks st1) (lr_target lr) = Some e" and "e \<noteq> []" and "active_slice now e = []"
    and "handle_lock x now req st = (r, st')"
  shows "r = Inl LOCKED"
proof -
  have "check_existing_exclusive now e [] = Inr None"
    using assms(6) by (simp add: check_existing_exclusive_def)
  then have d: "lock_decision x now lr e = (Inl LOCKED, e)"
    using assms(2,3,5) by (cases e) (simp_all add: lock_decision_def try_new_exclusive_def)
  show ?thesis by (rule conjunct1 [OF locked_reply [OF assms(1,2,4) d assms(7)]])
qed

theorem expired_locks_block_exclusive_witness:
  "active_slice 100 [demo_lock Exclusive ''t'' Zero] = [] \<and>
   fst (handle_lock demo_externals 100 (demo_req ''LOCK'' ''/a/n'' [])
      (demo_state [demo_lock Exclusive ''t'' Zero])) = Inl LOCKED"
proof -
  let ?st = "demo_state [demo_lock Exclusive ''t'' Zero]"
  have tk: "lr_tokens demo_prepared = []" "lr_scope demo_prepared = Exclusive"
    by (simp_all add: demo_prepared_def)
  have m: "map_of (st_locks (?st\<lparr>st_cache := [(''/srv/a'', ''/srv/a'')]\<rparr>)) (lr_target demo_prepared) =
      Some [demo_lock Exclusive ''t'' Zero]"
    by (simp add: demo_state_def demo_prepared_def)
  have a: "active_slice 100 [demo_lock Exclusive ''t'' Zero] = []"
    by (simp add: active_slice_def is_expired_def elapsed_def demo_lock_def)
  show ?thesis
    by (rule conjI [OF a expired_locks_block_exclusive [OF demo_prepare tk m _ a prod.collapse [symmetric]]]) simp
qed

text \<open>
  A granted lock can be released with its token. After the second critical section of a LOCK
  request on a path without locks, UNLOCK with the token the reply carries removes the lock and
  leaves the path without locks, and a second UNLOCK with the token fails.
\<close>

theorem lock_unlock_roundtrip:
  assumes "entry_of locks (lr_target lr) = []"
    and "lock_phase2 x now lr created locks = (r, locks1)"
  shows "\<exists>tok locks2.
     r = lock_response tok (build_lock_response (new_lock lr tok now)) (if created then CREATED else OK) \<and>
     map_of locks1 (lr_target lr) = Some [new_lock lr tok now] \<and>
     unlock_store (lr_target lr) tok locks1 = (True, locks2) \<and>
     map_of locks2 (lr_target lr) = Some [] \<and>
     fst (unlock_store (lr_target lr) tok locks2) = False \<and>
     (\<forall>p. p \<noteq> lr_target lr \<longrightarrow> map_of locks2 p = map_of locks p)"
proof -
  define tok where "tok = generate_lock_token (ext_hash x) now"
  define l2 where "l2 = AList.update (lr_target lr) [] locks1"
  have r: "r = lock_response tok (build_lock_response (new_lock lr tok now)) (if created then CREATED else OK)"
    and l1: "locks1 = AList.update (lr_target lr) [new_lock lr tok now] (entry_or_default (lr_target lr) [] locks)"
    using assms by (simp_all add: lock_phase2_def Let_def tok_def)
  have "unlock_store (lr_target lr) tok locks1 = (True, l2)"
    by (simp add: unlock_store_def l1 l2_def hm_simps new_lock_def)
  moreover have "map_of l2 (lr_target lr) = Some []" by (simp add: l2_def hm_simps)
  moreover from this have "fst (unlock_store (lr_target lr) tok l2) = False"
    by (simp add: unlock_store_def)
  ultimately show ?thesis
    using r by (intro exI [of _ tok] exI [of _ l2]) (simp add: l1 l2_def hm_simps)
qed

theorem lock_unlock_roundtrip_witness:
  "\<exists>tok locks2.
     unlock_store ''/srv/a/n'' tok (snd (lock_phase2 demo_externals 7 demo_prepared True [])) = (True, locks2) \<and>
     map_of locks2 ''/srv/a/n'' = Some []"
  using lock_unlock_roundtrip [of "[]" demo_prepared demo_externals 7 True, OF _ prod.collapse [symmetric]]
  by (auto simp: entry_of_def demo_prepared_def)

end
