(* ===== verification/Lock_Middleware.thy ===== *)
theory Lock_Middleware
  imports Lock_Handlers
begin

section \<open>Lock enforcement (src/middleware/lock.rs)\<close>

text \<open>
  The middleware in front of the handlers. A middleware is a function from the next handler to a
  handler; \<open>run_next\<close> is \<open>Ok(next.run(req).await)\<close>, where an error status of the handler has
  become a response. The resolver may fill the canonical cache, so the state is threaded.
\<close>

definition run_next :: "handler \<Rightarrow> handler" where
  "run_next next_h x now req st = (case next_h x now req st of (r, st') \<Rightarrow> (Inr (into_response r), st'))"

definition is_path_locked ::
  "system_time \<Rightarrow> lock_store \<Rightarrow> pathbuf \<Rightarrow> if_list list \<Rightarrow> pathbuf \<Rightarrow> string \<Rightarrow> bool" where
  "is_path_locked now locks path ls root_canonical request_path =
     (let infos = (case map_of locks path of Some v \<Rightarrow> v | None \<Rightarrow> [])
      in if \<not> eval_if now ls infos request_path then True
         else walk_locked_ancestors locks path root_canonical
                (\<lambda>infos. list_ex (\<lambda>l. lk_depth l = Infinity) (active_slice now infos) \<and>
                         \<not> eval_if now ls infos request_path))"

definition write_methods :: "http_method list" where
  "write_methods = [PUT, DELETE, MKCOL, PROPPATCH, MOVE, COPY]"

definition check_locked ::
  "externals \<Rightarrow> system_time \<Rightarrow> if_list list \<Rightarrow> string \<Rightarrow> app_state \<Rightarrow> bool \<times> app_state" where
  "check_locked x now ls request_path st =
     (case state_resolve_and_guard x st request_path of
        (Inr p, st') \<Rightarrow> (is_path_locked now (st_locks st') p ls (st_root_canonical st') request_path, st')
      | (Inl _, st') \<Rightarrow> (False, st'))"

definition lock_enforce :: "handler \<Rightarrow> handler" where
  "lock_enforce next_h x now req st =
     (case from_http_method (req_method req) of
        None \<Rightarrow> run_next next_h x now req st
      | Some m \<Rightarrow>
          if m \<notin> set write_methods then run_next next_h x now req st
          else (let request_path = trim_end_matches sep (req_path req);
                    ls = parse_if_header (req_headers req)
                in if ls \<noteq> [] \<and> \<not> list_ex has_lock_token ls \<and> \<not> contains_key (req_headers req) ''lock-token''
                   then (Inl PRECONDITION_FAILED, st)
                   else (case (if m \<noteq> COPY then check_locked x now ls request_path st else (False, st)) of
                           (True, st1) \<Rightarrow> (Inl LOCKED, st1)
                         | (False, st1) \<Rightarrow>
                             (case (if m = COPY \<or> m = MOVE then
                                      (case parse_destination (ext_pct x) (req_headers req) of
                                         None \<Rightarrow> (False, st1)
                                       | Some dest \<Rightarrow> check_locked x now ls (trim_end_matches sep dest) st1)
                                    else (False, st1)) of
                                (True, st2) \<Rightarrow> (Inl LOCKED, st2)
                              | (False, st2) \<Rightarrow> run_next next_h x now req st2))))"

subsection \<open>The specification: which paths are locked\<close>

text \<open>
  A path below the root is locked when it has an active lock of its own, or a proper ancestor
  below the root has an active lock of depth infinity.
\<close>

definition locked_at :: "system_time \<Rightarrow> lock_store \<Rightarrow> string list \<Rightarrow> string list \<Rightarrow> bool" where
  "locked_at now locks rn tn \<longleftrightarrow>
     (\<exists>l\<in>set (entry_of locks (abs_path (rn @ tn))). \<not> is_expired now l) \<or>
     (\<exists>ns l. strict_prefix ns tn \<and> l \<in> set (entry_of locks (abs_path (rn @ ns))) \<and>
             \<not> is_expired now l \<and> lk_depth l = Infinity)"

lemma entry_of_case: "(case map_of locks p of Some v \<Rightarrow> v | None \<Rightarrow> []) = entry_of locks p"
  by (simp add: entry_of_def split: option.splits)

lemma active_Nil_iff: "active_slice now e = [] \<longleftrightarrow> (\<forall>l\<in>set e. is_expired now l)"
  by (auto simp: active_slice_def filter_empty_conv)

lemma entry_of_mem: "l \<in> set (entry_of locks p) \<longleftrightarrow> (\<exists>e. map_of locks p = Some e \<and> l \<in> set e)"
  by (cases "map_of locks p") (simp_all add: entry_of_def)

lemma is_path_locked_no_header:
  assumes "store_ok rn locks" "\<forall>w\<in>set (rn @ tn). safe_name w"
  shows "is_path_locked now locks (abs_path (rn @ tn)) [] (abs_path rn) rp \<longleftrightarrow> locked_at now locks rn tn"
proof -
  let ?f = "\<lambda>infos. list_ex (\<lambda>l. lk_depth l = Infinity) (active_slice now infos) \<and> \<not> eval_if now [] infos rp"
  have f: "?f infos \<longleftrightarrow> (\<exists>l\<in>set infos. \<not> is_expired now l \<and> lk_depth l = Infinity)" for infos
    by (auto simp: eval_if_no_header active_slice_def list_ex_iff filter_empty_conv)
  have inf: "\<forall>infos. ?f infos \<longrightarrow> list_ex (\<lambda>l. lk_depth l = Infinity) infos"
    by (auto simp: active_slice_def list_ex_iff)
  have w: "walk_locked_ancestors locks (abs_path (rn @ tn)) (abs_path rn) ?f \<longleftrightarrow>
     (\<exists>ns infos. strict_prefix ns tn \<and> map_of locks (abs_path (rn @ ns)) = Some infos \<and> ?f infos)"
    by (rule walk_locked_iff [OF assms inf])
  have a: "(\<exists>ns infos. strict_prefix ns tn \<and> map_of locks (abs_path (rn @ ns)) = Some infos \<and> ?f infos) \<longleftrightarrow>
     (\<exists>ns l. strict_prefix ns tn \<and> l \<in> set (entry_of locks (abs_path (rn @ ns))) \<and>
             \<not> is_expired now l \<and> lk_depth l = Infinity)"
    unfolding f entry_of_mem by blast
  have o: "\<not> eval_if now [] (entry_of locks (abs_path (rn @ tn))) rp \<longleftrightarrow>
      (\<exists>l\<in>set (entry_of locks (abs_path (rn @ tn))). \<not> is_expired now l)"
    by (simp add: eval_if_no_header active_Nil_iff)
  show ?thesis
    unfolding is_path_locked_def Let_def entry_of_case locked_at_def w a
    using o by auto
qed

lemma parse_if_none: "header_str hs ''if'' = None \<Longrightarrow> parse_if_header hs = []"
  by (simp add: parse_if_header_def)

lemma lock_enforce_simple:
  assumes "from_http_method (req_method req) = Some m" "m \<in> {PUT, DELETE, MKCOL, PROPPATCH}"
    and "parse_if_header (req_headers req) = [] \<or> list_ex has_lock_token (parse_if_header (req_headers req)) \<or>
         contains_key (req_headers req) ''lock-token''"
  shows "lock_enforce next_h x now req st =
     (case check_locked x now (parse_if_header (req_headers req)) (trim_end_matches sep (req_path req)) st of
        (True, st1) \<Rightarrow> (Inl LOCKED, st1)
      | (False, st1) \<Rightarrow> run_next next_h x now req st1)"
proof -
  have m: "m \<in> set write_methods" "m \<noteq> COPY" "m \<noteq> MOVE" using assms(2) by (auto simp: write_methods_def)
  obtain b st1 where c: "check_locked x now (parse_if_header (req_headers req))
      (trim_end_matches sep (req_path req)) st = (b, st1)" by fastforce
  show ?thesis
    using assms(1,3) m c by (cases b) (auto simp: lock_enforce_def Let_def)
qed

lemma lock_enforce_decides:
  assumes "state_ok rn st" and "\<forall>w\<in>set (rn @ tn). safe_name w"
    and "from_http_method (req_method req) = Some m" and "m \<in> {PUT, DELETE, MKCOL, PROPPATCH}"
    and "header_str (req_headers req) ''if'' = None"
    and "state_resolve_and_guard x st (trim_end_matches sep (req_path req)) = (Inr (abs_path (rn @ tn)), st')"
  shows "lock_enforce next_h x now req st =
     (if locked_at now (st_locks st) rn tn then (Inl LOCKED, st') else run_next next_h x now req st')"
proof -
  note ok = state_resolve_and_guard_ok(1,2) [OF assms(1,6)]
  have l: "st_locks st' = st_locks st" by (rule guard_frame_fields(2) [OF assms(6)])
  have "is_path_locked now (st_locks st') (abs_path (rn @ tn)) [] (st_root_canonical st') rp \<longleftrightarrow>
      locked_at now (st_locks st) rn tn" for rp
    using is_path_locked_no_header [OF state_okD(7) [OF ok(1)] assms(2)] state_okD(5) [OF ok(1)] l by simp
  then show ?thesis
    using lock_enforce_simple [OF assms(3,4), of next_h x now st] parse_if_none [OF assms(5)] assms(6)
    by (simp add: check_locked_def)
qed

text \<open>
  C9: lock enforcement is exact for requests without an \<open>If\<close> header. For PUT, DELETE, MKCOL and
  PROPPATCH on a path that resolves below the root, the request is answered 423 and goes no
  further when the path is locked (an active lock of its own, or an active depth-infinity lock on
  an ancestor), and it goes to the handler when it is not.
\<close>

theorem lock_enforcement_exact:
  assumes "state_ok rn st" and "\<forall>w\<in>set (rn @ tn). safe_name w"
    and "from_http_method (req_method req) = Some m" and "m \<in> {PUT, DELETE, MKCOL, PROPPATCH}"
    and "header_str (req_headers req) ''if'' = None"
    and "state_resolve_and_guard x st (trim_end_matches sep (req_path req)) = (Inr (abs_path (rn @ tn)), st')"
  shows "lock_enforce next_h x now req st =
     (if locked_at now (st_locks st) rn tn then (Inl LOCKED, st') else run_next next_h x now req st')"
  by (rule lock_enforce_decides [OF assms])

definition demo_next :: handler where
  "demo_next x now req st = (empty_reply OK, st)"

lemma demo_state_ok: "state_ok [''srv''] (demo_state e)"
  by (auto simp: state_ok_def demo_state_def abs_path_def valid_name_def safe_name_def store_ok_def
      intro!: exI [of _ "[''a'', ''n'']"])

lemma demo_guard:
  "state_resolve_and_guard demo_externals (demo_state e) ''/a/n'' =
     (Inr (abs_path ([''srv''] @ [''a'', ''n''])), (demo_state e)\<lparr>st_cache := [(''/srv/a'', ''/srv/a'')]\<rparr>)"
proof -
  have g: "resolve_and_guard id demo_fs ''/srv'' ''/srv'' ''/a/n'' [] =
      (Inr ''/srv/a/n'', [(''/srv/a'', ''/srv/a'')])" by code_simp
  show ?thesis
    by (simp add: state_resolve_and_guard_def demo_state_def demo_externals_def g abs_path_def)
qed

theorem lock_enforcement_exact_witness:
  "lock_enforce demo_next demo_externals 10 (demo_req ''PUT'' ''/a/n'' [])
     (demo_state [demo_lock Exclusive ''t'' Zero]) =
   (Inl LOCKED, (demo_state [demo_lock Exclusive ''t'' Zero])\<lparr>st_cache := [(''/srv/a'', ''/srv/a'')]\<rparr>)"
proof -
  have s: "\<forall>w\<in>set ([''srv''] @ [''a'', ''n'']). safe_name w" by (simp add: safe_name_def)
  have m: "from_http_method (req_method (demo_req ''PUT'' ''/a/n'' [])) = Some PUT"
    by (simp add: demo_req_def from_http_method_def)
  have h: "header_str (req_headers (demo_req ''PUT'' ''/a/n'' [])) ''if'' = None"
    by (simp add: demo_req_def header_str_def)
  have t: "trim_end_matches sep (req_path (demo_req ''PUT'' ''/a/n'' [])) = ''/a/n''" by code_simp
  have "locked_at 10 (st_locks (demo_state [demo_lock Exclusive ''t'' Zero])) [''srv''] [''a'', ''n'']"
    by (simp add: locked_at_def entry_of_def demo_state_def abs_path_def is_expired_def elapsed_def demo_lock_def)
  with lock_enforcement_exact [OF demo_state_ok s m _ h, unfolded t, OF _ demo_guard] show ?thesis
    by simp
qed

subsection \<open>Where the enforcement is not what a client expects\<close>

lemma eval_if_token:
  "t \<noteq> ''DAV:no-lock'' \<Longrightarrow>
     eval_if now [\<lparr>resource_tag = None, conditions = [StateToken t]\<rparr>] infos rp \<longleftrightarrow>
       (\<exists>l\<in>set infos. \<not> is_expired now l \<and> lk_token l = t)"
  by (auto simp: eval_if_def Let_def active_slice_def list_ex_iff)

text \<open>
  The owner of a lock on a collection cannot use it for the members. A write to a path that has no
  locks of its own, with an \<open>If\<close> header that presents one state token, is answered 423 whatever the
  lock store holds: also when the token is that of an active depth-infinity lock on an ancestor,
  since the condition is first evaluated against the path's own, empty, list of locks.
\<close>

theorem ancestor_lock_token_refused:
  assumes "from_http_method (req_method req) = Some m" and "m \<in> {PUT, DELETE, MKCOL, PROPPATCH}"
    and "parse_if_header (req_headers req) = [\<lparr>resource_tag = None, conditions = [StateToken t]\<rparr>]"
    and "t \<noteq> ''DAV:no-lock''"
    and "state_resolve_and_guard x st (trim_end_matches sep (req_path req)) = (Inr p, st')"
    and "map_of (st_locks st') p = None"
  shows "lock_enforce next_h x now req st = (Inl LOCKED, st')"
proof -
  have "\<not> eval_if now [\<lparr>resource_tag = None, conditions = [StateToken t]\<rparr>] [] rp" for rp
    using eval_if_token [OF assms(4)] by simp
  then have "is_path_locked now (st_locks st') p (parse_if_header (req_headers req)) (st_root_canonical st') rp" for rp
    using assms(3,6) by (simp add: is_path_locked_def)
  then show ?thesis
    using lock_enforce_simple [OF assms(1,2), of next_h x now st] assms(3,4,5)
    by (simp add: check_locked_def has_lock_token_def)
qed

text \<open>A state whose collection \<open>/a\<close> has an exclusive lock of depth infinity with token \<open>t\<close>.\<close>

definition demo_parent_locked :: app_state where
  "demo_parent_locked = (demo_state [])\<lparr>st_locks := [(''/srv/a'', [demo_lock Exclusive ''t'' Infinity])]\<rparr>"

lemma demo_parent_guard:
  "state_resolve_and_guard demo_externals demo_parent_locked ''/a/n'' =
     (Inr ''/srv/a/n'', demo_parent_locked\<lparr>st_cache := [(''/srv/a'', ''/srv/a'')]\<rparr>)"
proof -
  have g: "resolve_and_guard id demo_fs ''/srv'' ''/srv'' ''/a/n'' [] =
      (Inr ''/srv/a/n'', [(''/srv/a'', ''/srv/a'')])" by code_simp
  show ?thesis
    by (simp add: state_resolve_and_guard_def demo_parent_locked_def demo_state_def demo_externals_def g)
qed

theorem ancestor_lock_token_refused_witness:
  "locked_at 10 (st_locks demo_parent_locked) [''srv''] [''a'', ''n''] \<and>
   fst (lock_enforce demo_next demo_externals 10 (demo_req ''PUT'' ''/a/n'' [(''if'', Str ''(<t>)'')])
     demo_parent_locked) = Inl LOCKED"
proof -
  let ?req = "demo_req ''PUT'' ''/a/n'' [(''if'', Str ''(<t>)'')]"
  have m: "from_http_method (req_method ?req) = Some PUT"
    by (simp add: demo_req_def from_http_method_def)
  have h: "parse_if_header (req_headers ?req) = [\<lparr>resource_tag = None, conditions = [StateToken ''t'']\<rparr>]"
    by code_simp
  have t: "trim_end_matches sep (req_path ?req) = ''/a/n''" by code_simp
  have l: "locked_at 10 (st_locks demo_parent_locked) [''srv''] [''a'', ''n'']"
    unfolding locked_at_def
    by (rule disjI2, rule exI [of _ "[''a'']"], rule exI [of _ "demo_lock Exclusive ''t'' Infinity"])
      (simp add: entry_of_def demo_parent_locked_def abs_path_def is_expired_def elapsed_def demo_lock_def
        strict_prefix_def)
  from ancestor_lock_token_refused [OF m _ h, unfolded t, OF _ _ demo_parent_guard] l
  show ?thesis by (simp add: demo_parent_locked_def demo_state_def)
qed

lemma walk_direct_None: "(\<And>i. f i = None) \<Longrightarrow> walk_direct es target f = None"
  by (induction es target f rule: walk_direct.induct) auto

lemma walk_up_None: "(\<And>i. f i = None) \<Longrightarrow> walk_up locks rc f ps = None"
  by (induction locks rc f ps rule: walk_up.induct) (auto split: option.splits bind_splits)

lemma walk_first_None: "(\<And>i. f i = None) \<Longrightarrow> walk_first locks target rc f = None"
  unfolding walk_first_def Let_def by (simp add: walk_direct_None walk_up_None)

text \<open>
  C38: a token for another resource opens every lock. When every list of the \<open>If\<close> header is tagged
  with a resource other than the request's own path (the absolute URL of the resource is one) and
  some list names any token at all, a write passes the enforcement to the handler whatever locks
  the store holds on the path and its ancestors, although no token of them is presented.
\<close>

theorem foreign_tag_bypasses_locks:
  assumes "from_http_method (req_method req) = Some m" and "m \<in> {PUT, DELETE, MKCOL, PROPPATCH}"
    and "parse_if_header (req_headers req) \<noteq> []"
    and "list_all (\<lambda>l. \<exists>tag. resource_tag l = Some tag \<and> tag \<noteq> trim_end_matches sep (req_path req))
           (parse_if_header (req_headers req))"
    and "list_ex has_lock_token (parse_if_header (req_headers req))"
  shows "\<exists>st'. st' = st\<lparr>st_cache := st_cache st'\<rparr> \<and>
           lock_enforce next_h x now req st = run_next next_h x now req st'"
proof -
  let ?rp = "trim_end_matches sep (req_path req)"
  let ?ls = "parse_if_header (req_headers req)"
  have e: "eval_if now ?ls infos ?rp" for infos by (rule eval_if_other_resource [OF assms(3,4)])
  have "\<not> is_path_locked now locks p ?ls rc ?rp" for locks p rc
    by (simp add: is_path_locked_def walk_locked_ancestors_def e walk_first_None)
  moreover obtain r st' where "state_resolve_and_guard x st ?rp = (r, st')" by fastforce
  moreover from this have "st' = st\<lparr>st_cache := st_cache st'\<rparr>" by (rule guard_frame)
  ultimately have "check_locked x now ?ls ?rp st = (False, st')" "st' = st\<lparr>st_cache := st_cache st'\<rparr>"
    by (auto simp: check_locked_def split: sum.splits)
  then show ?thesis
    using lock_enforce_simple [OF assms(1,2), of next_h x now st] assms(5)
    by (intro exI [of _ st']) simp
qed

theorem foreign_tag_bypasses_locks_witness:
  "locked_at 10 (st_locks demo_parent_locked) [''srv''] [''a'', ''n''] \<and>
   (\<exists>st'. lock_enforce demo_next demo_externals 10
            (demo_req ''PUT'' ''/a/n'' [(''if'', Str ''<http://h/a/n> (<bogus>)'')]) demo_parent_locked =
          (Inr (status_response OK), st'))"
proof -
  let ?req = "demo_req ''PUT'' ''/a/n'' [(''if'', Str ''<http://h/a/n> (<bogus>)'')]"
  have m: "from_http_method (req_method ?req) = Some PUT"
    by (simp add: demo_req_def from_http_method_def)
  have h: "parse_if_header (req_headers ?req) =
      [\<lparr>resource_tag = Some ''http://h/a/n'', conditions = [StateToken ''bogus'']\<rparr>]"
    by code_simp
  have t: "trim_end_matches sep (req_path ?req) = ''/a/n''" by code_simp
  have l: "locked_at 10 (st_locks demo_parent_locked) [''srv''] [''a'', ''n'']"
    unfolding locked_at_def
    by (rule disjI2, rule exI [of _ "[''a'']"], rule exI [of _ "demo_lock Exclusive ''t'' Infinity"])
      (simp add: entry_of_def demo_parent_locked_def abs_path_def is_expired_def elapsed_def demo_lock_def
        strict_prefix_def)
  obtain st' where "lock_enforce demo_next demo_externals 10 ?req demo_parent_locked =
      run_next demo_next demo_externals 10 ?req st'"
    using foreign_tag_bypasses_locks [OF m, of demo_parent_locked demo_next demo_externals 10, unfolded t h]
    by (auto simp: has_lock_token_def)
  with l show ?thesis by (simp add: run_next_def demo_next_def empty_reply_def)
qed

text \<open>
  An \<open>If\<close> header without any lock token and no \<open>Lock-Token\<close> header is refused before anything is
  looked at: every write method is answered 412, the handler does not run and the state is as it
  was.
\<close>

theorem conditions_without_token_refused:
  assumes "from_http_method (req_method req) = Some m" and "m \<in> set write_methods"
    and "parse_if_header (req_headers req) \<noteq> []"
    and "\<not> list_ex has_lock_token (parse_if_header (req_headers req))"
    and "\<not> contains_key (req_headers req) ''lock-token''"
  shows "lock_enforce next_h x now req st = (Inl PRECONDITION_FAILED, st)"
  using assms by (simp add: lock_enforce_def Let_def)

theorem conditions_without_token_refused_witness:
  "lock_enforce demo_next demo_externals 10 (demo_req ''MOVE'' ''/a'' [(''if'', Str ''(Not <DAV:no-lock>)'')])
     demo_parent_locked = (Inl PRECONDITION_FAILED, demo_parent_locked)"
proof (rule conditions_without_token_refused)
  let ?req = "demo_req ''MOVE'' ''/a'' [(''if'', Str ''(Not <DAV:no-lock>)'')]"
  show "from_http_method (req_method ?req) = Some MOVE" "MOVE \<in> set write_methods"
    by (simp_all add: demo_req_def from_http_method_def write_methods_def)
  have h: "parse_if_header (req_headers ?req) =
      [\<lparr>resource_tag = None, conditions = [NotCond (StateToken ''DAV:no-lock'')]\<rparr>]"
    by code_simp
  show "parse_if_header (req_headers ?req) \<noteq> []"
    "\<not> list_ex has_lock_token (parse_if_header (req_headers ?req))"
    "\<not> contains_key (req_headers ?req) ''lock-token''"
    unfolding h by (simp_all add: has_lock_token_def contains_key_def demo_req_def)
qed

end
