(* ===== verification/Collect.thy ===== *)
theory Collect
  imports App_State
begin

section \<open>Collecting PROPFIND entries (src/webdav/fs.rs)\<close>

text \<open>
  The entries of a PROPFIND response: the target, and its children or all its descendants. The
  walk over the descendants keeps a stack of directories; its length is bounded by the number
  of nodes of the tree, which is the fuel of the model (\<open>None\<close>: out of fuel), and the theorem
  below shows that it is never used up.
\<close>

record file_meta =
  fm_is_dir :: bool
  fm_len :: nat
  fm_modified :: system_time
  fm_created :: "system_time option"

definition node_meta :: "externals \<Rightarrow> string list \<Rightarrow> node \<Rightarrow> file_meta" where
  "node_meta x q n =
     \<lparr>fm_is_dir = (n = Dir), fm_len = (case n of File c \<Rightarrow> length c | _ \<Rightarrow> ext_dir_size x q),
      fm_modified = fst (ext_times x q), fm_created = snd (ext_times x q)\<rparr>"

definition stat_path :: "externals \<Rightarrow> fs \<Rightarrow> pathbuf \<Rightarrow> io_error + file_meta" where
  "stat_path x f p =
     (case metadata f p of
        Inl e \<Rightarrow> Inl e
      | Inr n \<Rightarrow> (case resolve f p of Inl e \<Rightarrow> Inl e | Inr q \<Rightarrow> Inr (node_meta x q n)))"

definition from_meta :: "file_meta \<Rightarrow> string \<Rightarrow> bool \<Rightarrow> prop_entry" where
  "from_meta m href is_dir =
     \<lparr>pe_href = href, pe_modified = fm_modified m, pe_created = fm_created m, pe_size = fm_len m,
      pe_is_dir = is_dir, pe_content_type = None, pe_dead_props = None, pe_active_locks = None,
      pe_canonical_path = None\<rparr>"

definition from_dirent :: "dir_entry_meta \<Rightarrow> string \<Rightarrow> prop_entry" where
  "from_dirent m href =
     \<lparr>pe_href = href, pe_modified = de_modified m, pe_created = de_created m, pe_size = de_size m,
      pe_is_dir = de_is_dir m, pe_content_type = None, pe_dead_props = None, pe_active_locks = None,
      pe_canonical_path = None\<rparr>"

definition normalize_href :: "string \<Rightarrow> bool \<Rightarrow> string" where
  "normalize_href path is_dir = (if is_dir \<and> \<not> ends_with path ''/'' then path @ ''/'' else path)"

definition normalize_href_dir :: "string \<Rightarrow> string" where
  "normalize_href_dir path = (if ends_with path ''/'' then path else path @ ''/'')"

definition guess_content_type :: "externals \<Rightarrow> string \<Rightarrow> string option" where
  "guess_content_type x name = ext_mime x name"

definition child_entry :: "externals \<Rightarrow> string \<Rightarrow> dir_entry_meta \<Rightarrow> prop_entry" where
  "child_entry x base child =
     (let entry = from_dirent child (base @ ext_encode x (from_utf8_lossy (de_name child)))
      in if de_is_dir child then entry
         else entry\<lparr>pe_content_type := guess_content_type x (de_name child)\<rparr>)"

definition read_entries :: "externals \<Rightarrow> fs \<Rightarrow> pathbuf \<Rightarrow> io_error + dir_entry_meta list" where
  "read_entries x f p = batch_read_dir_entries (ext_statx x f) f p"

definition collect_direct_children ::
  "externals \<Rightarrow> fs \<Rightarrow> pathbuf \<Rightarrow> string \<Rightarrow> prop_entry list \<Rightarrow> prop_entry list" where
  "collect_direct_children x f dir_path parent_href entries =
     (case read_entries x f dir_path of
        Inl _ \<Rightarrow> entries
      | Inr kids \<Rightarrow> entries @ map (child_entry x (normalize_href parent_href True)) kids)"

fun descend ::
  "externals \<Rightarrow> fs \<Rightarrow> nat \<Rightarrow> (pathbuf \<times> string) list \<Rightarrow> prop_entry list \<Rightarrow> prop_entry list option" where
  "descend x f k [] entries = Some entries"
| "descend x f 0 (_ # _) entries = None"
| "descend x f (Suc k) ((dir_path, parent_href) # stack) entries =
     (case read_entries x f dir_path of
        Inl _ \<Rightarrow> descend x f k stack entries
      | Inr kids \<Rightarrow>
          descend x f k
            (rev (map (\<lambda>c. (path_join dir_path (de_name c), normalize_href_dir (pe_href (child_entry x parent_href c))))
                    (filter de_is_dir kids)) @ stack)
            (entries @ map (child_entry x parent_href) kids))"

definition collect_descendants ::
  "externals \<Rightarrow> fs \<Rightarrow> pathbuf \<Rightarrow> string \<Rightarrow> prop_entry list \<Rightarrow> prop_entry list option" where
  "collect_descendants x f root_dir root_href entries =
     descend x f (Suc (length (fs_nodes f))) [(root_dir, normalize_href root_href True)] entries"

definition collect_entries ::
  "externals \<Rightarrow> fs \<Rightarrow> pathbuf \<Rightarrow> string \<Rightarrow> depth \<Rightarrow> prop_entry list option" where
  "collect_entries x f fs_path request_path d =
     (case stat_path x f fs_path of
        Inl _ \<Rightarrow> Some []
      | Inr meta \<Rightarrow>
          (let is_dir = fm_is_dir meta;
               base = (from_meta meta (normalize_href request_path is_dir) is_dir)
                        \<lparr>pe_canonical_path := Some fs_path\<rparr>;
               base_entry = (if is_dir then base
                             else base\<lparr>pe_content_type := guess_content_type x fs_path\<rparr>)
           in if is_dir \<and> d \<noteq> Zero then
                (if d = One then Some (collect_direct_children x f fs_path request_path [base_entry])
                 else collect_descendants x f fs_path request_path [base_entry])
              else Some [base_entry]))"

subsection \<open>The descendants of a directory\<close>

definition rels :: "fs \<Rightarrow> string list \<Rightarrow> string list set" where
  "rels f q = {r. r \<noteq> [] \<and> fs_lookup f (q @ r) \<noteq> None}"

lemma children_iff:
  assumes "fs_wf f"
  shows "(c, n) \<in> set (children f q) \<longleftrightarrow> fs_lookup f (q @ [c]) = Some n"
proof -
  have "(c, n) \<in> set (children f q) \<longleftrightarrow> (\<exists>p. (p, n) \<in> set (fs_nodes f) \<and> p \<noteq> [] \<and> butlast p = q \<and> last p = c)"
    by (force simp: children_def)
  also have "\<dots> \<longleftrightarrow> (q @ [c], n) \<in> set (fs_nodes f)"
    by (metis append_butlast_last_id append_is_Nil_conv butlast_snoc last_snoc not_Cons_self2)
  also have "\<dots> \<longleftrightarrow> fs_lookup f (q @ [c]) = Some n"
    using hm_in_set [OF fs_wfD(1) [OF assms]] by (simp add: fs_lookup_def)
  finally show ?thesis .
qed

lemma children_distinct:
  assumes "fs_wf f"
  shows "distinct (map fst (children f q))"
proof -
  let ?l = "filter (\<lambda>(p, n). p \<noteq> [] \<and> butlast p = q) (fs_nodes f)"
  have d: "distinct (map fst ?l)"
    using hm_inv_filter [OF fs_wfD(1) [OF assms]] by (simp add: hm_inv_def)
  have e: "map fst (children f q) = map last (map fst ?l)"
    by (simp add: children_def comp_def case_prod_beta')
  have "inj_on last (set (map fst ?l))"
    by (auto simp: inj_on_def) (metis append_butlast_last_id)
  with d show ?thesis unfolding e by (simp only: distinct_map [of last] simp_thms)
qed

lemma finite_rels: "finite (rels f q)"
proof -
  have "rels f q \<subseteq> drop (length q) ` fst ` set (fs_nodes f)"
  proof
    fix r assume "r \<in> rels f q"
    then have "q @ r \<in> fst ` set (fs_nodes f)"
      by (force simp: rels_def fs_lookup_def dest: map_of_SomeD split: if_splits)
    then show "r \<in> drop (length q) ` fst ` set (fs_nodes f)" by (metis append_eq_conv_conj image_eqI)
  qed
  then show ?thesis by (rule finite_subset) simp
qed

lemma card_rels: "card (rels f q) \<le> length (fs_nodes f)"
proof -
  have "(\<lambda>r. q @ r) ` rels f q \<subseteq> fst ` set (fs_nodes f)"
    by (force simp: rels_def fs_lookup_def dest: map_of_SomeD split: if_splits)
  then have "card ((\<lambda>r. q @ r) ` rels f q) \<le> card (fst ` set (fs_nodes f))"
    by (intro card_mono) auto
  also have "\<dots> \<le> length (fs_nodes f)"
    by (metis card_length length_map list.set_map)
  finally show ?thesis by (simp add: card_image inj_on_def)
qed

definition child_rels :: "fs \<Rightarrow> string list \<Rightarrow> string \<Rightarrow> string list set" where
  "child_rels f q c = insert [c] (Cons c ` rels f (q @ [c]))"

lemma rels_children:
  assumes "fs_wf f"
  shows "rels f q = (\<Union>c\<in>set (map fst (children f q)). child_rels f q c)"
proof (intro set_eqI iffI)
  fix r assume "r \<in> rels f q"
  then obtain c r' n where r: "r = c # r'" "fs_lookup f ((q @ [c]) @ r') = Some n"
    by (cases r) (auto simp: rels_def)
  have "fs_lookup f (q @ [c]) \<noteq> None"
    using r(2) fs_wf_prefix_dir [OF assms r(2)] by (cases "r' = []") auto
  then obtain m where "(c, m) \<in> set (children f q)" using children_iff [OF assms] by blast
  then have "c \<in> set (map fst (children f q))" by force
  moreover have "r \<in> child_rels f q c" using r by (cases "r' = []") (auto simp: child_rels_def rels_def)
  ultimately show "r \<in> (\<Union>c\<in>set (map fst (children f q)). child_rels f q c)" by blast
next
  fix r assume "r \<in> (\<Union>c\<in>set (map fst (children f q)). child_rels f q c)"
  then obtain c n where "(c, n) \<in> set (children f q)" "r \<in> child_rels f q c" by auto
  then show "r \<in> rels f q"
    using children_iff [OF assms] by (auto simp: child_rels_def rels_def)
qed

lemma mset_child_rels:
  "mset_set (child_rels f q c) = add_mset [c] (image_mset (Cons c) (mset_set (rels f (q @ [c]))))"
proof -
  have "[c] \<notin> Cons c ` rels f (q @ [c])" by (auto simp: rels_def)
  moreover have "mset_set (Cons c ` rels f (q @ [c])) = image_mset (Cons c) (mset_set (rels f (q @ [c])))"
    by (rule image_mset_mset_set [symmetric]) (simp add: inj_on_def)
  ultimately show ?thesis by (simp add: child_rels_def finite_rels)
qed

lemma mset_rels_list:
  "distinct cs \<Longrightarrow> mset_set (\<Union>c\<in>set cs. child_rels f q c) = (\<Sum>c\<leftarrow>cs. mset_set (child_rels f q c))"
proof (induction cs)
  case Nil
  then show ?case by simp
next
  case (Cons c cs)
  have "child_rels f q c \<inter> (\<Union>d\<in>set cs. child_rels f q d) = {}"
    using Cons.prems by (auto simp: child_rels_def)
  moreover have "finite (child_rels f q d)" for d by (simp add: child_rels_def finite_rels)
  ultimately show ?case using Cons by (simp add: mset_set_Union)
qed

lemma mset_rels:
  assumes "fs_wf f"
  shows "mset_set (rels f q) =
     (\<Sum>(c, n)\<leftarrow>children f q.
        add_mset [c] (if n = Dir then image_mset (Cons c) (mset_set (rels f (q @ [c]))) else {#}))"
proof -
  have leaf: "rels f (q @ [c]) = {}" if "(c, n) \<in> set (children f q)" "n \<noteq> Dir" for c n
  proof -
    have "fs_lookup f (q @ [c]) = Some n" using that(1) children_iff [OF assms] by blast
    with that(2) fs_wf_prefix_dir [OF assms, of "q @ [c]"] show ?thesis by (fastforce simp: rels_def)
  qed
  have "mset_set (rels f q) = (\<Sum>c\<leftarrow>map fst (children f q). mset_set (child_rels f q c))"
    unfolding rels_children [OF assms, of q] by (rule mset_rels_list [OF children_distinct [OF assms]])
  also have "\<dots> = (\<Sum>(c, n)\<leftarrow>children f q. mset_set (child_rels f q c))"
    by (simp add: comp_def case_prod_beta')
  also have "\<dots> = (\<Sum>(c, n)\<leftarrow>children f q.
        add_mset [c] (if n = Dir then image_mset (Cons c) (mset_set (rels f (q @ [c]))) else {#}))"
    by (rule arg_cong [of _ _ sum_list], rule map_cong [OF refl])
      (auto simp: mset_child_rels dest: leaf)
  finally show ?thesis .
qed

fun rel_href :: "(string \<Rightarrow> string) \<Rightarrow> string list \<Rightarrow> string" where
  "rel_href enc [] = []"
| "rel_href enc [c] = enc c"
| "rel_href enc (c # d # r) = enc c @ ''/'' @ rel_href enc (d # r)"

definition href_name :: "externals \<Rightarrow> string \<Rightarrow> string" where
  "href_name x c = ext_encode x (from_utf8_lossy c)"

definition hrefs_below :: "externals \<Rightarrow> fs \<Rightarrow> string list \<Rightarrow> string \<Rightarrow> string multiset" where
  "hrefs_below x f q b = image_mset (\<lambda>r. b @ rel_href (href_name x) r) (mset_set (rels f q))"

lemma image_mset_sum_list: "image_mset g (\<Sum>y\<leftarrow>ys. h y) = (\<Sum>y\<leftarrow>ys. image_mset g (h y))"
  by (induction ys) simp_all

lemma hrefs_below_children:
  assumes "fs_wf f"
  shows "hrefs_below x f q b =
     (\<Sum>(c, n)\<leftarrow>children f q.
        add_mset (b @ href_name x c)
          (if n = Dir then hrefs_below x f (q @ [c]) (b @ href_name x c @ ''/'') else {#}))"
proof -
  let ?g = "\<lambda>r. b @ rel_href (href_name x) r"
  have cons: "image_mset ?g (image_mset (Cons c) (mset_set (rels f (q @ [c])))) =
      hrefs_below x f (q @ [c]) (b @ href_name x c @ ''/'')" for c
  proof -
    have "?g (c # r) = (b @ href_name x c @ ''/'') @ rel_href (href_name x) r" if "r \<in> rels f (q @ [c])" for r
      using that by (cases r) (auto simp: rels_def)
    then show ?thesis
      unfolding hrefs_below_def multiset.map_comp comp_def
      by (intro image_mset_cong) (simp add: finite_rels)
  qed
  have "hrefs_below x f q b = image_mset ?g (\<Sum>(c, n)\<leftarrow>children f q.
        add_mset [c] (if n = Dir then image_mset (Cons c) (mset_set (rels f (q @ [c]))) else {#}))"
    unfolding hrefs_below_def mset_rels [OF assms, of q] ..
  also have "\<dots> = (\<Sum>(c, n)\<leftarrow>children f q.
        add_mset (b @ href_name x c)
          (if n = Dir then hrefs_below x f (q @ [c]) (b @ href_name x c @ ''/'') else {#}))"
    unfolding image_mset_sum_list
    by (rule arg_cong [of _ _ sum_list], rule map_cong [OF refl]) (auto simp: cons)
  finally show ?thesis .
qed

lemma card_rels_children:
  assumes "fs_wf f"
  shows "card (rels f q) = (\<Sum>(c, n)\<leftarrow>children f q. Suc (if n = Dir then card (rels f (q @ [c])) else 0))"
proof -
  have sz: "size (\<Sum>y\<leftarrow>ys. h y) = (\<Sum>y\<leftarrow>ys. size (h y))" for ys and h :: "'c \<Rightarrow> 'd multiset"
    by (induction ys) simp_all
  have "card (rels f q) = size (mset_set (rels f q))" by simp
  also have "\<dots> = (\<Sum>(c, n)\<leftarrow>children f q. Suc (if n = Dir then card (rels f (q @ [c])) else 0))"
    unfolding mset_rels [OF assms, of q] sz
    by (rule arg_cong [of _ _ sum_list], rule map_cong [OF refl]) auto
  finally show ?thesis .
qed

subsection \<open>The walk finds them all\<close>

text \<open>
  No call fails for a reason outside the tree, the kernel can read the metadata of every name, and
  an encoded name is neither empty nor ends with a slash.
\<close>

definition fair_reads :: "externals \<Rightarrow> fs \<Rightarrow> bool" where
  "fair_reads x f \<longleftrightarrow>
     (\<forall>op p. \<not> fs_deny f op p) \<and>
     (\<forall>q. \<exists>buf. kernel_contract (ext_statx x f q) (\<lambda>_. True) buf) \<and>
     (\<forall>c. valid_name c \<longrightarrow> href_name x c \<noteq> [] \<and> \<not> ends_with (href_name x c) ''/'')"

lemma merge_entries:
  "map de_name (List.map_filter merge_entry (zip es (map (\<lambda>e. Some (g e)) es))) = map fst es \<and>
   map de_is_dir (List.map_filter merge_entry (zip es (map (\<lambda>e. Some (g e)) es))) = map (\<lambda>(_, n). n = Dir) es"
proof (induction es)
  case Nil
  then show ?case by (simp add: List.map_filter_def)
next
  case (Cons e es)
  obtain c n where "e = (c, n)" by (cases e)
  with Cons show ?case by (cases n) (auto simp: List.map_filter_def merge_entry_def)
qed

lemma read_entries_dir:
  assumes wf: "fs_wf f" and fair: "fair_reads x f" and q: "fs_lookup f q = Some Dir"
  obtains es where "read_entries x f (abs_path q) = Inr es"
    "map de_name es = map fst (children f q)" "map de_is_dir es = map (\<lambda>(_, n). n = Dir) (children f q)"
proof -
  obtain buf where k: "kernel_contract (ext_statx x f q) (\<lambda>_. True) buf"
    using fair unfolding fair_reads_def by blast
  have nd: "\<not> fs_deny f op p" for op p using fair by (simp add: fair_reads_def)
  have r: "resolve f (abs_path q) = Inr q" by (rule resolve_abs_path [OF wf q]) simp
  have nul: "filter (\<lambda>(name, _). CHR 0x00 \<notin> set name) (children f q) = children f q"
  proof (rule filter_True, clarify)
    fix c n assume "(c, n) \<in> set (children f q)" "CHR 0x00 \<in> set c"
    then show False
      using children_iff [OF wf] fs_wf_lookup(1) [OF wf, of "q @ [c]"] by (auto simp: valid_name_def)
  qed
  let ?stats = "map (\<lambda>e. Some (buf (fst e))) (children f q)"
  have st: "batch_statx (ext_statx x f q) (map fst (children f q)) = Inr ?stats"
    using batch_statx_result [OF k] by (simp add: stat_of_def comp_def)
  have "read_entries x f (abs_path q) = Inr (List.map_filter merge_entry (zip (children f q) ?stats))"
    using nd r q nul st
    by (auto simp: read_entries_def batch_read_dir_entries_def batch_linux_def open_dir_def
        read_dir_def Let_def List.map_filter_def)
  with merge_entries [of "children f q" "\<lambda>e. buf (fst e)"] that show thesis by blast
qed

lemma child_entry_href [simp]: "pe_href (child_entry x b c) = b @ href_name x (de_name c)"
  by (simp add: child_entry_def from_dirent_def href_name_def Let_def)

lemma ends_with_suffix: "h \<noteq> [] \<Longrightarrow> ends_with (b @ h) ''/'' \<longleftrightarrow> ends_with h ''/''"
  by (cases h rule: rev_cases) (simp_all add: ends_with_def starts_with_def)

lemma dirs_of_entries:
  "map de_name es = map fst ch \<Longrightarrow> map de_is_dir es = map (\<lambda>(_, n). n = Dir) ch \<Longrightarrow>
     map (\<lambda>c. g (de_name c)) (filter de_is_dir es) = map (\<lambda>(c, n). g c) (filter (\<lambda>(c, n). n = Dir) ch)"
proof (induction es arbitrary: ch)
  case (Cons e es)
  then show ?case by (cases ch) auto
qed simp

lemma sum_list_filter_dirs:
  fixes F :: "string \<Rightarrow> 'm :: comm_monoid_add"
  shows "(\<Sum>(c, n)\<leftarrow>filter (\<lambda>(c, n). n = Dir) ch. F c) = (\<Sum>(c, n)\<leftarrow>ch. if n = Dir then F c else 0)"
  by (induction ch) auto

lemma sum_list_add_mset:
  "(\<Sum>(c, n)\<leftarrow>ch. add_mset (a c) (G c n)) = mset (map (\<lambda>(c, n). a c) ch) + (\<Sum>(c, n)\<leftarrow>ch. G c n)"
  by (induction ch) auto

lemma sum_list_Suc: "(\<Sum>(c, n)\<leftarrow>ch. Suc (G c n)) = length ch + (\<Sum>(c, n)\<leftarrow>ch. G c n)"
  by (induction ch) auto

lemma sum_list_dirs_le:
  "(\<Sum>(c, n)\<leftarrow>filter (\<lambda>(c, n). n = Dir) ch. Suc (F c)) \<le> (\<Sum>(c, n)\<leftarrow>ch. Suc (if n = Dir then F c else 0))"
  by (induction ch) auto

definition dirs_on :: "(string list \<times> string) list \<Rightarrow> (pathbuf \<times> string) list" where
  "dirs_on S = map (\<lambda>(q, b). (abs_path q, b)) S"

lemma descend_spec:
  assumes wf: "fs_wf f" and fair: "fair_reads x f"
  shows "\<forall>(q, b)\<in>set S. fs_lookup f q = Some Dir \<Longrightarrow>
     (\<Sum>(q, b)\<leftarrow>S. Suc (card (rels f q))) \<le> k \<Longrightarrow>
     \<exists>res. descend x f k (dirs_on S) acc = Some (acc @ res) \<and>
           mset (map pe_href res) = (\<Sum>(q, b)\<leftarrow>S. hrefs_below x f q b)"
proof (induction k arbitrary: S acc)
  case 0
  then show ?case by (cases S) (auto simp: dirs_on_def)
next
  case (Suc k)
  show ?case
  proof (cases S)
    case Nil
    then show ?thesis by (simp add: dirs_on_def)
  next
    case (Cons qb S')
    obtain q b where qb: "qb = (q, b)" by (cases qb)
    with Cons Suc.prems have q: "fs_lookup f q = Some Dir" by auto
    obtain es where es: "read_entries x f (abs_path q) = Inr es"
      "map de_name es = map fst (children f q)" "map de_is_dir es = map (\<lambda>(_, n). n = Dir) (children f q)"
      by (rule read_entries_dir [OF wf fair q])
    let ?ch = "children f q"
    let ?dirs = "filter (\<lambda>(c, n). n = Dir) ?ch"
    let ?T = "rev (map (\<lambda>(c, n). (q @ [c], b @ href_name x c @ ''/'')) ?dirs) @ S'"
    have valid: "valid_name c \<and> fs_lookup f (q @ [c]) = Some n" if "(c, n) \<in> set ?ch" for c n
      using that children_iff [OF wf] fs_wf_lookup(1) [OF wf, of "q @ [c]" n] by auto
    have safe: "\<forall>w\<in>set q. safe_name w" by (rule valid_safe_list [OF fs_wf_lookup(1) [OF wf q]])
    have push: "map (\<lambda>c. (path_join (abs_path q) (de_name c), normalize_href_dir (pe_href (child_entry x b c))))
          (filter de_is_dir es) =
        map (\<lambda>(c, n). (abs_path (q @ [c]), b @ href_name x c @ ''/'')) ?dirs"
    proof -
      have "map (\<lambda>c. (path_join (abs_path q) (de_name c), normalize_href_dir (pe_href (child_entry x b c))))
          (filter de_is_dir es) =
        map (\<lambda>(c, n). (path_join (abs_path q) c, normalize_href_dir (b @ href_name x c))) ?dirs"
        using dirs_of_entries [OF es(2,3), of "\<lambda>c. (path_join (abs_path q) c, normalize_href_dir (b @ href_name x c))"]
        by simp
      also have "\<dots> = map (\<lambda>(c, n). (abs_path (q @ [c]), b @ href_name x c @ ''/'')) ?dirs"
      proof (rule map_cong [OF refl], clarify, intro conjI)
        fix c n assume "(c, n) \<in> set ?dirs"
        then have v: "valid_name c" using valid by auto
        show "path_join (abs_path q) c = abs_path (q @ [c])"
          by (rule join_abs_path [OF valid_safe [OF v] safe])
        have "href_name x c \<noteq> []" "\<not> ends_with (href_name x c) ''/''"
          using fair v by (auto simp: fair_reads_def)
        then show "normalize_href_dir (b @ href_name x c) = b @ href_name x c @ ''/''"
          by (simp add: normalize_href_dir_def ends_with_suffix)
      qed
      finally show ?thesis .
    qed
    have T: "rev (map (\<lambda>c. (path_join (abs_path q) (de_name c), normalize_href_dir (pe_href (child_entry x b c))))
          (filter de_is_dir es)) @ dirs_on S' = dirs_on ?T"
      unfolding push by (simp add: dirs_on_def rev_map comp_def case_prod_beta')
    have step: "descend x f (Suc k) (dirs_on S) acc =
        descend x f k (dirs_on ?T) (acc @ map (child_entry x b) es)"
      unfolding T [symmetric] using Cons qb es(1) by (simp add: dirs_on_def)
    have dirT: "\<forall>(q, b)\<in>set ?T. fs_lookup f q = Some Dir"
      using Suc.prems(1) Cons valid by auto
    have "(\<Sum>(q, b)\<leftarrow>?T. Suc (card (rels f q))) =
        (\<Sum>(c, n)\<leftarrow>?dirs. Suc (card (rels f (q @ [c])))) + (\<Sum>(q, b)\<leftarrow>S'. Suc (card (rels f q)))"
      by (simp add: rev_map [symmetric] comp_def case_prod_beta')
    also have "\<dots> \<le> card (rels f q) + (\<Sum>(q, b)\<leftarrow>S'. Suc (card (rels f q)))"
      using sum_list_dirs_le [of "\<lambda>c. card (rels f (q @ [c]))" ?ch] card_rels_children [OF wf, of q] by simp
    also have "\<dots> \<le> k" using Suc.prems(2) Cons qb by simp
    finally have fuel: "(\<Sum>(q, b)\<leftarrow>?T. Suc (card (rels f q))) \<le> k" .
    obtain res where res: "descend x f k (dirs_on ?T) (acc @ map (child_entry x b) es) =
        Some ((acc @ map (child_entry x b) es) @ res)"
      "mset (map pe_href res) = (\<Sum>(q, b)\<leftarrow>?T. hrefs_below x f q b)"
      using Suc.IH [OF dirT fuel] by blast
    have hm: "map pe_href (map (child_entry x b) es) = map (\<lambda>(c, n). b @ href_name x c) ?ch"
    proof -
      have "map pe_href (map (child_entry x b) es) = map (\<lambda>c. b @ href_name x c) (map de_name es)"
        by simp
      then show ?thesis unfolding es(2) by (simp add: comp_def case_prod_beta')
    qed
    have "(\<Sum>(q, b)\<leftarrow>?T. hrefs_below x f q b) =
        (\<Sum>(c, n)\<leftarrow>?dirs. hrefs_below x f (q @ [c]) (b @ href_name x c @ ''/'')) +
        (\<Sum>(q, b)\<leftarrow>S'. hrefs_below x f q b)"
      by (simp add: rev_map [symmetric] comp_def case_prod_beta' sum_list_rev)
    moreover have "hrefs_below x f q b = mset (map pe_href (map (child_entry x b) es)) +
        (\<Sum>(c, n)\<leftarrow>?dirs. hrefs_below x f (q @ [c]) (b @ href_name x c @ ''/''))"
      unfolding hrefs_below_children [OF wf, of x q b] sum_list_add_mset hm sum_list_filter_dirs
      by (simp add: case_prod_beta')
    ultimately have "mset (map pe_href (map (child_entry x b) es @ res)) = (\<Sum>(q, b)\<leftarrow>S. hrefs_below x f q b)"
      using Cons qb res(2) by (simp add: ac_simps)
    with step res(1) show ?thesis
      by (intro exI [of _ "map (child_entry x b) es @ res"]) simp
  qed
qed

subsection \<open>The walk ends, whatever fails\<close>

lemma merge_subseq:
  "\<exists>ch'. subseq ch' es \<and>
     map de_name (List.map_filter merge_entry (zip es stats)) = map fst ch' \<and>
     map de_is_dir (List.map_filter merge_entry (zip es stats)) = map (\<lambda>(_, n). n = Dir) ch'"
proof (induction es arbitrary: stats)
  case Nil
  then show ?case by (simp add: List.map_filter_def)
next
  case (Cons e es)
  obtain c n where e: "e = (c, n)" by (cases e)
  show ?case
  proof (cases stats)
    case Nil
    then show ?thesis by (intro exI [of _ "[]"]) (simp add: List.map_filter_def)
  next
    case S: (Cons s ss)
    obtain ch' where ch: "subseq ch' es"
      "map de_name (List.map_filter merge_entry (zip es ss)) = map fst ch'"
      "map de_is_dir (List.map_filter merge_entry (zip es ss)) = map (\<lambda>(_, n). n = Dir) ch'"
      using Cons.IH by blast
    show ?thesis
    proof (cases s)
      case None
      with S e ch show ?thesis
        by (intro exI [of _ ch']) (auto simp: List.map_filter_def merge_entry_def)
    next
      case (Some stx)
      with S e ch show ?thesis
        by (intro exI [of _ "e # ch'"]) (cases n; auto simp: List.map_filter_def merge_entry_def)
    qed
  qed
qed

lemma read_entries_subseq:
  assumes wf: "fs_wf f" and q: "fs_lookup f q = Some Dir" and r: "read_entries x f (abs_path q) = Inr es"
  obtains ch' where "subseq ch' (children f q)" "map de_name es = map fst ch'"
    "map de_is_dir es = map (\<lambda>(_, n). n = Dir) ch'"
proof -
  have rs: "resolve f (abs_path q) = Inr q" by (rule resolve_abs_path [OF wf q]) simp
  let ?l = "filter (\<lambda>(name, _). CHR 0x00 \<notin> set name) (children f q)"
  have "es = [] \<or> (\<exists>stats. es = List.map_filter merge_entry (zip ?l stats))"
    using r rs by (auto simp: read_entries_def batch_read_dir_entries_def batch_linux_def open_dir_def
        read_dir_def Let_def split: if_splits sum.splits option.splits)
  then obtain stats where es: "es = List.map_filter merge_entry (zip ?l stats)"
  proof
    assume "es = []"
    then have "es = List.map_filter merge_entry (zip ?l [])" by (simp add: List.map_filter_def)
    then show thesis by (rule that)
  next
    assume "\<exists>stats. es = List.map_filter merge_entry (zip ?l stats)"
    then show thesis using that by blast
  qed
  obtain ch' where "subseq ch' ?l" "map de_name es = map fst ch'"
      "map de_is_dir es = map (\<lambda>(_, n). n = Dir) ch'"
    using merge_subseq [of ?l stats] es by blast
  moreover have "subseq ?l (children f q)" by (rule subseq_filter_left)
  ultimately show thesis using that subseq_order.trans by blast
qed

lemma subseq_set: "subseq xs ys \<Longrightarrow> set xs \<subseteq> set ys"
  by (induction rule: list_emb.induct) auto

lemma sum_list_subseq: "subseq xs ys \<Longrightarrow> sum_list (map (g :: 'a \<Rightarrow> nat) xs) \<le> sum_list (map g ys)"
proof (induction rule: list_emb.induct)
  case (list_emb_Cons xs ys y)
  then show ?case by simp
qed auto

lemma descend_total:
  assumes wf: "fs_wf f"
  shows "\<forall>(q, b)\<in>set S. fs_lookup f q = Some Dir \<Longrightarrow>
     (\<Sum>(q, b)\<leftarrow>S. Suc (card (rels f q))) \<le> k \<Longrightarrow> descend x f k (dirs_on S) acc \<noteq> None"
proof (induction k arbitrary: S acc)
  case 0
  then show ?case by (cases S) (auto simp: dirs_on_def)
next
  case (Suc k)
  show ?case
  proof (cases S)
    case Nil
    then show ?thesis by (simp add: dirs_on_def)
  next
    case (Cons qb S')
    obtain q b where qb: "qb = (q, b)" by (cases qb)
    with Cons Suc.prems have q: "fs_lookup f q = Some Dir"
      and S': "\<forall>(q, b)\<in>set S'. fs_lookup f q = Some Dir"
      and sz: "card (rels f q) + (\<Sum>(q, b)\<leftarrow>S'. Suc (card (rels f q))) \<le> k" by auto
    show ?thesis
    proof (cases "read_entries x f (abs_path q)")
      case (Inl e)
      with Suc.IH [OF S'] sz Cons qb show ?thesis by (simp add: dirs_on_def)
    next
      case (Inr es)
      obtain ch' where ch: "subseq ch' (children f q)" "map de_name es = map fst ch'"
          "map de_is_dir es = map (\<lambda>(_, n). n = Dir) ch'"
        by (rule read_entries_subseq [OF wf q Inr])
      let ?dirs = "filter (\<lambda>(c, n). n = Dir) ch'"
      let ?h = "\<lambda>c. normalize_href_dir (b @ href_name x c)"
      let ?T = "rev (map (\<lambda>(c, n). (q @ [c], ?h c)) ?dirs) @ S'"
      have valid: "valid_name c \<and> fs_lookup f (q @ [c]) = Some n" if "(c, n) \<in> set ch'" for c n
      proof -
        have "(c, n) \<in> set (children f q)" using that subseq_set [OF ch(1)] by blast
        then have l: "fs_lookup f (q @ [c]) = Some n" by (simp add: children_iff [OF wf])
        with fs_wf_lookup(1) [OF wf l] show ?thesis by simp
      qed
      have safe: "\<forall>w\<in>set q. safe_name w" by (rule valid_safe_list [OF fs_wf_lookup(1) [OF wf q]])
      have "map (\<lambda>c. (path_join (abs_path q) (de_name c), normalize_href_dir (pe_href (child_entry x b c))))
          (filter de_is_dir es) = map (\<lambda>(c, n). (path_join (abs_path q) c, ?h c)) ?dirs"
        using dirs_of_entries [OF ch(2,3), of "\<lambda>c. (path_join (abs_path q) c, ?h c)"] by simp
      also have "\<dots> = map (\<lambda>(c, n). (abs_path (q @ [c]), ?h c)) ?dirs"
        using valid join_abs_path [OF valid_safe safe] by (intro map_cong [OF refl]) auto
      finally have "descend x f (Suc k) (dirs_on S) acc = descend x f k (dirs_on ?T) (acc @ map (child_entry x b) es)"
        using Cons qb Inr by (simp add: dirs_on_def rev_map comp_def case_prod_beta')
      moreover have "\<forall>(q, b)\<in>set ?T. fs_lookup f q = Some Dir" using S' valid by auto
      moreover have "(\<Sum>(q, b)\<leftarrow>?T. Suc (card (rels f q))) \<le> k"
      proof -
        have "(\<Sum>(q, b)\<leftarrow>?T. Suc (card (rels f q))) =
            (\<Sum>(c, n)\<leftarrow>?dirs. Suc (card (rels f (q @ [c])))) + (\<Sum>(q, b)\<leftarrow>S'. Suc (card (rels f q)))"
          by (simp add: rev_map [symmetric] comp_def case_prod_beta')
        also have "\<dots> \<le> card (rels f q) + (\<Sum>(q, b)\<leftarrow>S'. Suc (card (rels f q)))"
          using sum_list_dirs_le [of "\<lambda>c. card (rels f (q @ [c]))" ch']
            sum_list_subseq [OF ch(1), of "\<lambda>(c, n). Suc (if n = Dir then card (rels f (q @ [c])) else 0)"]
            card_rels_children [OF wf, of q] by simp
        finally show ?thesis using sz by simp
      qed
      ultimately show ?thesis using Suc.IH by simp
    qed
  qed
qed

lemma collect_descendants_dirs:
  "collect_descendants x f (abs_path q) h acc =
     descend x f (Suc (length (fs_nodes f))) (dirs_on [(q, normalize_href h True)]) acc"
  by (simp add: collect_descendants_def dirs_on_def)

text \<open>
  C17: collecting the entries of a PROPFIND always ends. Whatever calls fail, whatever the kernel
  reports and whatever the depth, the walk over an existing directory or file of a well-formed tree
  comes to an end within the number of nodes of the tree.
\<close>

theorem collect_entries_total:
  assumes "fs_wf f" and "real_node f q"
  shows "collect_entries x f (abs_path q) rp d \<noteq> None"
proof (cases "stat_path x f (abs_path q)")
  case (Inl e)
  then show ?thesis by (simp add: collect_entries_def)
next
  case (Inr m)
  have nl: "fs_lookup f q = Some n \<Longrightarrow> \<forall>t. n \<noteq> Symlink t \<Longrightarrow> fm_is_dir m \<longleftrightarrow> n = Dir" for n
    using Inr resolve_abs_path [OF assms(1), of q n]
    by (auto simp: stat_path_def metadata_def node_meta_def split: if_splits)
  have dir: "fs_lookup f q = Some Dir" if "fm_is_dir m"
    using that nl assms(2) by (auto simp: real_node_def split: option.splits node.splits)
  have "collect_descendants x f (abs_path q) rp acc \<noteq> None" if "fm_is_dir m" for acc
    unfolding collect_descendants_dirs
    by (rule descend_total [OF assms(1)]) (use dir [OF that] card_rels [of f q] in auto)
  with Inr show ?thesis by (auto simp: collect_entries_def Let_def)
qed

theorem collect_entries_total_witness:
  "real_node demo_fs [''srv''] \<and>
   collect_entries \<lparr>ext_pct = id, ext_encode = id, ext_hash = id, ext_reader = (\<lambda>_. ([], None)),
      ext_mime = (\<lambda>_. None), ext_times = (\<lambda>_. (0, None)), ext_dir_size = (\<lambda>_. 0),
      ext_statx = (\<lambda>_ _ _. Inl OtherError)\<rparr> demo_fs (abs_path [''srv'']) ''/'' Infinity \<noteq> None"
proof -
  have "real_node demo_fs [''srv'']" by code_simp
  with collect_entries_total [OF demo_fs_wf this] show ?thesis by blast
qed

text \<open>
  PROPFIND with depth infinity finds everything once. When no call fails, the entries of a directory
  are the directory itself and, with multiplicity one each, every node below it at any depth, each
  with the href that joins the encoded names of its path to the request path.
\<close>

theorem collect_infinity_complete:
  assumes "fs_wf f" and "fair_reads x f" and "fs_lookup f q = Some Dir"
  shows "\<exists>base res. collect_entries x f (abs_path q) rp Infinity = Some (base # res) \<and>
     pe_href base = normalize_href rp True \<and> pe_canonical_path base = Some (abs_path q) \<and>
     mset (map pe_href res) = hrefs_below x f q (normalize_href rp True)"
proof -
  have nd: "\<not> fs_deny f op p" for op p using assms(2) by (simp add: fair_reads_def)
  have st: "stat_path x f (abs_path q) = Inr (node_meta x q Dir)"
    using nd resolve_abs_path [OF assms(1,3)] assms(3) by (simp add: stat_path_def metadata_def)
  let ?base = "(from_meta (node_meta x q Dir) (normalize_href rp True) True)\<lparr>pe_canonical_path := Some (abs_path q)\<rparr>"
  obtain res where "descend x f (Suc (length (fs_nodes f))) (dirs_on [(q, normalize_href rp True)]) [?base] =
      Some ([?base] @ res)" "mset (map pe_href res) = hrefs_below x f q (normalize_href rp True)"
    using descend_spec [OF assms(1,2), of "[(q, normalize_href rp True)]" "Suc (length (fs_nodes f))" "[?base]"]
      assms(3) card_rels [of f q] by auto
  then show ?thesis
    using st by (intro exI [of _ ?base] exI [of _ res])
      (simp add: collect_entries_def collect_descendants_dirs Let_def node_meta_def from_meta_def)
qed

definition plain_externals :: externals where
  "plain_externals =
     \<lparr>ext_pct = id, ext_encode = id, ext_hash = id, ext_reader = (\<lambda>_. ([], None)),
      ext_mime = (\<lambda>_. None), ext_times = (\<lambda>_. (0, None)), ext_dir_size = (\<lambda>_. 4096),
      ext_statx = (\<lambda>_ _ chunk. Inr (map demo_statx chunk, map (\<lambda>i. (i, 0)) (rev [0..<length chunk])))\<rparr>"

definition href_externals :: externals where
  "href_externals = plain_externals\<lparr>ext_encode := (\<lambda>n. n @ ''_'')\<rparr>"

lemma fair_demo: "fair_reads href_externals demo_fs"
proof -
  have "kernel_contract (ext_statx href_externals demo_fs q) (\<lambda>_. True) demo_statx" for q
    unfolding kernel_contract_def href_externals_def plain_externals_def
    by (intro allI exI conjI) (auto simp: comp_def multiset.map_comp)
  then show ?thesis
    by (auto simp: fair_reads_def demo_fs_def href_name_def href_externals_def ends_with_def starts_with_def)
qed

theorem collect_infinity_complete_witness:
  "\<exists>base res. collect_entries href_externals demo_fs (abs_path [''srv'']) ''/'' Infinity = Some (base # res) \<and>
     mset (map pe_href res) = hrefs_below href_externals demo_fs [''srv''] ''/''"
proof -
  have q: "fs_lookup demo_fs [''srv''] = Some Dir" by code_simp
  have n: "normalize_href ''/'' True = ''/''" by code_simp
  show ?thesis using collect_infinity_complete [OF demo_fs_wf fair_demo q, of "''/''", unfolded n] by blast
qed

end
