(* ===== verification/Html.thy ===== *)
theory Html
  imports Collect
begin

section \<open>HTML directory listings (src/html.rs)\<close>

text \<open>
  The page a GET of a directory answers. The entries are sorted by a stable sort with the key
  "directories first, then the bytes of the name"; the key is a type of its own with the order of
  the comparison closure, so that the library's stable \<^const>\<open>sort_key\<close> is the sort of the code.
  \<open>None\<close> is the panic of the date formatter.
\<close>

datatype entry_key = Entry_Key (key_is_dir: bool) (key_name: "nat list")

fun name_le :: "nat list \<Rightarrow> nat list \<Rightarrow> bool" where
  "name_le [] _ = True"
| "name_le (_ # _) [] = False"
| "name_le (a # as) (b # bs) = (a < b \<or> a = b \<and> name_le as bs)"

lemma name_le_refl [simp]: "name_le a a"
  by (induction a) auto

lemma name_le_trans: "name_le a b \<Longrightarrow> name_le b c \<Longrightarrow> name_le a c"
proof (induction a b arbitrary: c rule: name_le.induct)
  case (3 x xs y ys)
  then show ?case by (cases c) auto
qed auto

lemma name_le_antisym: "name_le a b \<Longrightarrow> name_le b a \<Longrightarrow> a = b"
  by (induction a b rule: name_le.induct) (auto elim: name_le.elims)

lemma name_le_linear: "name_le a b \<or> name_le b a"
  by (induction a b rule: name_le.induct) auto

instantiation entry_key :: linorder
begin

definition less_eq_entry_key :: "entry_key \<Rightarrow> entry_key \<Rightarrow> bool" where
  "less_eq_entry_key a b \<longleftrightarrow>
     (key_is_dir a \<and> \<not> key_is_dir b) \<or>
     (key_is_dir a = key_is_dir b \<and> name_le (key_name a) (key_name b))"

definition less_entry_key :: "entry_key \<Rightarrow> entry_key \<Rightarrow> bool" where
  "less_entry_key a b \<longleftrightarrow> a \<le> b \<and> \<not> b \<le> (a :: entry_key)"

instance
proof
  fix a b c :: entry_key
  show "(a < b) = (a \<le> b \<and> \<not> b \<le> a)" by (simp add: less_entry_key_def)
  show "a \<le> a" by (simp add: less_eq_entry_key_def)
  show "a \<le> b \<Longrightarrow> b \<le> c \<Longrightarrow> a \<le> c"
    by (auto simp: less_eq_entry_key_def intro: name_le_trans)
  show "a \<le> b \<Longrightarrow> b \<le> a \<Longrightarrow> a = b"
    by (cases a; cases b) (auto simp: less_eq_entry_key_def intro: name_le_antisym)
  show "a \<le> b \<or> b \<le> a"
    using name_le_linear by (auto simp: less_eq_entry_key_def)
qed

end

definition entry_key :: "dir_entry_meta \<Rightarrow> entry_key" where
  "entry_key e = Entry_Key (de_is_dir e) (map byte (de_name e))"

definition sort_entries :: "dir_entry_meta list \<Rightarrow> dir_entry_meta list" where
  "sort_entries = sort_key entry_key"

subsection \<open>Rows\<close>

definition display_name_len :: "dir_entry_meta \<Rightarrow> nat" where
  "display_name_len e = length (de_name e) + (if de_is_dir e then 1 else 0)"

definition size_label :: "dir_entry_meta \<Rightarrow> string" where
  "size_label e = (if de_is_dir e then ''-'' else show_nat (de_size e))"

text \<open>\<open>u64::checked_ilog10\<close>, the rounded-down logarithm, \<open>None\<close> for zero.\<close>

fun ilog10 :: "nat \<Rightarrow> nat" where
  "ilog10 n = (if n < 10 then 0 else Suc (ilog10 (n div 10)))"

declare ilog10.simps [simp del]

definition checked_ilog10 :: "nat \<Rightarrow> nat option" where
  "checked_ilog10 n = (if n = 0 then None else Some (ilog10 n))"

definition size_label_len :: "dir_entry_meta \<Rightarrow> nat" where
  "size_label_len e =
     (if de_is_dir e then 1
      else (case checked_ilog10 (de_size e) of None \<Rightarrow> 0 | Some d \<Rightarrow> d) + 1)"

definition spaces :: "nat \<Rightarrow> string" where
  "spaces n = replicate n CHR '' ''"

definition listing_link :: "dir_entry_meta \<Rightarrow> string" where
  "listing_link e =
     (let name = from_utf8_lossy (de_name e)
      in if de_is_dir e then ''<a href=\"'' @ name @ ''/\">'' @ name @ ''/</a>''
         else ''<a href=\"'' @ name @ ''\">'' @ name @ ''</a>'')"

definition listing_columns :: "nat \<Rightarrow> nat \<Rightarrow> dir_entry_meta \<Rightarrow> string option" where
  "listing_columns name_col max_size_len e =
     (case format_rfc850 (de_modified e) of
        None \<Rightarrow> None
      | Some date_str \<Rightarrow>
          Some (spaces (name_col - display_name_len e) @ date_str @ ''    '' @
                spaces (max_size_len - length (size_label e)) @ size_label e @ [CHR 0x0A]))"

definition listing_row :: "nat \<Rightarrow> nat \<Rightarrow> dir_entry_meta \<Rightarrow> string option" where
  "listing_row name_col max_size_len e =
     map_option (\<lambda>cols. listing_link e @ cols) (listing_columns name_col max_size_len e)"

fun concat_rows :: "('a \<Rightarrow> string option) \<Rightarrow> 'a list \<Rightarrow> string option" where
  "concat_rows row [] = Some []"
| "concat_rows row (e # es) =
     (case row e of
        None \<Rightarrow> None
      | Some r \<Rightarrow> map_option (\<lambda>rest. r @ rest) (concat_rows row es))"

definition listing_widths :: "dir_entry_meta list \<Rightarrow> nat \<times> nat" where
  "listing_widths entries =
     foldl (\<lambda>(mn, ms) e. (max mn (display_name_len e), max ms (size_label_len e))) (0, 0) entries"

definition cannot_read_page :: string where
  "cannot_read_page =
     ''<!DOCTYPE html><html><head><title>Error</title></head><body><h1>Cannot read directory</h1></body></html>''"

definition listing_head :: "string \<Rightarrow> string \<Rightarrow> string" where
  "listing_head decoded_path request_path =
     ''<!DOCTYPE html><html><head><title>Index of '' @ decoded_path @
     ''</title><meta charset=\"utf-8\"></head><body><h1>Index of '' @ decoded_path @ ''</h1><hr><pre>'' @
     (if request_path \<noteq> ''/'' then ''<a href=\"../\">../</a>'' @ [CHR 0x0A] else [])"

definition generate_dir_listing ::
  "externals \<Rightarrow> fs \<Rightarrow> pathbuf \<Rightarrow> string \<Rightarrow> (string \<times> nat) option" where
  "generate_dir_listing x f dir_path request_path =
     (case read_entries x f dir_path of
        Inl _ \<Rightarrow> Some (cannot_read_page, 0)
      | Inr found \<Rightarrow>
          (let entries = sort_entries found;
               (max_name_len, max_size_len) = listing_widths entries;
               name_col = max_name_len + 20;
               decoded_path = ext_pct x request_path
           in case concat_rows (listing_row name_col max_size_len) entries of
                None \<Rightarrow> None
              | Some rows \<Rightarrow>
                  Some (listing_head decoded_path request_path @ rows @ ''</pre><hr></body></html>'',
                        length entries)))"

subsection \<open>The columns line up\<close>

lemma length_show_nat: "length (show_nat n) = Suc (ilog10 n)"
proof (induction n rule: ilog10.induct)
  case (1 n)
  then show ?case
    by (subst ilog10.simps, subst show_nat_def, subst show_base.simps) (simp add: show_nat_def)
qed

lemma size_label_len: "size_label_len e = length (size_label e)"
  by (simp add: size_label_len_def size_label_def checked_ilog10_def length_show_nat ilog10.simps [of 0])

definition widen :: "nat \<times> nat \<Rightarrow> dir_entry_meta \<Rightarrow> nat \<times> nat" where
  "widen p e = (max (fst p) (display_name_len e), max (snd p) (size_label_len e))"

lemma listing_widths_foldl: "listing_widths es = foldl widen (0, 0) es"
  by (simp add: listing_widths_def widen_def [abs_def] case_prod_beta')

lemma widen_mono: "fst p \<le> fst (foldl widen p es) \<and> snd p \<le> snd (foldl widen p es)"
proof (induction es arbitrary: p)
  case (Cons a es)
  from Cons.IH [of "widen p a"] show ?case by (simp add: widen_def)
qed simp

lemma widen_max:
  "e \<in> set es \<Longrightarrow> display_name_len e \<le> fst (foldl widen p es) \<and> size_label_len e \<le> snd (foldl widen p es)"
proof (induction es arbitrary: p)
  case (Cons a es)
  have "display_name_len a \<le> fst (widen p a)" "size_label_len a \<le> snd (widen p a)"
    by (simp_all add: widen_def)
  with widen_mono [of "widen p a" es] Cons.IH [of "widen p a"] Cons.prems
  show ?case by (auto intro: order.trans)
qed simp

lemmas listing_widths_max = widen_max [of _ _ "(0, 0)", folded listing_widths_foldl]

lemma set_sort_entries [simp]: "set (sort_entries es) = set es"
  by (simp add: sort_entries_def)

lemma concat_rows_Some:
  "concat_rows row es = Some s \<longleftrightarrow> (\<exists>rs. map row es = map Some rs \<and> s = concat rs)"
proof (induction es arbitrary: s)
  case (Cons e es)
  show ?case
  proof
    assume "concat_rows row (e # es) = Some s"
    then obtain r rest where "row e = Some r" "concat_rows row es = Some rest" "s = r @ rest"
      by (auto split: option.splits)
    with Cons.IH show "\<exists>rs. map row (e # es) = map Some rs \<and> s = concat rs"
      by (metis concat.simps(2) list.simps(9))
  next
    assume "\<exists>rs. map row (e # es) = map Some rs \<and> s = concat rs"
    then obtain r rs where "row e = Some r" "map row es = map Some rs" "s = r @ concat rs"
      by (auto simp: map_eq_Cons_conv Cons_eq_map_conv)
    with Cons.IH show "concat_rows row (e # es) = Some s" by auto
  qed
qed auto

definition aligned_row :: "nat \<Rightarrow> nat \<Rightarrow> dir_entry_meta \<Rightarrow> string \<Rightarrow> bool" where
  "aligned_row name_col size_col e row \<longleftrightarrow>
     (\<exists>k date j. row = listing_link e @ spaces k @ date @ spaces j @ size_label e @ [CHR 0x0A] \<and>
        format_rfc850 (de_modified e) = Some date \<and>
        display_name_len e + k = name_col \<and> j + length (size_label e) = size_col)"

lemma listing_row_aligned:
  assumes "listing_row name_col size_len e = Some row"
    and "display_name_len e \<le> name_col" "length (size_label e) \<le> size_len"
  shows "aligned_row name_col (size_len + 4) e row"
proof -
  obtain date where d: "format_rfc850 (de_modified e) = Some date"
    using assms(1) by (auto simp: listing_row_def listing_columns_def split: option.splits)
  have "row = listing_link e @ spaces (name_col - display_name_len e) @ date @
      spaces (4 + (size_len - length (size_label e))) @ size_label e @ [CHR 0x0A]"
    using assms(1) d by (auto simp: listing_row_def listing_columns_def spaces_def replicate_add numeral_eq_Suc)
  with d assms(2,3) show ?thesis unfolding aligned_row_def by force
qed


definition demo_found :: "dir_entry_meta list" where
  "demo_found = (case read_entries plain_externals demo_fs ''/srv'' of Inr es \<Rightarrow> es | Inl _ \<Rightarrow> [])"

definition demo_page :: "string \<times> nat" where
  "demo_page = the (generate_dir_listing plain_externals demo_fs ''/srv'' ''/'')"


end
