(* ===== verification/Http_Handlers.thy ===== *)
theory Http_Handlers
  imports App_State Html
begin

section \<open>GET, HEAD, PUT, DELETE and OPTIONS (src/handlers/http.rs)\<close>

text \<open>
  The handlers of the plain HTTP methods. A file body is the content of the opened file. For PUT
  the stream of the request is the data that the copy loop took from it and wrote, and whether it
  ended without an error; a write error (\<open>Op_write\<close>) leaves the truncated file.
\<close>

definition is_head :: "request \<Rightarrow> bool" where
  "is_head req \<longleftrightarrow> req_method req = ''HEAD''"

definition mime_or_octet_stream :: "externals \<Rightarrow> pathbuf \<Rightarrow> string" where
  "mime_or_octet_stream x p =
     (case ext_mime x p of None \<Rightarrow> ''application/octet-stream'' | Some m \<Rightarrow> m)"

definition ok_response :: "string \<Rightarrow> nat \<Rightarrow> out_event list body \<Rightarrow> reply" where
  "ok_response content_type len b =
     Inr \<lparr>resp_status = OK,
          resp_headers = [(''content-type'', content_type), (''content-length'', show_nat len)],
          resp_body = b\<rparr>"

definition get_directory :: "externals \<Rightarrow> request \<Rightarrow> fs \<Rightarrow> pathbuf \<Rightarrow> reply" where
  "get_directory x req f fs_path =
     (case generate_dir_listing x f fs_path (req_path req) of
        None \<Rightarrow> Inl NO_RESPONSE
      | Some (html, entry_count) \<Rightarrow>
          ok_response ''text/html; charset=utf-8'' (length html)
            (if is_head req then Empty else Text html))"

definition get_file :: "externals \<Rightarrow> request \<Rightarrow> fs \<Rightarrow> pathbuf \<Rightarrow> nat \<Rightarrow> reply" where
  "get_file x req f fs_path file_size =
     (let mime = mime_or_octet_stream x fs_path
      in if is_head req then ok_response mime file_size Empty
         else (case open_dir f fs_path of
                 Inl _ \<Rightarrow> Inl INTERNAL_SERVER_ERROR
               | Inr q \<Rightarrow>
                   ok_response mime file_size
                     (File_Stream (case fs_lookup f q of Some (File c) \<Rightarrow> c | _ \<Rightarrow> []))))"

definition handle_get_head :: handler where
  "handle_get_head x now req st =
     (case opt_or_status (state_resolve_existing x st (req_path req)) NOT_FOUND of
        Inl e \<Rightarrow> (Inl e, st)
      | Inr fs_path \<Rightarrow>
          (case or_status (stat_path x (st_fs st) fs_path) NOT_FOUND of
             Inl e \<Rightarrow> (Inl e, st)
           | Inr meta \<Rightarrow>
               (if fm_is_dir meta then get_directory x req (st_fs st) fs_path
                else get_file x req (st_fs st) fs_path (fm_len meta), st)))"

definition put_file :: "request \<Rightarrow> fs \<Rightarrow> pathbuf \<Rightarrow> reply \<times> fs" where
  "put_file req f target =
     (let existed = path_exists f target
      in case file_create f target of
           (Inl _, f1) \<Rightarrow> (Inl INTERNAL_SERVER_ERROR, f1)
         | (Inr q, f1) \<Rightarrow>
             if fs_deny f1 Op_write target then (Inl INTERNAL_SERVER_ERROR, f1)
             else (let f2 = fs_set q (File (fst (req_stream req))) f1
                   in if \<not> snd (req_stream req) then (Inl INTERNAL_SERVER_ERROR, f2)
                      else (empty_reply (if existed then OK else CREATED), f2)))"

definition handle_put :: handler where
  "handle_put x now req st =
     (case state_resolve_and_guard x st (req_path req) of
        (r, st1) \<Rightarrow>
          (case or_invalid r BAD_REQUEST of
             Inl e \<Rightarrow> (Inl e, st1)
           | Inr target \<Rightarrow>
               (case put_file req (st_fs st1) target of (rep, f) \<Rightarrow> (rep, st1\<lparr>st_fs := f\<rparr>))))"

definition delete_reply :: "(io_error + unit) \<times> fs \<Rightarrow> reply \<times> fs" where
  "delete_reply r =
     (case r of (Inr _, f) \<Rightarrow> (empty_reply NO_CONTENT, f) | (Inl _, f) \<Rightarrow> (Inl INTERNAL_SERVER_ERROR, f))"

definition handle_delete :: handler where
  "handle_delete x now req st =
     (case opt_or_status (state_resolve_existing x st (req_path req)) NOT_FOUND of
        Inl e \<Rightarrow> (Inl e, st)
      | Inr fs_path \<Rightarrow>
          (case or_status (stat_path x (st_fs st) fs_path) NOT_FOUND of
             Inl e \<Rightarrow> (Inl e, st)
           | Inr meta \<Rightarrow>
               if fm_is_dir meta \<and> path_eq fs_path (st_root_canonical st) then (Inl BAD_REQUEST, st)
               else (case delete_reply (if fm_is_dir meta then remove_dir_all (st_fs st) fs_path
                                        else remove_file (st_fs st) fs_path) of
                       (rep, f) \<Rightarrow> (rep, st\<lparr>st_fs := f\<rparr>))))"

definition handle_options :: handler where
  "handle_options x now req st =
     (Inr \<lparr>resp_status = OK,
           resp_headers =
             [(''allow'', ''GET, HEAD, OPTIONS, PUT, DELETE, PROPFIND, MKCOL, COPY, MOVE, PROPPATCH, LOCK, UNLOCK''),
              (''dav'', ''1,2''), (''ms-author-via'', ''DAV''), (''content-length'', ''0'')],
           resp_body = Empty\<rparr>, st)"

end
