(* ===== verification/Webdav_Handlers.thy ===== *)
theory Webdav_Handlers
  imports App_State Collect
begin

section \<open>PROPFIND, MKCOL, COPY, MOVE and PROPPATCH (src/handlers/webdav.rs)\<close>

text \<open>
  The WebDAV handlers. The copy loop has a stack of directories and may never empty it, so it is a
  partial function whose value \<open>None\<close> says that it does not return. A directory is listed when it
  is taken from the stack, and each of its entries is then handled in turn.
\<close>

subsection \<open>PROPFIND\<close>

definition decorate_entry ::
  "system_time \<Rightarrow> dead_property_store \<Rightarrow> lock_store \<Rightarrow> prop_entry \<Rightarrow> prop_entry" where
  "decorate_entry now dead_store locks entry =
     (case pe_canonical_path entry of
        None \<Rightarrow> entry
      | Some cp \<Rightarrow>
          (let entry1 = entry\<lparr>pe_dead_props := map_of dead_store cp\<rparr>
           in case map_of locks cp of
                None \<Rightarrow> entry1
              | Some infos \<Rightarrow>
                  (let active = active_slice now infos
                   in if active \<noteq> [] then entry1\<lparr>pe_active_locks := Some active\<rparr> else entry1)))"

definition propfind_entries ::
  "externals \<Rightarrow> system_time \<Rightarrow> app_state \<Rightarrow> pathbuf \<Rightarrow> string \<Rightarrow> depth \<Rightarrow> prop_entry list option" where
  "propfind_entries x now st fs_path request_path d =
     map_option (map (decorate_entry now (st_dead_props st) (st_locks st)))
       (collect_entries x (st_fs st) fs_path request_path d)"

definition handle_propfind :: handler where
  "handle_propfind x now req st =
     (case opt_or_status (state_resolve_existing x st (req_path req)) NOT_FOUND of
        Inl e \<Rightarrow> (Inl e, st)
      | Inr fs_path \<Rightarrow>
          (case opt_or_status (req_bytes req) BAD_REQUEST of
             Inl e \<Rightarrow> (Inl e, st)
           | Inr body_bytes \<Rightarrow>
               (case or_status (parse_propfind_request (ext_reader x) body_bytes) BAD_REQUEST of
                  Inl e \<Rightarrow> (Inl e, st)
                | Inr prop_request \<Rightarrow>
                    (case Option.bind
                            (propfind_entries x now st fs_path (req_path req) (parse_depth (req_headers req)))
                            (\<lambda>entries. build_multistatus entries prop_request) of
                       None \<Rightarrow> (Inl NO_RESPONSE, st)
                     | Some xml \<Rightarrow> (Inr (multistatus xml), st)))))"

subsection \<open>MKCOL\<close>

definition has_body :: "header_map \<Rightarrow> bool" where
  "has_body h = (case header_str h ''content-length'' of None \<Rightarrow> False | Some v \<Rightarrow> v \<noteq> ''0'')"

definition make_collection :: "fs \<Rightarrow> pathbuf \<Rightarrow> reply \<times> fs" where
  "make_collection f target =
     (case metadata f target of
        Inr _ \<Rightarrow> (Inl METHOD_NOT_ALLOWED, f)
      | Inl _ \<Rightarrow>
          (case create_dir f target of
             (Inr _, f1) \<Rightarrow> (empty_reply CREATED, f1)
           | (Inl _, f1) \<Rightarrow> (Inl INTERNAL_SERVER_ERROR, f1)))"

definition handle_mkcol :: handler where
  "handle_mkcol x now req st =
     (if has_body (req_headers req) then (Inl UNSUPPORTED_MEDIA_TYPE, st)
      else (case state_resolve_and_guard x st (trim_end_matches sep (req_path req)) of
              (r, st1) \<Rightarrow>
                (case or_invalid r FORBIDDEN of
                   Inl e \<Rightarrow> (Inl e, st1)
                 | Inr target \<Rightarrow>
                     (case make_collection (st_fs st1) target of (rep, f) \<Rightarrow> (rep, st1\<lparr>st_fs := f\<rparr>)))))"

subsection \<open>COPY and MOVE\<close>

definition copy_file :: "fs \<Rightarrow> pathbuf \<Rightarrow> pathbuf \<Rightarrow> unit app_result \<times> fs" where
  "copy_file f src dest =
     (case copy_content f src dest of (r, f1) \<Rightarrow> (or_status r INTERNAL_SERVER_ERROR, f1))"

text \<open>One entry of a directory: the error, or the directories it adds to the stack.\<close>

definition copy_entry ::
  "pathbuf \<Rightarrow> pathbuf \<Rightarrow> string \<times> node \<Rightarrow> fs \<Rightarrow> (pathbuf \<times> pathbuf) list app_result \<times> fs" where
  "copy_entry src_dir dest_dir = (\<lambda>(name, nd) f.
     let entry_src = path_join src_dir name; entry_dest = path_join dest_dir name
     in case nd of
          Dir \<Rightarrow>
            (case create_dir f entry_dest of
               (Inl e, f1) \<Rightarrow>
                 if e \<noteq> AlreadyExists then (Inl INTERNAL_SERVER_ERROR, f1)
                 else (Inr [(entry_src, entry_dest)], f1)
             | (Inr _, f1) \<Rightarrow> (Inr [(entry_src, entry_dest)], f1))
        | Symlink _ \<Rightarrow> (Inr [], f)
        | File _ \<Rightarrow>
            (case copy_content f entry_src entry_dest of
               (Inl _, f1) \<Rightarrow> (Inl INTERNAL_SERVER_ERROR, f1)
             | (Inr _, f1) \<Rightarrow> (Inr [], f1)))"

fun copy_listing ::
  "pathbuf \<Rightarrow> pathbuf \<Rightarrow> (string \<times> node) list \<Rightarrow> (pathbuf \<times> pathbuf) list \<Rightarrow> fs \<Rightarrow>
     (pathbuf \<times> pathbuf) list app_result \<times> fs" where
  "copy_listing src_dir dest_dir [] stack f = (Inr stack, f)"
| "copy_listing src_dir dest_dir (entry # rest) stack f =
     (case copy_entry src_dir dest_dir entry f of
        (Inl e, f1) \<Rightarrow> (Inl e, f1)
      | (Inr pushed, f1) \<Rightarrow> copy_listing src_dir dest_dir rest (pushed @ stack) f1)"

definition copy_step ::
  "pathbuf \<Rightarrow> pathbuf \<Rightarrow> (pathbuf \<times> pathbuf) list \<Rightarrow> fs \<Rightarrow> (pathbuf \<times> pathbuf) list app_result \<times> fs" where
  "copy_step src_dir dest_dir stack f =
     (case read_dir f src_dir of
        Inl _ \<Rightarrow> (Inl INTERNAL_SERVER_ERROR, f)
      | Inr listing \<Rightarrow> copy_listing src_dir dest_dir listing stack f)"

partial_function (option) copy_loop :: "(pathbuf \<times> pathbuf) list \<Rightarrow> fs \<Rightarrow> (unit app_result \<times> fs) option" where
  "copy_loop stack f =
     (case stack of
        [] \<Rightarrow> Some (Inr (), f)
      | (src_dir, dest_dir) # rest \<Rightarrow>
          (case copy_step src_dir dest_dir rest f of
             (Inl e, f1) \<Rightarrow> Some (Inl e, f1)
           | (Inr stack1, f1) \<Rightarrow> copy_loop stack1 f1))"

text \<open>Reasoning about a copy that returns, along its steps.\<close>

lemma copy_loop_induct [consumes 1, case_names empty failed again]:
  assumes "copy_loop stack f = Some res"
    and "\<And>f. P [] f (Inr (), f)"
    and "\<And>s d rest f e f1. copy_step s d rest f = (Inl e, f1) \<Longrightarrow> P ((s, d) # rest) f (Inl e, f1)"
    and "\<And>s d rest f stack1 f1 res. copy_step s d rest f = (Inr stack1, f1) \<Longrightarrow> P stack1 f1 res \<Longrightarrow>
      P ((s, d) # rest) f res"
  shows "P stack f res"
proof (rule copy_loop.raw_induct [OF _ assms(1)])
  fix loop stack f res
  assume IH: "\<And>stack f res. loop stack f = Some res \<Longrightarrow> P stack f res"
    and step: "(case stack of [] \<Rightarrow> Some (Inr (), f)
      | (src_dir, dest_dir) # rest \<Rightarrow>
          (case copy_step src_dir dest_dir rest f of
             (Inl e, f1) \<Rightarrow> Some (Inl e, f1)
           | (Inr stack1, f1) \<Rightarrow> loop stack1 f1)) = Some res"
  show "P stack f res"
  proof (cases stack)
    case Nil
    with step assms(2) show ?thesis by auto
  next
    case (Cons sd rest)
    obtain s d where sd: "sd = (s, d)" by (cases sd)
    obtain r f1 where c: "copy_step s d rest f = (r, f1)" by fastforce
    show ?thesis
      using step Cons sd c assms(3,4) IH by (cases r) auto
  qed
qed

definition copy_dir :: "fs \<Rightarrow> pathbuf \<Rightarrow> pathbuf \<Rightarrow> bool \<Rightarrow> (unit app_result \<times> fs) option" where
  "copy_dir f src dest dest_existed =
     (case (if \<not> dest_existed then create_dir f dest else (Inr (), f)) of
        (Inl _, f1) \<Rightarrow> Some (Inl INTERNAL_SERVER_ERROR, f1)
      | (Inr _, f1) \<Rightarrow> copy_loop [(src, dest)] f1)"

text \<open>The file system's part of \<open>do_move_or_copy\<close>, from the clean-up of the target to the rename.\<close>

definition clear_target :: "externals \<Rightarrow> fs \<Rightarrow> file_meta \<Rightarrow> pathbuf \<Rightarrow> bool \<Rightarrow> bool \<Rightarrow> bool \<times> fs" where
  "clear_target x f meta dest overwrite dest_existed =
     (if overwrite \<and> dest_existed then
        (case stat_path x f dest of
           Inl _ \<Rightarrow> (dest_existed, f)
         | Inr dest_meta \<Rightarrow>
             if \<not> fm_is_dir meta \<and> fm_is_dir dest_meta then (False, snd (remove_dir_all f dest))
             else if fm_is_dir meta \<and> \<not> fm_is_dir dest_meta then (False, snd (remove_file f dest))
             else (dest_existed, f))
      else (dest_existed, f))"

definition copy_resource ::
  "fs \<Rightarrow> bool \<Rightarrow> depth \<Rightarrow> bool \<Rightarrow> pathbuf \<Rightarrow> pathbuf \<Rightarrow> bool \<Rightarrow> (unit app_result \<times> fs) option" where
  "copy_resource f is_move d src_is_dir src dest dest_existed =
     (if src_is_dir then
        (if \<not> is_move \<and> d = Zero then
           Some (if dest_existed then (Inr (), f)
                 else (case create_dir f dest of
                         (Inl _, f1) \<Rightarrow> (Inl INTERNAL_SERVER_ERROR, f1)
                       | (Inr _, f1) \<Rightarrow> (Inr (), f1)))
         else copy_dir f src dest dest_existed)
      else Some (copy_file f src dest))"

definition finish_move :: "fs \<Rightarrow> bool \<Rightarrow> bool \<Rightarrow> pathbuf \<Rightarrow> pathbuf \<Rightarrow> fs" where
  "finish_move f is_move src_is_dir src dest =
     (if is_move then
        (case rename f src dest of
           (Inr _, f1) \<Rightarrow> f1
         | (Inl _, f1) \<Rightarrow> if src_is_dir then snd (remove_dir_all f1 src) else snd (remove_file f1 src))
      else f)"

definition migrate_dead_props ::
  "bool \<Rightarrow> pathbuf \<Rightarrow> pathbuf \<Rightarrow> dead_property_store \<Rightarrow> dead_property_store" where
  "migrate_dead_props is_move src dest dead =
     (case map_of dead src of
        None \<Rightarrow> dead
      | Some props \<Rightarrow>
          (let dead1 = AList.delete src dead;
               dead2 = (if \<not> is_move then AList.update src props dead1 else dead1)
           in AList.update dest props dead2))"

definition transfer ::
  "externals \<Rightarrow> bool \<Rightarrow> bool \<Rightarrow> depth \<Rightarrow> pathbuf \<Rightarrow> pathbuf \<Rightarrow> app_state \<Rightarrow> reply \<times> app_state" where
  "transfer x is_move overwrite d fs_src dest st =
     (let dest_existed_before = path_exists (st_fs st) dest
      in if dest_existed_before \<and> \<not> overwrite then (Inl PRECONDITION_FAILED, st)
         else (case or_status (stat_path x (st_fs st) fs_src) NOT_FOUND of
                 Inl e \<Rightarrow> (Inl e, st)
               | Inr meta \<Rightarrow>
                   (case clear_target x (st_fs st) meta dest overwrite dest_existed_before of
                      (dest_existed, f1) \<Rightarrow>
                        (case copy_resource f1 is_move d (fm_is_dir meta) fs_src dest dest_existed of
                           None \<Rightarrow> (Inl NO_RESPONSE, st\<lparr>st_fs := f1\<rparr>)
                         | Some (Inl e, f2) \<Rightarrow> (Inl e, st\<lparr>st_fs := f2\<rparr>)
                         | Some (Inr _, f2) \<Rightarrow>
                             (empty_reply (if dest_existed_before then NO_CONTENT else CREATED),
                              st\<lparr>st_fs := finish_move f2 is_move (fm_is_dir meta) fs_src dest,
                                 st_dead_props := migrate_dead_props is_move fs_src dest (st_dead_props st)\<rparr>)))))"

definition do_move_or_copy :: "bool \<Rightarrow> handler" where
  "do_move_or_copy is_move x now req st =
     (let headers = req_headers req
      in case opt_or_status (parse_destination (ext_pct x) headers) BAD_REQUEST of
           Inl e \<Rightarrow> (Inl e, st)
         | Inr dest_str \<Rightarrow>
             (case opt_or_status (state_resolve_existing x st (req_path req)) NOT_FOUND of
                Inl e \<Rightarrow> (Inl e, st)
              | Inr fs_src \<Rightarrow>
                  (case opt_or_status (state_resolve_write_target x st dest_str) FORBIDDEN of
                     Inl e \<Rightarrow> (Inl e, st)
                   | Inr fs_dest \<Rightarrow>
                       if path_eq fs_src fs_dest then (Inl FORBIDDEN, st)
                       else (case state_resolve_and_guard x st dest_str of
                               (r, st1) \<Rightarrow>
                                 (case or_invalid r BAD_REQUEST of
                                    Inl e \<Rightarrow> (Inl e, st1)
                                  | Inr dest \<Rightarrow>
                                      transfer x is_move (parse_overwrite headers) (parse_depth headers)
                                        fs_src dest st1)))))"

definition handle_copy :: handler where
  "handle_copy = do_move_or_copy False"

definition handle_move :: handler where
  "handle_move = do_move_or_copy True"

subsection \<open>PROPPATCH\<close>

fun apply_action :: "(string \<times> string) list \<Rightarrow> prop_patch_action \<Rightarrow> (string \<times> string) list" where
  "apply_action entry (PropPatchAction name (Some v)) = AList.update name v entry"
| "apply_action entry (PropPatchAction name None) = AList.delete name entry"

definition patch_props ::
  "pathbuf \<Rightarrow> prop_patch_action list \<Rightarrow> dead_property_store \<Rightarrow> dead_property_store" where
  "patch_props p acts dead =
     (let dead1 = entry_or_default p [] dead
      in AList.update p (foldl apply_action (case map_of dead1 p of None \<Rightarrow> [] | Some e \<Rightarrow> e) acts) dead1)"

fun action_name :: "prop_patch_action \<Rightarrow> string" where
  "action_name (PropPatchAction name _) = name"

definition write_proppatch_result :: "string \<Rightarrow> string \<Rightarrow> string \<Rightarrow> out_event list" where
  "write_proppatch_result href prop_name status_line =
     [w_start EL_RESPONSE, w_start EL_HREF, W_Text href, w_end EL_HREF] @
     propstat [W_Empty (fst (clark_elem prop_name)) (snd (clark_elem prop_name))] (''HTTP/1.1 '' @ status_line) @
     [w_end EL_RESPONSE]"

definition build_proppatch_response :: "string \<Rightarrow> prop_patch_op \<Rightarrow> out_event list" where
  "build_proppatch_response request_path op =
     [W_Decl, W_Start (el_name EL_MULTI_STATUS) [(''xmlns:D'', ''DAV:'')]] @
     concat (map (\<lambda>a. write_proppatch_result request_path (action_name a) ''200 OK'') (pp_actions op)) @
     [w_end EL_MULTI_STATUS]"

definition handle_proppatch :: handler where
  "handle_proppatch x now req st =
     (case opt_or_status (state_resolve_existing x st (req_path req)) NOT_FOUND of
        Inl e \<Rightarrow> (Inl e, st)
      | Inr fs_path \<Rightarrow>
          (case opt_or_status (req_bytes req) BAD_REQUEST of
             Inl e \<Rightarrow> (Inl e, st)
           | Inr body_bytes \<Rightarrow>
               (case or_status (parse_proppatch_request (ext_reader x) body_bytes) BAD_REQUEST of
                  Inl e \<Rightarrow> (Inl e, st)
                | Inr op \<Rightarrow>
                    (Inr (multistatus (build_proppatch_response (req_path req) op)),
                     st\<lparr>st_dead_props := patch_props fs_path (pp_actions op) (st_dead_props st)\<rparr>))))"

end
