(* ===== verification/Auth.thy ===== *)
theory Auth
  imports Cleanup Fs_Model Utf8
begin

section \<open>Credentials and the shadow file (src/auth.rs)\<close>

text \<open>
  The users, the cache of verified \<open>Authorization\<close> headers, and the shadow file. The hash maps are
  association lists; the order in which the users are written is that of the list. \<open>auth_externals\<close>
  holds the code of other packages: checking and making SHA-512 crypt hashes, base64 decoding,
  the hasher of the header (its algorithm is unspecified), and which paths have no write
  permission bit, since the file system model has no permission bits.
\<close>

record auth_externals =
  ax_verify :: "string \<Rightarrow> string \<Rightarrow> bool"
  ax_hash_password :: "string \<Rightarrow> string option"
  ax_header_hash :: "string \<Rightarrow> nat"
  ax_base64 :: "string \<Rightarrow> string option"
  ax_readonly :: "fs \<Rightarrow> pathbuf \<Rightarrow> bool"

datatype credential = Plaintext string | Sha512Crypt string

record shadow_file_arg =
  sf_path :: string
  sf_writable :: bool

definition from_shadow_arg :: "string \<Rightarrow> shadow_file_arg" where
  "from_shadow_arg s =
     (case strip_suffix s '':rw'' of
        Some p \<Rightarrow> \<lparr>sf_path = p, sf_writable = True\<rparr>
      | None \<Rightarrow>
          (case strip_suffix s '':ro'' of
             Some p \<Rightarrow> \<lparr>sf_path = p, sf_writable = False\<rparr>
           | None \<Rightarrow> \<lparr>sf_path = s, sf_writable = True\<rparr>))"

type_synonym users = "(string \<times> credential) list"

record auth_state =
  au_users :: users
  au_cache :: auth_cache
  au_cache_ttl :: duration

definition auth_state_new :: auth_state where
  "auth_state_new = \<lparr>au_users = [], au_cache = [], au_cache_ttl = from_secs 60\<rparr>"

definition add_user :: "string \<Rightarrow> string \<Rightarrow> auth_state \<Rightarrow> auth_state" where
  "add_user username password a = a\<lparr>au_users := AList.update username (Plaintext password) (au_users a)\<rparr>"

definition auth_is_empty :: "auth_state \<Rightarrow> bool" where
  "auth_is_empty a \<longleftrightarrow> au_users a = []"

definition user_count :: "auth_state \<Rightarrow> nat" where
  "user_count a = length (au_users a)"

definition validate :: "auth_externals \<Rightarrow> auth_state \<Rightarrow> string \<Rightarrow> string \<Rightarrow> bool" where
  "validate ax a username password =
     (case map_of (au_users a) username of
        Some (Plaintext expected) \<Rightarrow> expected = password
      | Some (Sha512Crypt hash) \<Rightarrow> ax_verify ax password hash
      | None \<Rightarrow> False)"

text \<open>
  \<open>Instant + Duration\<close> panics when the seconds leave an \<open>i64\<close>; \<open>None\<close> is this panic.
\<close>

definition instant_add :: "instant \<Rightarrow> duration \<Rightarrow> instant option" where
  "instant_add i d = (if (i + d) div 10 ^ 9 < 2 ^ 63 then Some (i + d) else None)"

definition as_secs :: "duration \<Rightarrow> nat" where
  "as_secs d = d div 10 ^ 9"

definition cache_hit :: "instant \<Rightarrow> auth_cache \<Rightarrow> nat \<Rightarrow> bool" where
  "cache_hit now cache h = (case map_of cache h of Some e \<Rightarrow> now < e | None \<Rightarrow> False)"

definition validate_cached ::
  "auth_externals \<Rightarrow> instant \<Rightarrow> auth_state \<Rightarrow> string \<Rightarrow> string \<Rightarrow> nat \<Rightarrow> (bool \<times> auth_cache) option" where
  "validate_cached ax now a username password header_hash =
     (case map_of (au_users a) username of
        Some (Plaintext expected) \<Rightarrow> Some (expected = password, au_cache a)
      | Some (Sha512Crypt hash) \<Rightarrow>
          (let cache_enabled = 0 < as_secs (au_cache_ttl a)
           in if cache_enabled \<and> cache_hit now (au_cache a) header_hash then
                (case instant_add now (au_cache_ttl a) of
                   None \<Rightarrow> None
                 | Some expiry \<Rightarrow>
                     Some (True, AList.map_entry header_hash (\<lambda>_. expiry) (au_cache a)))
              else (let ok = ax_verify ax password hash
                    in if ok \<and> cache_enabled then
                         (case instant_add now (au_cache_ttl a) of
                            None \<Rightarrow> None
                          | Some expiry \<Rightarrow> Some (ok, AList.update header_hash expiry (au_cache a)))
                       else Some (ok, au_cache a)))
      | None \<Rightarrow> Some (False, au_cache a))"

definition merge_cli :: "auth_state \<Rightarrow> auth_state \<Rightarrow> auth_state" where
  "merge_cli a other =
     a\<lparr>au_users := foldl (\<lambda>us (username, c). AList.update username c us) (au_users a) (au_users other)\<rparr>"

subsection \<open>The shadow file\<close>

definition read_to_string :: "fs \<Rightarrow> pathbuf \<Rightarrow> io_error + string" where
  "read_to_string f p =
     (if fs_deny f Op_open p then Inl OtherError
      else case metadata f p of
             Inl e \<Rightarrow> Inl e
           | Inr (File c) \<Rightarrow> (case from_utf8 c of None \<Rightarrow> Inl OtherError | Some s \<Rightarrow> Inr s)
           | Inr _ \<Rightarrow> Inl IsADirectory)"

definition fs_write :: "fs \<Rightarrow> pathbuf \<Rightarrow> string \<Rightarrow> (io_error + unit) \<times> fs" where
  "fs_write f p content =
     (case file_create f p of
        (Inl e, f1) \<Rightarrow> (Inl e, f1)
      | (Inr q, f1) \<Rightarrow>
          if fs_deny f1 Op_write p then (Inl OtherError, f1) else (Inr (), fs_set q (File content) f1))"

definition shadow_line :: "users \<Rightarrow> string \<Rightarrow> users" where
  "shadow_line us raw =
     (let line = trim raw
      in if line = [] then us
         else (case split_once (CHR '':'') line of
                 None \<Rightarrow> us
               | Some (username, rest) \<Rightarrow>
                   if username = [] then us
                   else (let hash = (case split_once (CHR '':'') rest of Some (h, _) \<Rightarrow> h | None \<Rightarrow> rest)
                         in if hash = [] \<or> \<not> starts_with hash ''$'' then us
                            else AList.update username (Sha512Crypt hash) us)))"

definition parse_shadow :: "string \<Rightarrow> users" where
  "parse_shadow content = foldl shadow_line [] (lines content)"

definition load_from_shadow_file :: "fs \<Rightarrow> pathbuf \<Rightarrow> io_error + auth_state" where
  "load_from_shadow_file f p =
     (case read_to_string f p of
        Inl e \<Rightarrow> Inl e
      | Inr content \<Rightarrow> Inr (auth_state_new\<lparr>au_users := parse_shadow content\<rparr>))"

definition credential_hash :: "auth_externals \<Rightarrow> credential \<Rightarrow> string option" where
  "credential_hash ax c = (case c of Sha512Crypt h \<Rightarrow> Some h | Plaintext p \<Rightarrow> ax_hash_password ax p)"

fun shadow_content :: "auth_externals \<Rightarrow> users \<Rightarrow> string option" where
  "shadow_content ax [] = Some []"
| "shadow_content ax ((username, c) # us) =
     (case credential_hash ax c of
        None \<Rightarrow> None
      | Some hash \<Rightarrow>
          map_option (\<lambda>rest. username @ '':'' @ hash @ [char_of (10::nat)] @ rest) (shadow_content ax us))"

text \<open>\<open>create_dir_all\<close>: the directory, after its missing ancestors.\<close>

definition dir_at :: "fs \<Rightarrow> pathbuf \<Rightarrow> bool" where
  "dir_at f p \<longleftrightarrow> metadata f p = Inr Dir"

fun create_dir_all_fuel :: "nat \<Rightarrow> fs \<Rightarrow> pathbuf \<Rightarrow> (io_error + unit) \<times> fs" where
  "create_dir_all_fuel k f p =
     (if p = [] then (Inr (), f)
      else case create_dir f p of
             (Inr _, f1) \<Rightarrow> (Inr (), f1)
           | (Inl NotFound, f1) \<Rightarrow>
               (case (k, path_parent p) of
                  (Suc k', Some parent) \<Rightarrow>
                    (case create_dir_all_fuel k' f1 parent of
                       (Inl e, f2) \<Rightarrow> (Inl e, f2)
                     | (Inr _, f2) \<Rightarrow>
                         (case create_dir f2 p of
                            (Inr _, f3) \<Rightarrow> (Inr (), f3)
                          | (Inl e, f3) \<Rightarrow> if dir_at f3 p then (Inr (), f3) else (Inl e, f3)))
                | _ \<Rightarrow> (Inl OtherError, f1))
           | (Inl e, f1) \<Rightarrow> if dir_at f1 p then (Inr (), f1) else (Inl e, f1))"

definition create_dir_all :: "fs \<Rightarrow> pathbuf \<Rightarrow> (io_error + unit) \<times> fs" where
  "create_dir_all f p = create_dir_all_fuel (length (components p)) f p"

definition create_private :: "fs \<Rightarrow> pathbuf \<Rightarrow> (io_error + unit) \<times> fs" where
  \<comment> \<open>\<open>File::create_new(..)?.set_permissions(0o600)\<close>\<close>
  "create_private f p =
     (case file_create_new f p of
        (Inl e, f1) \<Rightarrow> (Inl e, f1)
      | (Inr _, f1) \<Rightarrow> (if fs_deny f1 Op_set_permissions p then Inl OtherError else Inr (), f1))"

definition create_shadow_file :: "fs \<Rightarrow> pathbuf \<Rightarrow> (io_error + unit) \<times> fs" where
  "create_shadow_file f p = create_private f p"

definition prepare_shadow :: "fs \<Rightarrow> pathbuf \<Rightarrow> bool \<Rightarrow> (io_error + unit) \<times> fs" where
  "prepare_shadow f p create =
     (if \<not> create then (Inr (), f)
      else case (case path_parent p of None \<Rightarrow> (Inr (), f) | Some parent \<Rightarrow> create_dir_all f parent) of
             (Inl e, f1) \<Rightarrow> (Inl e, f1)
           | (Inr _, f1) \<Rightarrow> create_private f1 p)"

definition write_to_shadow_file ::
  "auth_externals \<Rightarrow> auth_state \<Rightarrow> fs \<Rightarrow> pathbuf \<Rightarrow> bool \<Rightarrow> (io_error + unit) \<times> fs" where
  "write_to_shadow_file ax a f p create =
     (case prepare_shadow f p create of
        (Inl e, f1) \<Rightarrow> (Inl e, f1)
      | (Inr _, f1) \<Rightarrow>
          (case shadow_content ax (au_users a) of
             None \<Rightarrow> (Inl OtherError, f1)
           | Some content \<Rightarrow> fs_write f1 p content))"

definition hash_auth_header :: "auth_externals \<Rightarrow> string \<Rightarrow> nat" where
  "hash_auth_header ax v = ax_header_hash ax v"

definition is_path_writable :: "auth_externals \<Rightarrow> fs \<Rightarrow> pathbuf \<Rightarrow> bool" where
  "is_path_writable ax f p =
     (if path_exists f p then \<not> ax_readonly ax f p
      else case path_parent p of
             Some parent \<Rightarrow> if path_exists f parent then \<not> ax_readonly ax f parent else True
           | None \<Rightarrow> True)"

end
