(* ===== verification/Tailscale.thy ===== *)
theory Tailscale
  imports Auth
begin

section \<open>Tailscale identities (src/middleware/tailscale.rs)\<close>

text \<open>
  The allow-list of the identity gate, its two sources and their merge. The gate itself is in the
  theory of the server's middleware.
\<close>

definition IDENTITY_HEADER :: string where
  "IDENTITY_HEADER = ''tailscale-user-login''"

datatype tailscale_auth_state =
    Disabled
  | AllowAll
  | AllowList "(string \<times> string option) list"

definition tailscale_new :: tailscale_auth_state where
  "tailscale_new = Disabled"

definition allow_list :: "(string \<times> string option) list \<Rightarrow> tailscale_auth_state" where
  "allow_list logins = (if logins = [] then Disabled else AllowList logins)"

definition from_arg :: "string \<Rightarrow> tailscale_auth_state" where
  "from_arg raw0 =
     (let raw = trim raw0
      in if raw = [] then Disabled
         else if eq_ignore_ascii_case raw ''all'' then AllowAll
         else allow_list
                (foldl (\<lambda>m login. AList.update login None m) []
                   (filter (\<lambda>s. s \<noteq> []) (map trim (split_on (CHR '','') raw)))))"

fun users_lines :: "string list \<Rightarrow> (string \<times> string option) list \<Rightarrow> tailscale_auth_state" where
  "users_lines [] logins = allow_list logins"
| "users_lines (raw # rest) logins =
     (let line = trim raw
      in if line = [] \<or> starts_with line ''#'' then users_lines rest logins
         else if eq_ignore_ascii_case line ''all'' then AllowAll
         else (case split_whitespace line of
                 [] \<Rightarrow> users_lines rest logins
               | login # others \<Rightarrow>
                   users_lines rest
                     (AList.update login (case others of [] \<Rightarrow> None | mapped # _ \<Rightarrow> Some mapped) logins)))"

definition from_file :: "fs \<Rightarrow> pathbuf \<Rightarrow> io_error + tailscale_auth_state" where
  "from_file f p =
     (case read_to_string f p of Inl e \<Rightarrow> Inl e | Inr content \<Rightarrow> Inr (users_lines (lines content) []))"

fun merge :: "tailscale_auth_state \<Rightarrow> tailscale_auth_state \<Rightarrow> tailscale_auth_state" where
  "merge AllowAll _ = AllowAll"
| "merge _ AllowAll = AllowAll"
| "merge Disabled s = s"
| "merge s Disabled = s"
| "merge (AllowList a) (AllowList b) =
     AllowList (foldl (\<lambda>m (login, mapped). AList.update login mapped m) a b)"

fun tailscale_is_empty :: "tailscale_auth_state \<Rightarrow> bool" where
  "tailscale_is_empty Disabled = True"
| "tailscale_is_empty _ = False"

fun tailscale_user_count :: "tailscale_auth_state \<Rightarrow> nat" where
  "tailscale_user_count Disabled = 0"
| "tailscale_user_count AllowAll = 2 ^ 64 - 1"
| "tailscale_user_count (AllowList m) = length m"

fun tailscale_validate :: "tailscale_auth_state \<Rightarrow> string \<Rightarrow> bool" where
  "tailscale_validate Disabled login = False"
| "tailscale_validate AllowAll login = True"
| "tailscale_validate (AllowList m) login = (map_of m login \<noteq> None)"

fun mapped_name :: "tailscale_auth_state \<Rightarrow> string \<Rightarrow> string option" where
  "mapped_name (AllowList m) login = (case map_of m login of Some v \<Rightarrow> v | None \<Rightarrow> None)"
| "mapped_name _ login = None"

subsection \<open>What a merge grants\<close>

definition add_logins ::
  "(string \<times> string option) list \<Rightarrow> (string \<times> string option) list \<Rightarrow> (string \<times> string option) list" where
  "add_logins a b = foldl (\<lambda>m (login, mapped). AList.update login mapped m) a b"

lemma add_logins_get:
  "map_of (add_logins a b) login = (case map_of (rev b) login of Some v \<Rightarrow> Some v | None \<Rightarrow> map_of a login)"
proof (induction b rule: rev_induct)
  case (snoc e b)
  then show ?case by (cases e) (auto simp: add_logins_def hm_simps)
qed (simp add: add_logins_def)

lemma map_of_rev_None: "map_of (rev b) k = None \<longleftrightarrow> k \<notin> fst ` set b"
  by (simp add: map_of_eq_None_iff)

lemma add_logins_has: "map_of (add_logins a b) login = None \<longleftrightarrow> map_of a login = None \<and> map_of b login = None"
  using map_of_rev_None [of b login] map_of_eq_None_iff [of b login]
  by (auto simp: add_logins_get split: option.splits)

text \<open>
  Two sources of logins are joined so that either grants access. The merge of two states
  accepts a login exactly when one of them does, and the gate is off only when both are off.
\<close>

theorem merge_grants_either:
  "(tailscale_validate (merge a b) login \<longleftrightarrow> tailscale_validate a login \<or> tailscale_validate b login) \<and>
   (tailscale_is_empty (merge a b) \<longleftrightarrow> tailscale_is_empty a \<and> tailscale_is_empty b)"
proof
  show "tailscale_validate (merge a b) login \<longleftrightarrow> tailscale_validate a login \<or> tailscale_validate b login"
    by (cases a; cases b) (simp_all add: add_logins_def [symmetric] add_logins_has del: not_None_eq)
  show "tailscale_is_empty (merge a b) \<longleftrightarrow> tailscale_is_empty a \<and> tailscale_is_empty b"
    by (cases a; cases b) simp_all
qed

end
