(* ===== verification/Cli.thy ===== *)
theory Cli
  imports Tailscale "HOL-Library.Word"
begin

section \<open>The command line and the authentication set-up (src/cli.rs, src/auth.rs)\<close>

text \<open>
  The parsed command line (parsing is clap's), the values built from it, and \<open>build_auth_state\<close>,
  which reads and writes the shadow file. \<open>rshs_log\<close> is the variable RSHS_LOG of the environment.
  The log lines of the functions are not modelled, so that branches that only log leave no trace.
\<close>

record cli =
  cli_root_dir :: string
  cli_host :: string
  cli_port :: "16 word option"
  cli_tls_cert :: "string option"
  cli_tls_key :: "string option"
  cli_users :: "string list"
  cli_shadow_file :: "string option"
  cli_shadow_write :: bool
  cli_auth_cache_ttl :: nat
  cli_accept_tailscale :: "string option"
  cli_tailscale_users_file :: "string option"
  cli_lock_timeout :: nat
  cli_verbose :: "8 word"
  cli_quiet :: bool

definition effective_port :: "cli \<Rightarrow> 16 word" where
  "effective_port c =
     (case cli_port c of Some p \<Rightarrow> p | None \<Rightarrow> if cli_tls_cert c \<noteq> None then 8443 else 8080)"

record tls_config =
  tls_cert_path :: string
  tls_key_path :: string

definition to_tls_config :: "cli \<Rightarrow> tls_config option" where
  "to_tls_config c =
     (case (cli_tls_cert c, cli_tls_key c) of
        (Some cert, Some key) \<Rightarrow> Some \<lparr>tls_cert_path = cert, tls_key_path = key\<rparr>
      | _ \<Rightarrow> None)"

definition to_shadow_file_arg :: "cli \<Rightarrow> shadow_file_arg option" where
  "to_shadow_file_arg c = map_option from_shadow_arg (cli_shadow_file c)"

definition to_auth_state :: "cli \<Rightarrow> auth_state" where
  "to_auth_state c =
     foldl (\<lambda>a entry.
              case split_once (CHR '':'') entry of
                Some (username, password) \<Rightarrow> if username \<noteq> [] then add_user username password a else a
              | None \<Rightarrow> a)
       auth_state_new (cli_users c)"

definition to_tailscale_auth_state :: "fs \<Rightarrow> cli \<Rightarrow> tailscale_auth_state" where
  "to_tailscale_auth_state f c =
     (let from_flag = (case cli_accept_tailscale c of Some raw \<Rightarrow> from_arg raw | None \<Rightarrow> tailscale_new);
          from_users_file =
            (case cli_tailscale_users_file c of
               Some p \<Rightarrow> (case from_file f p of Inr s \<Rightarrow> s | Inl _ \<Rightarrow> tailscale_new)
             | None \<Rightarrow> tailscale_new)
      in merge from_flag from_users_file)"

definition log_level :: "string option \<Rightarrow> string \<Rightarrow> cli \<Rightarrow> string" where
  "log_level rshs_log default_level c =
     (if cli_quiet c then ''off''
      else if cli_verbose c = 0 then (case rshs_log of Some l \<Rightarrow> l | None \<Rightarrow> default_level)
      else if cli_verbose c = 1 then ''debug''
      else ''trace'')"

subsection \<open>build_auth_state\<close>

definition ensure_shadow_dir :: "fs \<Rightarrow> pathbuf \<Rightarrow> fs" where
  "ensure_shadow_dir f p =
     (case path_parent p of
        None \<Rightarrow> f
      | Some parent \<Rightarrow>
          if parent \<noteq> [] \<and> \<not> path_exists f parent then snd (create_dir_all f parent) else f)"

definition load_or_create :: "fs \<Rightarrow> pathbuf \<Rightarrow> auth_state \<times> fs" where
  "load_or_create f p =
     (let f1 = ensure_shadow_dir f p;
          f2 = (if path_exists f1 p then f1 else snd (create_shadow_file f1 p))
      in (case load_from_shadow_file f2 p of Inr cfg \<Rightarrow> cfg | Inl _ \<Rightarrow> auth_state_new, f2))"

definition build_auth_state :: "auth_externals \<Rightarrow> fs \<Rightarrow> cli \<Rightarrow> auth_state \<times> fs" where
  "build_auth_state ax f c =
     (let cli_creds = to_auth_state c
      in case to_shadow_file_arg c of
           None \<Rightarrow> (cli_creds, f)
         | Some shadow \<Rightarrow>
             (let p = sf_path shadow;
                  (loaded, f1) = load_or_create f p;
                  merged = (if \<not> auth_is_empty cli_creds then merge_cli loaded cli_creds else loaded);
                  f2 = (if cli_shadow_write c \<and> is_path_writable ax f1 p
                        then snd (write_to_shadow_file ax merged f1 p False) else f1)
              in (merged\<lparr>au_cache_ttl := if cli_auth_cache_ttl c = 0 then 0
                                          else from_secs (cli_auth_cache_ttl c)\<rparr>, f2)))"

end
