(* ===== verification/Server.thy ===== *)
theory Server
  imports Lock_Middleware Http_Handlers Webdav_Handlers Cli
begin

section \<open>Dispatch and the middleware stack (src/server/mod.rs, src/middleware)\<close>

text \<open>
  The handler table, the middlewares in front of it and the start of the server. The state of the
  server is the application state with the two authentication states. A service gets what it does
  not control as an \<open>environment\<close>: the code of other packages and the two clocks. \<open>run\<close> is
  \<open>next.run(req).await\<close>. The trace layer only logs and is the identity.
\<close>

record environment =
  env_x :: externals
  env_ax :: auth_externals
  env_now :: system_time
  env_instant :: instant

record server =
  srv_app :: app_state
  srv_auth :: auth_state
  srv_tailscale :: tailscale_auth_state

type_synonym service = "environment \<Rightarrow> request \<Rightarrow> server \<Rightarrow> reply \<times> server"

definition run :: "service \<Rightarrow> service" where
  "run nx env req s = (case nx env req s of (r, s') \<Rightarrow> (Inr (into_response r), s'))"

definition lift_handler :: "handler \<Rightarrow> service" where
  "lift_handler h env req s =
     (case h (env_x env) (env_now env) req (srv_app s) of (r, st) \<Rightarrow> (r, s\<lparr>srv_app := st\<rparr>))"

subsection \<open>Dispatch\<close>

definition dispatch_handler :: handler where
  "dispatch_handler x now req st =
     (case from_http_method (req_method req) of
        Some GET \<Rightarrow> handle_get_head x now req st
      | Some HEAD \<Rightarrow> handle_get_head x now req st
      | Some PUT \<Rightarrow> handle_put x now req st
      | Some DELETE \<Rightarrow> handle_delete x now req st
      | Some OPTIONS \<Rightarrow> handle_options x now req st
      | Some PROPFIND \<Rightarrow> handle_propfind x now req st
      | Some MKCOL \<Rightarrow> handle_mkcol x now req st
      | Some COPY \<Rightarrow> handle_copy x now req st
      | Some MOVE \<Rightarrow> handle_move x now req st
      | Some PROPPATCH \<Rightarrow> handle_proppatch x now req st
      | Some LOCK \<Rightarrow> handle_lock x now req st
      | Some UNLOCK \<Rightarrow> handle_unlock x now req st
      | _ \<Rightarrow> (Inl NOT_IMPLEMENTED, st))"

definition dispatch :: service where
  "dispatch = lift_handler dispatch_handler"

subsection \<open>Basic authentication (src/middleware/auth.rs)\<close>

definition parse_basic_auth ::
  "auth_externals \<Rightarrow> header_map \<Rightarrow> (string \<times> string \<times> nat) option" where
  "parse_basic_auth ax h =
     (case header_str h ''authorization'' of
        None \<Rightarrow> None
      | Some header \<Rightarrow>
          (case strip_prefix header ''Basic '' of
             None \<Rightarrow> None
           | Some stripped \<Rightarrow>
               (let header_hash = hash_auth_header ax stripped
                in case ax_base64 ax stripped of
                     None \<Rightarrow> None
                   | Some bytes \<Rightarrow>
                       (case from_utf8 bytes of
                          None \<Rightarrow> None
                        | Some decoded \<Rightarrow>
                            (case split_once (CHR '':'') decoded of
                               None \<Rightarrow> None
                             | Some (user, pass) \<Rightarrow> Some (user, pass, header_hash))))))"

definition unauthorized :: reply where
  "unauthorized =
     Inr \<lparr>resp_status = UNAUTHORIZED, resp_headers = [(''www-authenticate'', ''Basic realm=\"rshs\"'')],
          resp_body = Empty\<rparr>"

definition auth_middleware :: "service \<Rightarrow> service" where
  "auth_middleware nx env req s =
     (if auth_is_empty (srv_auth s) then run nx env req s
      else case parse_basic_auth (env_ax env) (req_headers req) of
             None \<Rightarrow> (unauthorized, s)
           | Some (username, passwd, hash) \<Rightarrow>
               (case validate_cached (env_ax env) (env_instant env) (srv_auth s) username passwd hash of
                  None \<Rightarrow> (Inl NO_RESPONSE, s)
                | Some (ok, cache) \<Rightarrow>
                    (let s1 = s\<lparr>srv_auth := (srv_auth s)\<lparr>au_cache := cache\<rparr>\<rparr>
                     in if ok then run nx env req s1 else (unauthorized, s1))))"

subsection \<open>Tailscale identities (src/middleware/tailscale.rs)\<close>

definition forbidden :: "string \<Rightarrow> reply" where
  "forbidden msg =
     Inr \<lparr>resp_status = FORBIDDEN, resp_headers = [(''content-type'', ''text/plain; charset=utf-8'')],
          resp_body = Text (''403 Forbidden: '' @ msg @ [char_of (10::nat)])\<rparr>"

definition tailscale_auth_middleware :: "service \<Rightarrow> service" where
  "tailscale_auth_middleware nx env req s =
     (if tailscale_is_empty (srv_tailscale s) then run nx env req s
      else case header_str (req_headers req) IDENTITY_HEADER of
             None \<Rightarrow> (forbidden ''no Tailscale identity header on this request'', s)
           | Some login \<Rightarrow>
               if tailscale_validate (srv_tailscale s) login then run nx env req s
               else (forbidden (login @ '' is not authorized for this server''), s))"

subsection \<open>Health checks (src/middleware/health.rs)\<close>

definition is_health_check :: "header_map \<Rightarrow> bool" where
  "is_health_check h \<longleftrightarrow> header_bytes h ''x-health-check'' = Some ''true''"

definition health_check :: "service \<Rightarrow> service" where
  "health_check nx env req s =
     (if is_health_check (req_headers req) then
        (Inr \<lparr>resp_status = OK, resp_headers = [(''content-type'', ''text/plain; charset=utf-8'')],
              resp_body = Text ''OK''\<rparr>, s)
      else nx env req s)"

subsection \<open>The router\<close>

definition lock_layer :: "service \<Rightarrow> service" where
  \<comment> \<open>\<open>lock_enforce\<close> in front of a service that works on the application state\<close>
  "lock_layer nx env req s =
     (case lock_enforce (\<lambda>x now req st. case nx env req (s\<lparr>srv_app := st\<rparr>) of (r, s') \<Rightarrow> (r, srv_app s'))
             (env_x env) (env_now env) req (srv_app s) of
        (r, st) \<Rightarrow> (r, s\<lparr>srv_app := st\<rparr>))"

definition make_router :: service where
  "make_router = health_check (tailscale_auth_middleware (auth_middleware (lock_layer dispatch)))"

subsection \<open>The start of the server\<close>

record server_config =
  sc_root_dir :: pathbuf
  sc_host :: string
  sc_port :: "16 word"
  sc_tls :: "tls_config option"
  sc_auth :: auth_state
  sc_tailscale :: tailscale_auth_state
  sc_lock_timeout :: nat

definition with_tailscale_auth ::
  "fs \<Rightarrow> pathbuf \<Rightarrow> auth_state \<Rightarrow> tailscale_auth_state \<Rightarrow> duration \<Rightarrow> server" where
  "with_tailscale_auth f root a t timeout =
     \<lparr>srv_app = app_state_new f root timeout, srv_auth = a, srv_tailscale = t\<rparr>"

definition start_state :: "fs \<Rightarrow> server_config \<Rightarrow> server" where
  "start_state f config =
     with_tailscale_auth f (sc_root_dir config) (sc_auth config) (sc_tailscale config)
       (if sc_lock_timeout config = 0 then 0 else from_secs (sc_lock_timeout config))"

definition server_config_of :: "auth_externals \<Rightarrow> fs \<Rightarrow> cli \<Rightarrow> server_config \<times> fs" where
  \<comment> \<open>the body of \<open>main\<close> after the set-up of the log\<close>
  "server_config_of ax f c =
     (case build_auth_state ax f c of
        (a, f1) \<Rightarrow>
          (\<lparr>sc_root_dir = cli_root_dir c, sc_host = cli_host c, sc_port = effective_port c,
            sc_tls = to_tls_config c, sc_auth = a, sc_tailscale = to_tailscale_auth_state f1 c,
            sc_lock_timeout = cli_lock_timeout c\<rparr>, f1))"

definition cleanup_server :: "environment \<Rightarrow> server \<Rightarrow> server" where
  "cleanup_server env s =
     (case cleanup_round (env_now env) (env_instant env) False
             (st_locks (srv_app s), au_cache (srv_auth s)) of
        (locks, cache) \<Rightarrow>
          s\<lparr>srv_app := (srv_app s)\<lparr>st_locks := locks\<rparr>, srv_auth := (srv_auth s)\<lparr>au_cache := cache\<rparr>\<rparr>)"

subsection \<open>Gates\<close>

text \<open>
  The contract of a middleware: it decides on the request, and either answers itself or passes the
  request on, to the service behind it; until then it changes the application state only in ways
  that \<open>harmless\<close> allows. \<open>verdict\<close> is the decision: the answer, or none, with the state.
\<close>

locale gate =
  fixes mw :: "service \<Rightarrow> service"
    and verdict :: "environment \<Rightarrow> request \<Rightarrow> server \<Rightarrow> reply option \<times> server"
    and harmless :: "app_state \<Rightarrow> app_state \<Rightarrow> bool"
  assumes decides: "verdict env req s = (v, s1) \<Longrightarrow>
      resp_status (into_response (fst (mw nx env req s))) =
        (case v of Some r \<Rightarrow> resp_status (into_response r)
                 | None \<Rightarrow> resp_status (into_response (fst (nx env req s1)))) \<and>
      srv_app (snd (mw nx env req s)) =
        (case v of Some r \<Rightarrow> srv_app s1 | None \<Rightarrow> srv_app (snd (nx env req s1)))"
    and harmless_verdict: "verdict env req s = (v, s1) \<Longrightarrow> harmless (srv_app s) (srv_app s1)"
begin

lemma refused:
  assumes "verdict env req s = (Some r, s1)"
  shows "resp_status (into_response (fst (mw nx env req s))) = resp_status (into_response r)"
    and "harmless (srv_app s) (srv_app (snd (mw nx env req s)))"
  using decides [OF assms, of nx] harmless_verdict [OF assms] by simp_all

lemma passed:
  assumes "verdict env req s = (None, s1)"
  shows "resp_status (into_response (fst (mw nx env req s))) =
      resp_status (into_response (fst (nx env req s1)))"
    and "srv_app (snd (mw nx env req s)) = srv_app (snd (nx env req s1))"
  using decides [OF assms, of nx] by simp_all

lemma keeps:
  assumes nx: "\<And>s. I (srv_app s) \<Longrightarrow> I (srv_app (snd (nx env req s)))"
    and harm: "\<And>a b. I a \<Longrightarrow> harmless a b \<Longrightarrow> I b" and "I (srv_app s)"
  shows "I (srv_app (snd (mw nx env req s)))"
proof -
  obtain v s1 where v: "verdict env req s = (v, s1)" by fastforce
  have "I (srv_app s1)" using harm [OF assms(3) harmless_verdict [OF v]] .
  then show ?thesis using decides [OF v, of nx] nx by (cases v) auto
qed

end

end
