(* ===== verification/Served_Tree.thy ===== *)
theory Served_Tree
  imports Fs_Model
begin

section \<open>Calls on paths below the root\<close>

text \<open>
  What the calls of the file system do to the tree when their paths lie below the root directory
  \<open>rn\<close> and no symbolic link lies below it. \<open>tree_ok\<close> is the invariant, \<open>same_outside\<close> says that
  nothing but the contents of the root directory differs, and \<open>fs_step\<close> joins both.
\<close>

definition tree_ok :: "string list \<Rightarrow> fs \<Rightarrow> bool" where
  "tree_ok rn f \<longleftrightarrow>
     fs_wf f \<and> fs_lookup f rn = Some Dir \<and> (\<forall>q t. fs_lookup f (rn @ q) \<noteq> Some (Symlink t)) \<and>
     real_node f (fs_cwd f) \<and> \<not> strict_prefix rn (fs_cwd f)"

definition same_outside :: "string list \<Rightarrow> fs \<Rightarrow> fs \<Rightarrow> bool" where
  "same_outside rn f f' \<longleftrightarrow>
     (\<forall>q. \<not> strict_prefix rn q \<longrightarrow> fs_lookup f' q = fs_lookup f q) \<and>
     fs_cwd f' = fs_cwd f \<and> fs_deny f' = fs_deny f"

definition fs_step :: "string list \<Rightarrow> fs \<Rightarrow> fs \<Rightarrow> bool" where
  "fs_step rn f f' \<longleftrightarrow> tree_ok rn f' \<and> same_outside rn f f'"

lemma tree_okD:
  assumes "tree_ok rn f"
  shows "fs_wf f" "fs_lookup f rn = Some Dir" "fs_lookup f (rn @ q) \<noteq> Some (Symlink t)"
    "real_node f (fs_cwd f)" "\<forall>w\<in>set rn. valid_name w"
  using assms fs_wf_lookup(1) by (auto simp: tree_ok_def)

lemma fs_step_refl: "tree_ok rn f \<Longrightarrow> fs_step rn f f"
  by (simp add: fs_step_def same_outside_def)

lemma fs_step_trans: "fs_step rn f g \<Longrightarrow> fs_step rn g h \<Longrightarrow> fs_step rn f h"
  by (auto simp: fs_step_def same_outside_def)

lemma fs_step_tree: "fs_step rn f f' \<Longrightarrow> tree_ok rn f'"
  by (simp add: fs_step_def)

lemma fs_step_frame: "fs_step rn f f' \<Longrightarrow> fs_cwd f' = fs_cwd f \<and> fs_deny f' = fs_deny f"
  by (simp add: fs_step_def same_outside_def)

lemma fs_stepI:
  assumes "tree_ok rn f" "fs_wf f'" "same_outside rn f f'"
    and "\<And>q t. q \<noteq> [] \<Longrightarrow> fs_lookup f' (rn @ q) \<noteq> Some (Symlink t)"
  shows "fs_step rn f f'"
proof -
  have rn: "fs_lookup f' rn = Some Dir" using assms(1,3) by (simp add: tree_ok_def same_outside_def)
  moreover have "fs_lookup f' (rn @ q) \<noteq> Some (Symlink t)" for q t
    using assms(4) rn by (cases "q = []") auto
  moreover have "real_node f' (fs_cwd f')" "\<not> strict_prefix rn (fs_cwd f')"
    using assms(1,3) by (simp_all add: tree_ok_def same_outside_def real_node_def)
  ultimately show ?thesis using assms(2,3) by (simp add: fs_step_def tree_ok_def)
qed

lemma no_link_on_path:
  assumes "tree_ok rn f" "prefix i (rn @ ns)"
  shows "fs_lookup f i \<noteq> Some (Symlink t)"
proof (cases "prefix i rn")
  case True
  then obtain r where r: "rn = i @ r" by (auto elim: prefixE)
  have "fs_lookup f i = Some Dir"
  proof (cases "r = []")
    case False
    with fs_wf_prefix_dir [OF tree_okD(1) [OF assms(1)], of i r Dir] tree_okD(2) [OF assms(1)] r
    show ?thesis by simp
  qed (use tree_okD(2) [OF assms(1)] r in simp)
  then show ?thesis by simp
next
  case False
  with assms(2) obtain q where "i = rn @ q" by (auto simp: prefix_append)
  with tree_okD(3) [OF assms(1)] show ?thesis by simp
qed

lemma walk_plain:
  "walk f k cur ss = Inr q \<Longrightarrow> \<forall>w\<in>set ss. safe_name w \<Longrightarrow>
     (\<And>i t. prefix i (cur @ ss) \<Longrightarrow> fs_lookup f i \<noteq> Some (Symlink t)) \<Longrightarrow> q = cur @ ss"
proof (induction ss arbitrary: cur)
  case Nil
  then show ?case by simp
next
  case (Cons s ss)
  have s: "s \<noteq> []" "s \<noteq> ''.''" "s \<noteq> ''..''" using Cons.prems(2) by (simp_all add: safe_name_def)
  have "prefix (cur @ [s]) (cur @ s # ss)" by (simp add: prefix_def)
  with Cons.prems(3) have "fs_lookup f (cur @ [s]) \<noteq> Some (Symlink t)" for t by blast
  with Cons.prems(1) s have "walk f k (cur @ [s]) ss = Inr q"
    by (auto split: if_splits option.splits node.splits)
  from Cons.IH [OF this] Cons.prems(2,3) show ?case by simp
qed

lemma resolve_below:
  assumes "tree_ok rn f" "\<forall>w\<in>set (rn @ ns). safe_name w" "resolve f (abs_path (rn @ ns)) = Inr q"
  shows "q = rn @ ns"
proof -
  have "walk f 40 [] (if rn @ ns = [] then [[]] else rn @ ns) = Inr q"
    using assms(3) split_abs_path [OF assms(2)]
    by (auto simp: resolve_def start_dir_def split: if_splits)
  then show ?thesis
    using walk_plain [of f 40 "[]" "rn @ ns" q] assms(2) no_link_on_path [OF assms(1)]
    by (auto split: if_splits)
qed

lemma locate_below:
  assumes "tree_ok rn f" "\<forall>w\<in>set (rn @ ns). safe_name w" "ns \<noteq> []"
    and "locate f (abs_path (rn @ ns)) = Inr (d, n)"
  shows "d @ [n] = rn @ ns"
proof -
  obtain ms m where ns: "ns = ms @ [m]" using assms(3) by (cases ns rule: rev_cases) auto
  have w: "walk f 40 [] (rn @ ms) = Inr d" "n = m"
    using assms(4) split_abs_path [OF assms(2)] ns
    by (auto simp: locate_def start_dir_def Let_def butlast_append split: if_splits sum.splits)
  have "d = rn @ ms"
    using walk_plain [OF w(1)] assms(2) ns no_link_on_path [OF assms(1), of _ ms] by simp
  with w(2) ns show ?thesis by simp
qed

lemma open_target_below:
  assumes "tree_ok rn f" "\<forall>w\<in>set (rn @ ns). safe_name w" "ns \<noteq> []"
    and "open_target k f (abs_path (rn @ ns)) = Inr q"
  shows "q = rn @ ns"
proof -
  obtain d n where l: "locate f (abs_path (rn @ ns)) = Inr (d, n)"
    using assms(4) by (cases "locate f (abs_path (rn @ ns))") (auto simp: open_target.simps)
  note dn = locate_below [OF assms(1-3) l]
  then show ?thesis
    using assms(4) l tree_okD(3) [OF assms(1), of ns]
    by (auto simp: open_target.simps split: option.splits node.splits)
qed

subsection \<open>Each call is a step below the root\<close>

lemma strict_prefix_below: "ns \<noteq> [] \<Longrightarrow> strict_prefix rn (rn @ ns)"
  by (simp add: strict_prefix_def)

lemma set_below:
  assumes "tree_ok rn f" "ns \<noteq> []" "fs_wf (fs_set (rn @ ns) n f)" "\<forall>t. n \<noteq> Symlink t"
  shows "fs_step rn f (fs_set (rn @ ns) n f)"
  using assms(3)
proof (rule fs_stepI [OF assms(1)])
  show "same_outside rn f (fs_set (rn @ ns) n f)"
    using strict_prefix_below [OF assms(2)] assms(2) by (auto simp: same_outside_def fs_lookup_set)
  show "fs_lookup (fs_set (rn @ ns) n f) (rn @ q) \<noteq> Some (Symlink t)" for q t
    using assms(2,4) tree_okD(3) [OF assms(1)] by (simp add: fs_lookup_set)
qed

lemma remove_below:
  assumes "tree_ok rn f" "ns \<noteq> []"
  shows "fs_step rn f (fs_remove (rn @ ns) f)"
proof (rule fs_stepI [OF assms(1)])
  show "fs_wf (fs_remove (rn @ ns) f)"
    by (rule fs_wf_remove [OF tree_okD(1) [OF assms(1)]]) (simp add: assms(2))
  show "same_outside rn f (fs_remove (rn @ ns) f)"
    using assms(2) prefix_order.less_le_trans [OF strict_prefix_below [OF assms(2), of rn]]
    by (auto simp: same_outside_def fs_lookup_remove)
  show "fs_lookup (fs_remove (rn @ ns) f) (rn @ q) \<noteq> Some (Symlink t)" for q t
    using assms(2) tree_okD(3) [OF assms(1)] by (simp add: fs_lookup_remove)
qed

text \<open>
  The interface the handlers use: a call on a path strictly below the root. Every changing call of
  the file system provides it, so a sequence of calls is a step, too.
\<close>

locale tree_call =
  fixes fcall :: "fs \<Rightarrow> pathbuf \<Rightarrow> (io_error + 'r) \<times> fs"
  assumes call_step: "tree_ok rn f \<Longrightarrow> \<forall>w\<in>set (rn @ ns). safe_name w \<Longrightarrow> ns \<noteq> [] \<Longrightarrow>
      fcall f (abs_path (rn @ ns)) = (r, f') \<Longrightarrow> fs_step rn f f'"
begin

lemma call_snd:
  assumes "tree_ok rn f" "\<forall>w\<in>set (rn @ ns). safe_name w" "ns \<noteq> []"
  shows "fs_step rn f (snd (fcall f (abs_path (rn @ ns))))"
  using call_step [OF assms, of "fst (fcall f (abs_path (rn @ ns)))"] by simp

lemma call_then:
  assumes "fs_step rn f g" "\<forall>w\<in>set (rn @ ns). safe_name w" "ns \<noteq> []"
    and "fcall g (abs_path (rn @ ns)) = (r, h)"
  shows "fs_step rn f h"
  by (rule fs_step_trans [OF assms(1) call_step [OF fs_step_tree [OF assms(1)] assms(2-4)]])

end

interpretation create_call: tree_call file_create
proof unfold_locales
  fix rn f ns r f'
  assume a: "tree_ok rn f" "\<forall>w\<in>set (rn @ ns). safe_name w" "ns \<noteq> []"
    and c: "file_create f (abs_path (rn @ ns)) = (r, f')"
  note wf = file_create_wf [OF tree_okD(1) [OF a(1)] c]
  have "f' = f \<or> f' = fs_set (rn @ ns) (File []) f"
    using c open_target_below [OF a, of 40] by (auto simp: file_create_def split: if_splits sum.splits)
  with wf a set_below [OF a(1,3)] show "fs_step rn f f'" by (auto simp: fs_step_refl)
qed

interpretation create_new_call: tree_call file_create_new
proof unfold_locales
  fix rn f ns r f'
  assume a: "tree_ok rn f" "\<forall>w\<in>set (rn @ ns). safe_name w" "ns \<noteq> []"
    and c: "file_create_new f (abs_path (rn @ ns)) = (r, f')"
  note wf = file_create_new_wf [OF tree_okD(1) [OF a(1)] c]
  have "f' = f \<or> f' = fs_set (rn @ ns) (File []) f"
    using c locate_below [OF a]
    by (auto simp: file_create_new_def split: if_splits sum.splits option.splits)
  with wf a set_below [OF a(1,3)] show "fs_step rn f f'" by (auto simp: fs_step_refl)
qed

interpretation create_dir_call: tree_call create_dir
proof unfold_locales
  fix rn f ns r f'
  assume a: "tree_ok rn f" "\<forall>w\<in>set (rn @ ns). safe_name w" "ns \<noteq> []"
    and c: "create_dir f (abs_path (rn @ ns)) = (r, f')"
  note wf = create_dir_wf [OF tree_okD(1) [OF a(1)] c]
  have "f' = f \<or> f' = fs_set (rn @ ns) Dir f"
    using c locate_below [OF a]
    by (auto simp: create_dir_def split: if_splits sum.splits option.splits)
  with wf a set_below [OF a(1,3)] show "fs_step rn f f'" by (auto simp: fs_step_refl)
qed

interpretation remove_file_call: tree_call remove_file
proof unfold_locales
  fix rn f ns r f'
  assume a: "tree_ok rn f" "\<forall>w\<in>set (rn @ ns). safe_name w" "ns \<noteq> []"
    and c: "remove_file f (abs_path (rn @ ns)) = (r, f')"
  have "f' = f \<or> f' = fs_remove (rn @ ns) f"
    using c locate_below [OF a]
    by (auto simp: remove_file_def split: if_splits sum.splits option.splits node.splits)
  with a remove_below [OF a(1,3)] show "fs_step rn f f'" by (auto simp: fs_step_refl)
qed

interpretation remove_dir_call: tree_call remove_dir_all
proof unfold_locales
  fix rn f ns r f'
  assume a: "tree_ok rn f" "\<forall>w\<in>set (rn @ ns). safe_name w" "ns \<noteq> []"
    and c: "remove_dir_all f (abs_path (rn @ ns)) = (r, f')"
  have "f' = f \<or> f' = fs_remove (rn @ ns) f"
    using c locate_below [OF a]
    by (auto simp: remove_dir_all_def split: if_splits sum.splits option.splits node.splits)
  with a remove_below [OF a(1,3)] show "fs_step rn f f'" by (auto simp: fs_step_refl)
qed

interpretation copy_call: tree_call "\<lambda>f. copy_content f src" for src
proof unfold_locales
  fix rn f ns r f'
  assume a: "tree_ok rn f" "\<forall>w\<in>set (rn @ ns). safe_name w" "ns \<noteq> []"
    and c: "copy_content f src (abs_path (rn @ ns)) = (r, f')"
  note wf = copy_content_wf [OF tree_okD(1) [OF a(1)] c]
  have "f' = f \<or> (\<exists>c. f' = fs_set (rn @ ns) (File c) f)"
    using c open_target_below [OF a, of 40]
    by (auto simp: copy_content_def split: if_splits sum.splits option.splits node.splits)
  with wf a set_below [OF a(1,3)] show "fs_step rn f f'" by (auto simp: fs_step_refl)
qed

subsection \<open>Renaming\<close>

lemma fs_lookup_move:
  assumes "fs_wf f" "s \<noteq> []" "d \<noteq> []" "\<not> prefix s d" "\<And>q. prefix d q \<Longrightarrow> fs_lookup f q = None"
  shows "fs_lookup (fs_move s d f) q =
     (if prefix d q then fs_lookup f (s @ drop (length d) q)
      else if prefix s q then None else fs_lookup f q)"
proof -
  have keys: "k \<noteq> [] \<and> \<not> prefix d k" if "(k, n) \<in> set (fs_nodes f)" for k n
  proof -
    have k: "k \<noteq> []" using that fs_wfD(2) [OF assms(1)] by force
    with that fs_wfD(1) [OF assms(1)] have "fs_lookup f k = Some n" by (simp add: fs_lookup_def hm_in_set)
    with k assms(5) [of k] show ?thesis by auto
  qed
  have inv: "move_key s d k = q \<longleftrightarrow>
      (if prefix d q then k = s @ drop (length d) q else if prefix s q then False else k = q)"
    if "(k, n) \<in> set (fs_nodes f)" for k n
  proof (cases "prefix s k")
    case True
    then obtain r where r: "k = s @ r" by (auto elim: prefixE)
    then have "move_key s d k = d @ r" by (simp add: move_key_def)
    then show ?thesis using r prefixI [of q d r] by (cases "prefix d q") (auto elim: prefixE)
  next
    case False
    with keys [OF that] show ?thesis by (auto simp: move_key_def)
  qed
  have m: "map_of (map (\<lambda>(k, n). (move_key s d k, n)) m) q =
      (if prefix d q then map_of m (s @ drop (length d) q) else if prefix s q then None else map_of m q)"
    if "set m \<subseteq> set (fs_nodes f)" for m
    using that
  proof (induction m)
    case (Cons a m)
    obtain k n where a: "a = (k, n)" by (cases a)
    with Cons.prems have kn: "(k, n) \<in> set (fs_nodes f)" and sub: "set m \<subseteq> set (fs_nodes f)" by auto
    have "map_of (map (\<lambda>(k, n). (move_key s d k, n)) (a # m)) q =
        (if move_key s d k = q then Some n else map_of (map (\<lambda>(k, n). (move_key s d k, n)) m) q)"
      by (simp add: a)
    then show ?case
      unfolding inv [OF kn] Cons.IH [OF sub] a
      by (cases "prefix d q"; cases "prefix s q") (simp_all add: eq_commute)
  qed simp
  show ?thesis
    using m [of "fs_nodes f"] assms(2,3) by (auto simp: fs_lookup_def fs_move_def)
qed

lemma rename_below:
  assumes "tree_ok rn f" "\<forall>w\<in>set (rn @ ns). safe_name w" "ns \<noteq> []"
    and "\<forall>w\<in>set (rn @ ms). safe_name w" "ms \<noteq> []"
    and r: "rename f (abs_path (rn @ ns)) (abs_path (rn @ ms)) = (r, f')"
  shows "fs_step rn f f'"
proof (cases "f' = f")
  case True
  then show ?thesis by (simp add: fs_step_refl [OF assms(1)])
next
  case False
  let ?s = "rn @ ns" and ?d = "rn @ ms"
  have wf: "fs_wf f" "fs_wf f'" using tree_okD(1) [OF assms(1)] rename_wf [OF _ r] by auto
  obtain sd sn dd dn where l: "locate f (abs_path ?s) = Inr (sd, sn)" "locate f (abs_path ?d) = Inr (dd, dn)"
    using r False by (auto simp: rename_def split: if_splits sum.splits)
  have sd: "sd @ [sn] = ?s" "dd @ [dn] = ?d"
    using locate_below [OF assms(1,2,3) l(1)] locate_below [OF assms(1,4,5) l(2)] .
  have f': "f' = fs_move ?s ?d (fs_remove ?d f) \<or> f' = fs_move ?s ?d f \<and> fs_lookup f ?d = None"
    and ex: "fs_lookup f ?s \<noteq> None" and ne: "?s \<noteq> ?d"
    and np: "fs_lookup f ?s = Some Dir \<Longrightarrow> \<not> prefix ?s ?d"
    using r False l sd by (auto simp: rename_def Let_def split: if_splits option.splits node.splits)
  have np: "\<not> prefix ?s ?d"
  proof
    assume p: "prefix ?s ?d"
    with np ex obtain n where n: "fs_lookup f ?s = Some n" "n \<noteq> Dir" by auto
    have "fs_lookup f dd = Some Dir" by (rule locate_facts(1) [OF l(2)])
    moreover have "prefix ?s dd" using p ne sd(2) by (metis prefix_snoc)
    ultimately show False
      using fs_wf_prefix_dir [OF wf(1), of ?s] n by (metis append_Nil2 option.inject prefixE)
  qed
  have lk: "fs_lookup f' q = (if prefix ?d q then fs_lookup f (?s @ drop (length ?d) q)
      else if prefix ?s q then None else fs_lookup f q) \<or>
      fs_lookup f' q = (if prefix ?d q then fs_lookup (fs_remove ?d f) (?s @ drop (length ?d) q)
      else if prefix ?s q then None else fs_lookup f q)" for q
    using f'
  proof
    assume m: "f' = fs_move ?s ?d f \<and> fs_lookup f ?d = None"
    then have "fs_lookup f q = None" if "prefix ?d q" for q
      using fs_wf_missing [OF wf(1) _ that] by simp
    from fs_lookup_move [OF wf(1) _ _ np this] m assms(3,5) show ?thesis by simp
  next
    assume "f' = fs_move ?s ?d (fs_remove ?d f)"
    then show ?thesis
      using fs_lookup_move [OF fs_wf_remove [OF wf(1)] _ _ np] assms(3,5) by (simp add: fs_lookup_remove)
  qed
  have out: "strict_prefix rn q" if "prefix (rn @ ks) q" "ks \<noteq> []" for ks q
    using that by (auto simp: strict_prefix_def prefix_def)
  show ?thesis
  proof (rule fs_stepI [OF assms(1) wf(2)])
    show "same_outside rn f f'"
      unfolding same_outside_def
    proof (intro conjI allI impI)
      fix q assume "\<not> strict_prefix rn q"
      then have "\<not> prefix ?d q" "\<not> prefix ?s q" using out assms(3,5) by blast+
      with lk [of q] show "fs_lookup f' q = fs_lookup f q" by simp
    qed (use f' in auto)
    show "fs_lookup f' (rn @ q) \<noteq> Some (Symlink t)" for q t
      using lk [of "rn @ q"] tree_okD(3) [OF assms(1)] assms(5)
      by (auto simp: fs_lookup_remove split: if_splits)
  qed
qed

end
