(* ===== verification/Request_Safety.thy ===== *)
theory Request_Safety
  imports Server Served_Tree
begin

section \<open>Every request keeps the state and the rest of the file system\<close>

text \<open>
  The invariant of the application state under requests: \<open>app_ok\<close> joins the invariant of the state
  with that of the served tree (the root is a directory, and no symbolic link lies below it).
  \<open>app_step\<close> is what a request may do: keep the invariant and leave everything outside the root
  directory as it is. It is the contract of a handler, stated as a locale that every handler
  provides; the dispatcher and the middlewares are its clients.
\<close>

definition app_ok :: "string list \<Rightarrow> app_state \<Rightarrow> bool" where
  "app_ok rn st \<longleftrightarrow> state_ok rn st \<and> tree_ok rn (st_fs st)"

definition app_step :: "string list \<Rightarrow> app_state \<Rightarrow> app_state \<Rightarrow> bool" where
  "app_step rn st st' \<longleftrightarrow>
     app_ok rn st' \<and> same_outside rn (st_fs st) (st_fs st') \<and> st_root_dir st' = st_root_dir st"

definition below :: "string list \<Rightarrow> pathbuf \<Rightarrow> bool" where
  "below rn p \<longleftrightarrow> (\<exists>ns. ns \<noteq> [] \<and> p = abs_path (rn @ ns) \<and> (\<forall>w\<in>set (rn @ ns). safe_name w))"

lemma belowE:
  assumes "below rn p"
  obtains ns where "ns \<noteq> []" "p = abs_path (rn @ ns)" "\<forall>w\<in>set (rn @ ns). safe_name w"
  using assms unfolding below_def by blast

lemma below_join:
  assumes "below rn p" "safe_name w"
  shows "below rn (path_join p w)"
proof -
  from assms(1) obtain ns where ns: "p = abs_path (rn @ ns)" "\<forall>w\<in>set (rn @ ns). safe_name w"
    by (rule belowE)
  then have "path_join p w = abs_path (rn @ ns @ [w])" using join_abs_path [OF assms(2)] by simp
  with ns(2) assms(2) show ?thesis unfolding below_def by (intro exI [of _ "ns @ [w]"]) auto
qed

lemma app_step_refl: "app_ok rn st \<Longrightarrow> app_step rn st st"
  by (simp add: app_step_def same_outside_def)

lemma app_step_trans: "app_step rn a b \<Longrightarrow> app_step rn b c \<Longrightarrow> app_step rn a c"
  by (auto simp: app_step_def same_outside_def)

lemma app_step_ok: "app_step rn a b \<Longrightarrow> app_ok rn b"
  by (simp add: app_step_def)

lemma app_step_fs:
  assumes "app_step rn st st1" "fs_step rn (st_fs st1) f"
  shows "app_step rn st (st1\<lparr>st_fs := f\<rparr>)"
proof -
  have "app_step rn st1 (st1\<lparr>st_fs := f\<rparr>)"
    using assms by (auto simp: app_step_def app_ok_def state_ok_def fs_step_def tree_ok_def)
  with assms(1) show ?thesis by (rule app_step_trans)
qed

lemma app_step_locks:
  "app_step rn st st1 \<Longrightarrow> store_ok rn locks \<Longrightarrow> app_step rn st (st1\<lparr>st_locks := locks\<rparr>)"
  by (simp add: app_step_def app_ok_def state_ok_def)

lemma app_step_props: "app_step rn st st1 \<Longrightarrow> app_step rn st (st1\<lparr>st_dead_props := d\<rparr>)"
  by (simp add: app_step_def app_ok_def state_ok_def)

lemma guard_step:
  assumes "app_ok rn st" "state_resolve_and_guard x st rp = (r, st1)"
  shows "app_step rn st st1" and "r = Inr p \<Longrightarrow> below rn p"
proof -
  have ok: "state_ok rn st" using assms(1) by (simp add: app_ok_def)
  note g = state_resolve_and_guard_ok [OF ok assms(2)]
  show "app_step rn st st1"
    using assms(1) g(1) guard_frame_fields [OF assms(2)]
    by (simp add: app_step_def app_ok_def same_outside_def)
  show "below rn p" if "r = Inr p"
    using g(3) [OF that] by (rule insideE) (auto simp: below_def)
qed

lemma existing_below:
  assumes "app_ok rn st" "state_resolve_existing x st rp = Some p"
  obtains ns where "p = abs_path (rn @ ns)" "\<forall>w\<in>set (rn @ ns). safe_name w"
proof (rule state_resolve_existing_ok [of rn st x rp p])
  fix ns assume "p = abs_path (rn @ ns)" "\<forall>w\<in>set (rn @ ns). valid_name w"
  with that valid_safe_list [of "rn @ ns"] show thesis by blast
qed (use assms in \<open>simp_all add: app_ok_def\<close>)

subsection \<open>The contract of a handler\<close>

locale served_handler =
  fixes h :: handler
  assumes handler_step: "app_ok rn st \<Longrightarrow> app_step rn st (snd (h x now req st))"
begin

lemma handler_keeps_ok: "app_ok rn st \<Longrightarrow> app_ok rn (snd (h x now req st))"
  by (rule app_step_ok [OF handler_step])

lemma handler_after: "app_step rn st0 st \<Longrightarrow> app_step rn st0 (snd (h x now req st))"
  by (rule app_step_trans [OF _ handler_step [OF app_step_ok]])

end

subsection \<open>Reads\<close>

interpretation get_handler: served_handler handle_get_head
  by unfold_locales
    (auto simp: handle_get_head_def app_step_refl opt_or_status_def or_status_def
      split: option.splits sum.splits)

interpretation options_handler: served_handler handle_options
  by unfold_locales (simp add: handle_options_def app_step_refl)

interpretation propfind_handler: served_handler handle_propfind
  by unfold_locales
    (auto simp: handle_propfind_def app_step_refl opt_or_status_def or_status_def
      split: option.splits sum.splits)

subsection \<open>PUT, DELETE, MKCOL and PROPPATCH\<close>

lemma put_file_step:
  assumes "tree_ok rn f" "below rn p" "put_file req f p = (r, f')"
  shows "fs_step rn f f'"
proof -
  obtain ns where ns: "ns \<noteq> []" "p = abs_path (rn @ ns)" "\<forall>w\<in>set (rn @ ns). safe_name w"
    by (rule belowE [OF assms(2)])
  obtain c f1 where c: "file_create f p = (c, f1)" by fastforce
  have s: "fs_step rn f f1"
    by (rule create_call.call_step [OF assms(1) ns(3,1)]) (use c ns in simp)
  show ?thesis
  proof (cases c)
    case (Inl e)
    with assms(3) c s show ?thesis by (simp add: put_file_def Let_def)
  next
    case (Inr q)
    have q: "q = rn @ ns" "f1 = fs_set q (File []) f"
      using c Inr ns open_target_below [OF assms(1) ns(3,1), of 40]
      by (auto simp: file_create_def split: if_splits sum.splits)
    obtain d n where "q = d @ [n]" "fs_lookup f d = Some Dir" "valid_name n"
        "\<forall>m. fs_lookup f q = Some m \<longrightarrow> (\<exists>c. m = File c)"
      using c Inr open_target_facts [of 40 f p] by (auto simp: file_create_def split: if_splits sum.splits)
    moreover from this have "d \<noteq> q" by simp
    ultimately have "fs_wf (fs_set q (File b) f1)" for b
      using fs_wf_set [OF tree_okD(1) [OF fs_step_tree [OF s]], of d n "File b"] q(2)
      by (simp add: fs_lookup_set)
    then have "fs_step rn f (fs_set q (File b) f1)" for b
      using fs_step_trans [OF s set_below [OF fs_step_tree [OF s] ns(1)]] q(1) by simp
    with assms(3) c s Inr show ?thesis by (auto simp: put_file_def Let_def split: if_splits)
  qed
qed

lemma with_guard_step:
  assumes ok: "app_ok rn st" and g: "state_resolve_and_guard x st rp = (r, st1)"
    and body: "\<And>p f rep. r = Inr p \<Longrightarrow> below rn p \<Longrightarrow> op (st_fs st1) p = (rep, f) \<Longrightarrow> fs_step rn (st_fs st1) f"
  shows "app_step rn st
     (snd (case or_invalid r code of
             Inl e \<Rightarrow> (Inl e, st1)
           | Inr p \<Rightarrow> (case op (st_fs st1) p of (rep, f) \<Rightarrow> (rep, st1\<lparr>st_fs := f\<rparr>))))"
proof (cases r)
  case (Inl e)
  with guard_step(1) [OF ok g] show ?thesis by (simp add: or_invalid_def)
next
  case (Inr p)
  obtain rep f where f: "op (st_fs st1) p = (rep, f)" by fastforce
  with body [OF Inr guard_step(2) [OF ok g Inr] f] app_step_fs [OF guard_step(1) [OF ok g]] Inr
  show ?thesis by (simp add: or_invalid_def)
qed

lemma app_ok_tree: "app_ok rn st \<Longrightarrow> tree_ok rn (st_fs st)"
  by (simp add: app_ok_def)

interpretation put_handler: served_handler handle_put
proof unfold_locales
  fix rn st x now and req :: request
  assume ok: "app_ok rn st"
  obtain r st1 where g: "state_resolve_and_guard x st (req_path req) = (r, st1)" by fastforce
  note t = app_ok_tree [OF app_step_ok [OF guard_step(1) [OF ok g]]]
  show "app_step rn st (snd (handle_put x now req st))"
    unfolding handle_put_def g prod.case
    by (rule with_guard_step [OF ok g, of "put_file req"]) (rule put_file_step [OF t])
qed

lemma make_collection_step:
  assumes "tree_ok rn f" "below rn p" "make_collection f p = (r, f')"
  shows "fs_step rn f f'"
proof -
  obtain ns where ns: "ns \<noteq> []" "p = abs_path (rn @ ns)" "\<forall>w\<in>set (rn @ ns). safe_name w"
    by (rule belowE [OF assms(2)])
  have "f' = f \<or> f' = snd (create_dir f p)"
    using assms(3) by (auto simp: make_collection_def split: sum.splits prod.splits)
  with create_dir_call.call_snd [OF assms(1) ns(3,1)] ns(2) fs_step_refl [OF assms(1)]
  show ?thesis by auto
qed

interpretation mkcol_handler: served_handler handle_mkcol
proof unfold_locales
  fix rn st x now and req :: request
  assume ok: "app_ok rn st"
  obtain r st1 where g: "state_resolve_and_guard x st (trim_end_matches sep (req_path req)) = (r, st1)"
    by fastforce
  note t = app_ok_tree [OF app_step_ok [OF guard_step(1) [OF ok g]]]
  show "app_step rn st (snd (handle_mkcol x now req st))"
  proof (cases "has_body (req_headers req)")
    case True
    with ok show ?thesis by (simp add: handle_mkcol_def app_step_refl)
  next
    case False
    then show ?thesis
      unfolding handle_mkcol_def if_not_P [OF False] g prod.case
      by (intro with_guard_step [OF ok g, of make_collection]) (rule make_collection_step [OF t])
  qed
qed

interpretation delete_handler: served_handler handle_delete
proof unfold_locales
  fix rn st x now and req :: request
  assume ok: "app_ok rn st"
  show "app_step rn st (snd (handle_delete x now req st))"
  proof (cases "snd (handle_delete x now req st) = st")
    case True
    with ok show ?thesis by (simp add: app_step_refl)
  next
    case False
    then obtain p m where p: "state_resolve_existing x st (req_path req) = Some p"
      and m: "stat_path x (st_fs st) p = Inr m"
      and root: "\<not> (fm_is_dir m \<and> path_eq p (st_root_canonical st))"
      by (auto simp: handle_delete_def opt_or_status_def or_status_def split: option.splits sum.splits if_splits)
    obtain ns where ns: "p = abs_path (rn @ ns)" "\<forall>w\<in>set (rn @ ns). safe_name w"
      by (rule existing_below [OF ok p])
    have "ns \<noteq> []"
    proof
      assume "ns = []"
      with ns ok have eq: "p = st_root_canonical st" by (simp add: app_ok_def state_ok_def)
      have "fm_is_dir m"
        using m ns \<open>ns = []\<close> tree_okD(1,2) [OF app_ok_tree [OF ok]]
          resolve_abs_path [OF tree_okD(1,2) [OF app_ok_tree [OF ok]]]
        by (auto simp: stat_path_def metadata_def node_meta_def split: if_splits)
      with root eq show False by (simp add: path_eq_def)
    qed
    note step = remove_dir_call.call_snd [OF app_ok_tree [OF ok] ns(2) this]
      remove_file_call.call_snd [OF app_ok_tree [OF ok] ns(2) this]
    have "snd (handle_delete x now req st) =
        st\<lparr>st_fs := snd (if fm_is_dir m then remove_dir_all (st_fs st) p else remove_file (st_fs st) p)\<rparr>"
      using p m root by (auto simp: handle_delete_def delete_reply_def split: prod.splits sum.splits)
    with step ns(1) app_step_fs [OF app_step_refl [OF ok]] show ?thesis by simp
  qed
qed

interpretation proppatch_handler: served_handler handle_proppatch
  by unfold_locales
    (auto simp: handle_proppatch_def app_step_refl opt_or_status_def or_status_def app_step_props
      split: option.splits sum.splits)

end
