(* ===== verification/Copy_Safety.thy ===== *)
theory Copy_Safety
  imports Request_Safety
begin

section \<open>COPY and MOVE keep the state and the rest of the file system\<close>

text \<open>
  The contract of a handler for COPY and MOVE: every step of the copy loop is a step below the
  root, and a copy of a directory into its own subtree never succeeds, so that a MOVE of the root
  itself never comes to remove it.
\<close>

subsection \<open>The copy loop\<close>

lemma read_dir_names:
  assumes "fs_wf f" "read_dir f p = Inr ch" "(c, n) \<in> set ch"
  shows "safe_name c"
proof -
  obtain q where "ch = children f q"
    using assms(2) by (auto simp: read_dir_def split: if_splits sum.splits option.splits node.splits)
  with assms(3) have "fs_lookup f (q @ [c]) = Some n" using children_iff [OF assms(1)] by blast
  from fs_wf_lookup(1) [OF assms(1) this] show ?thesis by (simp add: valid_safe)
qed

lemma copy_entry_step:
  assumes ok: "tree_ok rn f" and b: "below rn dest_dir" and c: "safe_name (fst entry)"
    and e: "copy_entry src_dir dest_dir entry f = (r, f')"
  shows "fs_step rn f f'" and "r = Inr pushed \<Longrightarrow> (s, d) \<in> set pushed \<Longrightarrow> below rn d"
proof -
  obtain name nd where en: "entry = (name, nd)" by (cases entry)
  have bj: "below rn (path_join dest_dir name)" by (rule below_join [OF b]) (use c en in simp)
  then obtain ns where ns: "ns \<noteq> []" "path_join dest_dir name = abs_path (rn @ ns)" "\<forall>w\<in>set (rn @ ns). safe_name w"
    by (rule belowE)
  have "f' = f \<or> f' = snd (create_dir f (path_join dest_dir name)) \<or>
      f' = snd (copy_content f (path_join src_dir name) (path_join dest_dir name))"
    using e en by (auto simp: copy_entry_def Let_def split: node.splits prod.splits sum.splits if_splits)
  then show "fs_step rn f f'"
    using fs_step_refl [OF ok] create_dir_call.call_snd [OF ok ns(3,1)] copy_call.call_snd [OF ok ns(3,1)]
    unfolding ns(2) by blast
  show "r = Inr pushed \<Longrightarrow> (s, d) \<in> set pushed \<Longrightarrow> below rn d"
    using e en bj by (auto simp: copy_entry_def Let_def split: node.splits prod.splits sum.splits if_splits)
qed

lemma copy_listing_step:
  "copy_listing src_dir dest_dir listing stack f = (r, f') \<Longrightarrow> fs_step rn f0 f \<Longrightarrow>
     below rn dest_dir \<Longrightarrow> \<forall>e\<in>set listing. safe_name (fst e) \<Longrightarrow> \<forall>(s, d)\<in>set stack. below rn d \<Longrightarrow>
     fs_step rn f0 f' \<and> (\<forall>stack'. r = Inr stack' \<longrightarrow> (\<forall>(s, d)\<in>set stack'. below rn d))"
proof (induction src_dir dest_dir listing stack f rule: copy_listing.induct)
  case (2 src_dir dest_dir entry rest stack f)
  obtain r1 f1 where e: "copy_entry src_dir dest_dir entry f = (r1, f1)" by fastforce
  have c: "safe_name (fst entry)" using "2.prems"(4) by simp
  note st = copy_entry_step [OF fs_step_tree [OF "2.prems"(2)] "2.prems"(3) c e]
  note f1 = fs_step_trans [OF "2.prems"(2) st(1)]
  show ?case
  proof (cases r1)
    case (Inl err)
    with e f1 "2.prems"(1) show ?thesis by auto
  next
    case (Inr pushed)
    have "\<forall>(s, d)\<in>set (pushed @ stack). below rn d" using st(2) [OF Inr] "2.prems"(5) by auto
    with "2.IH" [OF e [symmetric] Inr _ f1 "2.prems"(3)] e Inr "2.prems"(1,4) show ?thesis by auto
  qed
qed auto

lemma copy_step_step:
  assumes "fs_step rn f0 f" "below rn dest_dir" "\<forall>(s, d)\<in>set stack. below rn d"
    and "copy_step src_dir dest_dir stack f = (r, f')"
  shows "fs_step rn f0 f'" and "r = Inr stack' \<Longrightarrow> \<forall>(s, d)\<in>set stack'. below rn d"
proof -
  have "fs_step rn f0 f' \<and> (r = Inr stack' \<longrightarrow> (\<forall>(s, d)\<in>set stack'. below rn d))"
  proof (cases "read_dir f src_dir")
    case (Inl e)
    with assms show ?thesis by (auto simp: copy_step_def)
  next
    case (Inr listing)
    have "\<forall>e\<in>set listing. safe_name (fst e)"
      using read_dir_names [OF tree_okD(1) [OF fs_step_tree [OF assms(1)]] Inr] by auto
    with copy_listing_step [OF _ assms(1,2) _ assms(3)] Inr assms(4) show ?thesis
      by (simp add: copy_step_def)
  qed
  then show "fs_step rn f0 f'" and "r = Inr stack' \<Longrightarrow> \<forall>(s, d)\<in>set stack'. below rn d" by blast+
qed

lemma copy_loop_step:
  "copy_loop stack f = Some res \<Longrightarrow> fs_step rn f0 f \<Longrightarrow> \<forall>(s, d)\<in>set stack. below rn d \<Longrightarrow>
     fs_step rn f0 (snd res)"
proof (induction rule: copy_loop_induct)
  case (empty f)
  then show ?case by simp
next
  case (failed s d rest f e f1)
  with copy_step_step(1) [OF failed(2) _ _ failed(1)] show ?case by simp
next
  case (again s d rest f stack1 f1 res)
  have "below rn d" "\<forall>(s, d)\<in>set rest. below rn d" using again.prems(2) by auto
  note st = copy_step_step [OF again.prems(1) this again.hyps]
  show ?case by (rule again.IH [OF st(1) st(2) [OF refl]])
qed

lemma copy_dir_step:
  assumes "tree_ok rn f" "below rn dest" "copy_dir f src dest ex = Some res"
  shows "fs_step rn f (snd res)"
proof -
  obtain ns where ns: "ns \<noteq> []" "dest = abs_path (rn @ ns)" "\<forall>w\<in>set (rn @ ns). safe_name w"
    by (rule belowE [OF assms(2)])
  have c: "fs_step rn f (snd (create_dir f dest))"
    using create_dir_call.call_snd [OF assms(1) ns(3,1)] ns(2) by simp
  obtain r f1 where r: "(if \<not> ex then create_dir f dest else (Inr (), f)) = (r, f1)" by fastforce
  then have s: "fs_step rn f f1" using c fs_step_refl [OF assms(1)] by (auto split: if_splits)
  have "copy_loop [(src, dest)] f1 = Some res \<or> snd res = f1"
    using assms(3) r by (cases r) (auto simp: copy_dir_def)
  with s copy_loop_step [OF _ s, of "[(src, dest)]" res] assms(2) show ?thesis by auto
qed

lemma copy_resource_step:
  assumes "tree_ok rn f" "below rn dest" "copy_resource f is_move d dir src dest ex = Some res"
  shows "fs_step rn f (snd res)"
proof -
  obtain ns where ns: "ns \<noteq> []" "dest = abs_path (rn @ ns)" "\<forall>w\<in>set (rn @ ns). safe_name w"
    by (rule belowE [OF assms(2)])
  have "snd res = f \<or> snd res = snd (create_dir f dest) \<or> snd res = snd (copy_content f src dest) \<or>
      copy_dir f src dest ex = Some res"
    using assms(3) by (auto simp: copy_resource_def copy_file_def split: if_splits prod.splits sum.splits)
  then show ?thesis
    using fs_step_refl [OF assms(1)] create_dir_call.call_snd [OF assms(1) ns(3,1)]
      copy_call.call_snd [OF assms(1) ns(3,1)] copy_dir_step [OF assms(1,2), of src ex res]
    unfolding ns(2) by auto
qed

lemma clear_target_step:
  assumes "tree_ok rn f" "below rn dest" "clear_target x f m dest ow ex = (ex', f')"
  shows "fs_step rn f f'"
proof -
  obtain ns where ns: "ns \<noteq> []" "dest = abs_path (rn @ ns)" "\<forall>w\<in>set (rn @ ns). safe_name w"
    by (rule belowE [OF assms(2)])
  have "f' = f \<or> f' = snd (remove_dir_all f dest) \<or> f' = snd (remove_file f dest)"
    using assms(3) by (auto simp: clear_target_def split: if_splits sum.splits)
  then show ?thesis
    using fs_step_refl [OF assms(1)] remove_dir_call.call_snd [OF assms(1) ns(3,1)]
      remove_file_call.call_snd [OF assms(1) ns(3,1)]
    unfolding ns(2) by auto
qed

text \<open>
  A MOVE also removes its source. When the source is the root itself, the rename fails and the
  root directory is then removed, so a MOVE is safe only for a source below the root.
\<close>

lemma finish_move_step:
  assumes "tree_ok rn f" "below rn src" "below rn dest"
  shows "fs_step rn f (finish_move f is_move dir src dest)"
proof -
  obtain ns where ns: "ns \<noteq> []" "src = abs_path (rn @ ns)" "\<forall>w\<in>set (rn @ ns). safe_name w"
    by (rule belowE [OF assms(2)])
  obtain ms where ms: "ms \<noteq> []" "dest = abs_path (rn @ ms)" "\<forall>w\<in>set (rn @ ms). safe_name w"
    by (rule belowE [OF assms(3)])
  obtain r f1 where r: "rename f src dest = (r, f1)" by fastforce
  have s: "fs_step rn f f1" using rename_below [OF assms(1) ns(3,1) ms(3,1)] r ns(2) ms(2) by simp
  note t = fs_step_tree [OF s]
  have "fs_step rn f1 (snd (remove_dir_all f1 src))" "fs_step rn f1 (snd (remove_file f1 src))"
    using remove_dir_call.call_snd [OF t ns(3,1)] remove_file_call.call_snd [OF t ns(3,1)] ns(2) by simp_all
  with s r fs_step_refl [OF assms(1)] fs_step_trans [OF s] show ?thesis
    by (auto simp: finish_move_def split: sum.splits)
qed

subsection \<open>A copy into its own subtree\<close>

text \<open>
  No step of a copy removes a node or turns a directory into a file. So a copy of a directory into
  its own subtree always has a directory left to copy: the one that leads to its target, whose
  copy leads to the target of the copy, and so on. Only an error ends it.
\<close>

definition keeps_nodes :: "fs \<Rightarrow> fs \<Rightarrow> bool" where
  "keeps_nodes f f' \<longleftrightarrow>
     (\<forall>q n. fs_lookup f q = Some n \<longrightarrow> (\<exists>m. fs_lookup f' q = Some m \<and> (m = Dir \<longleftrightarrow> n = Dir)))"

lemma keeps_nodes_refl [simp]: "keeps_nodes f f"
  by (simp add: keeps_nodes_def)

lemma keeps_nodes_trans: "keeps_nodes f g \<Longrightarrow> keeps_nodes g h \<Longrightarrow> keeps_nodes f h"
  unfolding keeps_nodes_def by metis

lemma keeps_nodes_exists: "keeps_nodes f g \<Longrightarrow> fs_lookup f q \<noteq> None \<Longrightarrow> fs_lookup g q \<noteq> None"
  unfolding keeps_nodes_def by fastforce

lemma keeps_nodes_dir: "keeps_nodes f g \<Longrightarrow> fs_lookup f q = Some n \<Longrightarrow> fs_lookup g q = Some Dir \<Longrightarrow> n = Dir"
  unfolding keeps_nodes_def by fastforce

lemma create_dir_keeps: "create_dir f p = (r, f') \<Longrightarrow> keeps_nodes f f'"
  by (auto simp: create_dir_def keeps_nodes_def fs_lookup_set split: if_splits sum.splits option.splits)

lemma copy_content_keeps: "copy_content f s p = (r, f') \<Longrightarrow> keeps_nodes f f'"
  using open_target_facts [of 40 f p]
  by (fastforce simp: copy_content_def keeps_nodes_def fs_lookup_set
      split: if_splits sum.splits option.splits node.splits)

lemma copy_entry_keeps: "copy_entry sd dd entry f = (r, f') \<Longrightarrow> keeps_nodes f f'"
  using create_dir_keeps copy_content_keeps
  by (cases entry) (auto simp: copy_entry_def Let_def split: node.splits prod.splits sum.splits if_splits)

lemma copy_listing_entry:
  "copy_listing sd dd listing stack f = (Inr stack', f') \<Longrightarrow> fs_step rn f0 f \<Longrightarrow> below rn dd \<Longrightarrow>
     \<forall>e\<in>set listing. safe_name (fst e) \<Longrightarrow>
     keeps_nodes f f' \<and> set stack \<subseteq> set stack' \<and>
     (\<forall>entry\<in>set listing. \<exists>f1 f2 pushed. fs_step rn f0 f1 \<and> keeps_nodes f f1 \<and>
        copy_entry sd dd entry f1 = (Inr pushed, f2) \<and> keeps_nodes f2 f' \<and> set pushed \<subseteq> set stack')"
proof (induction sd dd listing stack f rule: copy_listing.induct)
  case (2 sd dd entry rest stack f)
  obtain pushed f1 where e: "copy_entry sd dd entry f = (Inr pushed, f1)"
    and rest: "copy_listing sd dd rest (pushed @ stack) f1 = (Inr stack', f')"
    using "2.prems"(1) by (auto split: prod.splits sum.splits)
  note k = copy_entry_keeps [OF e]
  have safe: "safe_name (fst entry)" "\<forall>e\<in>set rest. safe_name (fst e)" using "2.prems"(4) by simp_all
  have s1: "fs_step rn f0 f1"
    by (rule fs_step_trans [OF "2.prems"(2) copy_entry_step(1) [OF fs_step_tree [OF "2.prems"(2)] "2.prems"(3) safe(1) e]])
  have IH: "keeps_nodes f1 f'" "set (pushed @ stack) \<subseteq> set stack'"
    "\<forall>entry\<in>set rest. \<exists>g1 g2 pushed. fs_step rn f0 g1 \<and> keeps_nodes f1 g1 \<and>
        copy_entry sd dd entry g1 = (Inr pushed, g2) \<and> keeps_nodes g2 f' \<and> set pushed \<subseteq> set stack'"
    using "2.IH" [OF e [symmetric] refl rest s1 "2.prems"(3) safe(2)] by auto
  show ?case
  proof (intro conjI ballI)
    show "keeps_nodes f f'" using keeps_nodes_trans [OF k IH(1)] .
    show "set stack \<subseteq> set stack'" using IH(2) by auto
    fix en assume "en \<in> set (entry # rest)"
    then consider "en = entry" | "en \<in> set rest" by auto
    then show "\<exists>f1 f2 pushed. fs_step rn f0 f1 \<and> keeps_nodes f f1 \<and>
        copy_entry sd dd en f1 = (Inr pushed, f2) \<and> keeps_nodes f2 f' \<and> set pushed \<subseteq> set stack'"
    proof cases
      case 1
      with e IH "2.prems"(2) show ?thesis
        by (intro exI [of _ f] exI [of _ f1] exI [of _ pushed]) auto
    next
      case 2
      with IH(3) keeps_nodes_trans [OF k] show ?thesis by blast
    qed
  qed
qed auto

definition leads_back :: "string list \<Rightarrow> fs \<Rightarrow> (pathbuf \<times> pathbuf) list \<Rightarrow> bool" where
  "leads_back rn f stack \<longleftrightarrow>
     (\<exists>ns c r. (abs_path (rn @ ns), abs_path (rn @ ns @ c # r)) \<in> set stack \<and>
        (\<forall>w\<in>set (rn @ ns @ c # r). safe_name w) \<and> fs_lookup f (rn @ ns @ [c]) \<noteq> None)"

lemma read_dir_below:
  assumes "tree_ok rn f" "\<forall>w\<in>set (rn @ ns). safe_name w" "read_dir f (abs_path (rn @ ns)) = Inr ch"
  shows "ch = children f (rn @ ns)" "fs_lookup f (rn @ ns) = Some Dir"
  using assms(3) resolve_below [OF assms(1,2)]
  by (auto simp: read_dir_def split: if_splits sum.splits option.splits node.splits)

lemma walk_error: "walk f k cur ss \<noteq> Inl AlreadyExists"
proof (induction f k cur ss rule: walk.induct)
  case (2 f k cur s ss)
  show ?case
  proof (cases "\<exists>t. fs_lookup f (cur @ [s]) = Some (Symlink t)")
    case True
    then obtain t where "fs_lookup f (cur @ [s]) = Some (Symlink t)" by blast
    with 2 show ?thesis by (cases k) auto
  next
    case False
    with 2 show ?thesis by (auto split: option.splits node.splits)
  qed
qed simp

lemma locate_error: "locate f p \<noteq> Inl AlreadyExists"
  using walk_error by (auto simp: locate_def Let_def split: sum.splits)

lemma copied_entry_dir:
  assumes ok: "tree_ok rn f" and safe: "\<forall>w\<in>set (rn @ ds). safe_name w" "safe_name c" and nl: "\<forall>t. nd \<noteq> Symlink t"
    and e: "copy_entry sd (abs_path (rn @ ds)) (c, nd) f = (Inr pushed, f')"
  shows "fs_lookup f (rn @ ds) = Some Dir" and "nd = Dir \<Longrightarrow> fs_lookup f' (rn @ ds @ [c]) \<noteq> None"
    and "nd = Dir \<Longrightarrow> pushed = [(path_join sd c, abs_path (rn @ ds @ [c]))]"
proof -
  have j: "path_join (abs_path (rn @ ds)) c = abs_path (rn @ ds @ [c])"
    using join_abs_path [OF safe(2,1)] by simp
  have s: "\<forall>w\<in>set (rn @ (ds @ [c])). safe_name w" using safe by simp
  have l: "fs_lookup f (rn @ ds) = Some Dir \<and> d @ [n] = rn @ ds @ [c]"
    if "locate f (abs_path (rn @ ds @ [c])) = Inr (d, n)" for d n
    using locate_below [OF ok s _ that] locate_facts(1) [OF that] by auto
  have o: "fs_lookup f (rn @ ds) = Some Dir" if t: "open_target k f (abs_path (rn @ ds @ [c])) = Inr q" for k q
  proof -
    obtain d n where "locate f (abs_path (rn @ ds @ [c])) = Inr (d, n)"
      using t by (cases "locate f (abs_path (rn @ ds @ [c]))") (auto simp: open_target.simps)
    with l show ?thesis by blast
  qed
  show "fs_lookup f (rn @ ds) = Some Dir"
    using e j nl l o locate_error [of f "abs_path (rn @ ds @ [c])"]
    by (auto simp: copy_entry_def Let_def create_dir_def copy_content_def
        split: node.splits prod.splits sum.splits if_splits option.splits)
  show "fs_lookup f' (rn @ ds @ [c]) \<noteq> None" if "nd = Dir"
    using e j l that locate_error [of f "abs_path (rn @ ds @ [c])"]
    by (auto simp: copy_entry_def Let_def create_dir_def fs_lookup_set
        split: prod.splits sum.splits if_splits option.splits)
  show "pushed = [(path_join sd c, abs_path (rn @ ds @ [c]))]" if "nd = Dir"
    using e j that by (auto simp: copy_entry_def Let_def split: prod.splits sum.splits if_splits)
qed

lemma copy_step_leads_back:
  assumes st: "fs_step rn f0 f" and top: "abs_path (rn @ ns) = s" "abs_path (rn @ ns @ c # r) = d"
    and safe: "\<forall>w\<in>set (rn @ ns @ c # r). safe_name w" and ex: "fs_lookup f (rn @ ns @ [c]) \<noteq> None"
    and step: "copy_step s d rest f = (Inr stack', f')"
  shows "leads_back rn f' stack'"
proof -
  note ok = fs_step_tree [OF st]
  have sns: "\<forall>w\<in>set (rn @ ns). safe_name w" "safe_name c"
    and sd: "\<forall>w\<in>set (rn @ (ns @ c # r)). safe_name w" using safe by auto
  have b: "below rn d"
    unfolding below_def using top(2) sd by (intro exI [of _ "ns @ c # r"]) simp
  obtain listing where rd: "read_dir f s = Inr listing" and cl: "copy_listing s d listing rest f = (Inr stack', f')"
    using step by (auto simp: copy_step_def split: sum.splits)
  have names: "\<forall>e\<in>set listing. safe_name (fst e)"
    using read_dir_names [OF tree_okD(1) [OF ok] rd] by auto
  obtain nd where nd: "fs_lookup f (rn @ ns @ [c]) = Some nd" using ex by auto
  have nl: "\<forall>t. nd \<noteq> Symlink t" using nd tree_okD(3) [OF ok, of "ns @ [c]"] by auto
  have "(c, nd) \<in> set listing"
    using read_dir_below(1) [OF ok sns(1)] rd top(1) children_iff [OF tree_okD(1) [OF ok], of c nd "rn @ ns"] nd
    by simp
  then obtain f1 f2 pushed where s1: "fs_step rn f0 f1" and k: "keeps_nodes f f1" "keeps_nodes f2 f'"
    and pu: "set pushed \<subseteq> set stack'" and e: "copy_entry s d (c, nd) f1 = (Inr pushed, f2)"
    and all: "keeps_nodes f f'"
    using copy_listing_entry [OF cl st b names] by blast
  note t1 = fs_step_tree [OF s1]
  have e': "copy_entry s (abs_path (rn @ (ns @ c # r))) (c, nd) f1 = (Inr pushed, f2)"
    using e top(2) by simp
  note ce = copied_entry_dir [OF t1 sd sns(2) nl e']
  have "nd = Dir"
  proof (cases "r = []")
    case True
    with ce(1) keeps_nodes_dir [OF k(1) nd] show ?thesis by simp
  next
    case False
    have "fs_lookup f1 ((rn @ ns @ [c]) @ r) = Some Dir" using ce(1) by simp
    from fs_wf_prefix_dir [OF tree_okD(1) [OF t1] this False] keeps_nodes_dir [OF k(1) nd]
    show ?thesis by simp
  qed
  note entry = ce(2,3) [OF this]
  have "path_join s c = abs_path (rn @ ns @ [c])"
    using join_abs_path [OF sns(2,1)] top(1) by simp
  with entry(2) pu have "(abs_path (rn @ (ns @ [c])), abs_path (rn @ (ns @ [c]) @ (r @ [c]))) \<in> set stack'"
    by simp
  moreover have "fs_lookup f' (rn @ (ns @ [c]) @ [hd (r @ [c])]) \<noteq> None"
  proof (cases r)
    case Nil
    with entry(1) keeps_nodes_exists [OF k(2)] show ?thesis by simp
  next
    case (Cons c' r')
    have "fs_lookup f1 ((rn @ ns @ [c] @ [c']) @ r') = Some Dir" using ce(1) Cons by simp
    then have "fs_lookup f1 (rn @ ns @ [c] @ [c']) \<noteq> None"
      using fs_wf_prefix_dir [OF tree_okD(1) [OF t1]] by (cases "r' = []") fastforce+
    with keeps_nodes_exists [OF copy_entry_keeps [OF e]] keeps_nodes_exists [OF k(2)] Cons
    show ?thesis by simp
  qed
  moreover obtain c' r' where r': "r @ [c] = c' # r'" by (cases "r @ [c]") auto
  moreover have "\<forall>w\<in>set (rn @ (ns @ [c]) @ c' # r'). safe_name w"
    using safe by (simp add: r' [symmetric])
  ultimately show ?thesis
    unfolding leads_back_def r'
    by (rule_tac exI [of _ "ns @ [c]"], rule_tac exI [of _ c'], rule_tac exI [of _ r']) simp
qed

lemma copy_loop_leads_back:
  "copy_loop stack f = Some res \<Longrightarrow> fs_step rn f0 f \<Longrightarrow> \<forall>(s, d)\<in>set stack. below rn d \<Longrightarrow>
     leads_back rn f stack \<Longrightarrow> \<exists>e. fst res = Inl e"
proof (induction rule: copy_loop_induct)
  case (empty f)
  then show ?case by (simp add: leads_back_def)
next
  case (failed s d rest f e f1)
  show ?case by simp
next
  case (again s d rest f stack1 f1 res)
  have b: "below rn d" "\<forall>(s, d)\<in>set rest. below rn d" using again.prems(2) by auto
  note st = copy_step_step [OF again.prems(1) b again.hyps]
  obtain ns c r where p: "(abs_path (rn @ ns), abs_path (rn @ ns @ c # r)) \<in> set ((s, d) # rest)"
      "\<forall>w\<in>set (rn @ ns @ c # r). safe_name w" "fs_lookup f (rn @ ns @ [c]) \<noteq> None"
    using again.prems(3) unfolding leads_back_def by blast
  have "leads_back rn f1 stack1"
  proof (cases "(abs_path (rn @ ns), abs_path (rn @ ns @ c # r)) = (s, d)")
    case True
    with copy_step_leads_back [OF again.prems(1) _ _ p(2,3) again.hyps] show ?thesis by simp
  next
    case False
    obtain listing where rd: "read_dir f s = Inr listing"
      and cl: "copy_listing s d listing rest f = (Inr stack1, f1)"
      using again.hyps by (auto simp: copy_step_def split: sum.splits)
    have "\<forall>e\<in>set listing. safe_name (fst e)"
      using read_dir_names [OF tree_okD(1) [OF fs_step_tree [OF again.prems(1)]] rd] by auto
    from copy_listing_entry [OF cl again.prems(1) b(1) this]
    have k: "keeps_nodes f f1" and sub: "set rest \<subseteq> set stack1" by blast+
    have "(abs_path (rn @ ns), abs_path (rn @ ns @ c # r)) \<in> set stack1" using False p(1) sub by auto
    with p(2) keeps_nodes_exists [OF k p(3)] show ?thesis unfolding leads_back_def by blast
  qed
  with again.IH st(1) st(2) [OF refl] show ?case by blast
qed

lemma path_exists_below:
  assumes "tree_ok rn f" "\<forall>w\<in>set (rn @ ns). safe_name w" "path_exists f (abs_path (rn @ ns))"
  shows "fs_lookup f (rn @ ns) \<noteq> None"
  using assms(3) resolve_below [OF assms(1,2)]
  by (auto simp: path_exists_def metadata_def split: sum.splits if_splits option.splits)

lemma copy_dir_own_subtree:
  assumes ok: "tree_ok rn f" and safe: "\<forall>w\<in>set (rn @ ns @ c # r). safe_name w"
    and ex: "ex \<Longrightarrow> fs_lookup f (rn @ ns @ c # r) \<noteq> None"
    and res: "copy_dir f (abs_path (rn @ ns)) (abs_path (rn @ ns @ c # r)) ex = Some res"
  shows "\<exists>e. fst res = Inl e"
proof -
  let ?d = "abs_path (rn @ ns @ c # r)"
  have sd: "\<forall>w\<in>set (rn @ (ns @ c # r)). safe_name w" "ns @ c # r \<noteq> []" using safe by auto
  obtain q f1 where q: "(if \<not> ex then create_dir f ?d else (Inr (), f)) = (q, f1)" by fastforce
  show ?thesis
  proof (cases q)
    case (Inl e)
    with res q show ?thesis by (auto simp: copy_dir_def)
  next
    case (Inr u)
    have l: "copy_loop [(abs_path (rn @ ns), ?d)] f1 = Some res"
      using res q Inr by (simp add: copy_dir_def)
    have s: "fs_step rn f f1"
      using q fs_step_refl [OF ok] create_dir_call.call_step [OF ok sd] by (auto split: if_splits)
    have "fs_lookup f1 (rn @ ns @ c # r) \<noteq> None"
    proof (cases ex)
      case True
      with q ex show ?thesis by simp
    next
      case False
      with q Inr have "create_dir f ?d = (Inr (), f1)" by simp
      then show ?thesis
        using locate_below [OF ok sd] by (auto simp: create_dir_def fs_lookup_set split: if_splits sum.splits option.splits)
    qed
    then obtain n where n: "fs_lookup f1 ((rn @ ns @ [c]) @ r) = Some n" by auto
    have "fs_lookup f1 (rn @ ns @ [c]) \<noteq> None"
      using n fs_wf_prefix_dir [OF tree_okD(1) [OF fs_step_tree [OF s]] n] by (cases "r = []") auto
    then have "leads_back rn f1 [(abs_path (rn @ ns), ?d)]"
      using safe unfolding leads_back_def by fastforce
    moreover have "below rn ?d" unfolding below_def using sd by (intro exI [of _ "ns @ c # r"]) simp
    ultimately show ?thesis using copy_loop_leads_back [OF l s] by simp
  qed
qed

subsection \<open>The handlers of COPY and MOVE\<close>

lemma clear_target_exists:
  "clear_target x f m dest ow ex = (True, f') \<Longrightarrow> ex \<and> f' = f"
  by (auto simp: clear_target_def split: if_splits sum.splits)

lemma transfer_step:
  assumes ok: "app_ok rn st" and src: "src = abs_path (rn @ ns)" "\<forall>w\<in>set (rn @ ns). safe_name w"
    and dest: "below rn dest"
  shows "app_step rn st (snd (transfer x is_move ow d src dest st))"
proof (cases "snd (transfer x is_move ow d src dest st) = st")
  case True
  with ok show ?thesis by (simp add: app_step_refl)
next
  case False
  note t = app_ok_tree [OF ok]
  obtain m where m: "stat_path x (st_fs st) src = Inr m"
    using False by (auto simp: transfer_def or_status_def Let_def split: if_splits sum.splits)
  obtain ex f1 where c: "clear_target x (st_fs st) m dest ow (path_exists (st_fs st) dest) = (ex, f1)" by fastforce
  note s1 = clear_target_step [OF t dest c]
  note t1 = fs_step_tree [OF s1]
  show ?thesis
  proof (cases "copy_resource f1 is_move d (fm_is_dir m) src dest ex")
    case None
    then have "snd (transfer x is_move ow d src dest st) = st\<lparr>st_fs := f1\<rparr>"
      using False m c by (auto simp: transfer_def Let_def split: if_splits)
    with app_step_fs [OF app_step_refl [OF ok] s1] show ?thesis by simp
  next
    case (Some res)
    obtain r f2 where r: "res = (r, f2)" by (cases res)
    have s2: "fs_step rn (st_fs st) f2"
      using fs_step_trans [OF s1 copy_resource_step [OF t1 dest Some]] r by simp
    show ?thesis
    proof (cases r)
      case (Inl e)
      then have "snd (transfer x is_move ow d src dest st) = st\<lparr>st_fs := f2\<rparr>"
        using False m c Some r by (auto simp: transfer_def Let_def split: if_splits)
      with app_step_fs [OF app_step_refl [OF ok] s2] show ?thesis by simp
    next
      case (Inr u)
      have "below rn src \<or> \<not> is_move"
      proof (rule disjCI)
        assume mv: "\<not> \<not> is_move"
        have "ns \<noteq> []"
        proof
          assume e: "ns = []"
          obtain ds where ds: "ds \<noteq> []" "dest = abs_path (rn @ ds)" "\<forall>w\<in>set (rn @ ds). safe_name w"
            by (rule belowE [OF dest])
          then obtain k ks where k: "ds = k # ks" by (cases ds) auto
          have "fm_is_dir m"
            using m e src(1) tree_okD(1,2) [OF t] resolve_abs_path [OF tree_okD(1,2) [OF t]]
            by (auto simp: stat_path_def metadata_def node_meta_def split: if_splits)
          with Some mv have cd: "copy_dir f1 (abs_path (rn @ [])) (abs_path (rn @ [] @ k # ks)) ex = Some res"
            using e src(1) ds(2) k by (simp add: copy_resource_def)
          have ex: "ex \<Longrightarrow> fs_lookup f1 (rn @ [] @ k # ks) \<noteq> None"
            using c clear_target_exists [of x "st_fs st" m dest ow _ f1] path_exists_below [OF t ds(3)] ds(2) k by auto
          have "\<forall>w\<in>set (rn @ [] @ k # ks). safe_name w" using ds(3) k by simp
          from copy_dir_own_subtree [OF t1 this ex cd] r Inr show False by simp
        qed
        with src show "below rn src" unfolding below_def by blast
      qed
      then have "fs_step rn f2 (finish_move f2 is_move (fm_is_dir m) src dest)"
      proof
        assume "below rn src"
        then show ?thesis by (rule finish_move_step [OF fs_step_tree [OF s2] _ dest])
      next
        assume "\<not> is_move"
        then show ?thesis by (simp add: finish_move_def fs_step_refl [OF fs_step_tree [OF s2]])
      qed
      from app_step_props [OF app_step_fs [OF app_step_refl [OF ok] fs_step_trans [OF s2 this]]]
      show ?thesis
        using False m c Some r Inr by (auto simp: transfer_def Let_def split: if_splits)
    qed
  qed
qed

lemma do_move_or_copy_step:
  assumes ok: "app_ok rn st"
  shows "app_step rn st (snd (do_move_or_copy is_move x now req st))"
proof (cases "snd (do_move_or_copy is_move x now req st) = st")
  case True
  with ok show ?thesis by (simp add: app_step_refl)
next
  case False
  then obtain ds src where ds: "parse_destination (ext_pct x) (req_headers req) = Some ds"
    and src: "state_resolve_existing x st (req_path req) = Some src"
    and wt: "\<exists>p. state_resolve_write_target x st ds = Some p \<and> \<not> path_eq src p"
    by (auto simp: do_move_or_copy_def opt_or_status_def Let_def split: option.splits if_splits)
  obtain ns where ns: "src = abs_path (rn @ ns)" "\<forall>w\<in>set (rn @ ns). safe_name w"
    by (rule existing_below [OF ok src])
  obtain r st1 where g: "state_resolve_and_guard x st ds = (r, st1)" by fastforce
  note g1 = guard_step(1) [OF ok g]
  show ?thesis
  proof (cases r)
    case (Inl e)
    with ds src wt g g1 show ?thesis
      by (auto simp: do_move_or_copy_def or_invalid_def)
  next
    case (Inr dest)
    from app_step_trans [OF g1 transfer_step [OF app_step_ok [OF g1] ns guard_step(2) [OF ok g Inr]]]
    show ?thesis
      using ds src wt g Inr by (auto simp: do_move_or_copy_def or_invalid_def Let_def)
  qed
qed

interpretation copy_handler: served_handler handle_copy
  by unfold_locales (simp add: handle_copy_def do_move_or_copy_step)

interpretation move_handler: served_handler handle_move
  by unfold_locales (simp add: handle_move_def do_move_or_copy_step)

end
