(* ===== verification/Stack_Safety.thy ===== *)
theory Stack_Safety
  imports Copy_Safety
begin

section \<open>The middleware stack\<close>

text \<open>
  LOCK and UNLOCK provide the contract of a handler, too, so the dispatcher does; the four
  middlewares are gates, and the router keeps the state and the rest of the file system. A request
  that a gate answers itself leaves the application state as it is but for the canonical cache.
\<close>

subsection \<open>LOCK and UNLOCK\<close>

lemma store_ok_below: "store_ok rn locks \<longleftrightarrow> hm_inv locks \<and> (\<forall>p. map_of locks p \<noteq> None \<longrightarrow> below rn p)"
proof -
  have k: "fst ` set locks = {p. map_of locks p \<noteq> None}" by (auto simp: map_of_eq_None_iff)
  show ?thesis unfolding store_ok_def k below_def by blast
qed

lemma store_ok_update: "store_ok rn locks \<Longrightarrow> below rn p \<Longrightarrow> store_ok rn (AList.update p e locks)"
  by (auto simp: store_ok_below hm_simps)

lemma store_ok_default: "store_ok rn locks \<Longrightarrow> below rn p \<Longrightarrow> store_ok rn (entry_or_default p e locks)"
  by (auto simp: store_ok_below hm_simps split: if_splits)

lemma store_ok_refresh:
  assumes "store_ok rn locks" "find_and_refresh_ancestor_lock now locks p q = (r, locks')"
  shows "store_ok rn locks'"
proof -
  note g = refresh_candidates_get [OF assms(2) [unfolded find_and_refresh_ancestor_lock_def]]
  have h: "hm_inv locks" using assms(1) by (simp add: store_ok_below)
  have "map_of locks' k \<noteq> None \<Longrightarrow> map_of locks k \<noteq> None" for k
    using g h by (fastforce split: option.splits)
  with assms(1) g h show ?thesis by (auto simp: store_ok_below)
qed

lemma store_ok_phase1:
  assumes ok: "store_ok rn locks" and b: "below rn (lr_target lr)" and p: "lock_phase1 x now lr locks = (r, locks')"
  shows "store_ok rn locks'"
proof -
  obtain f lf where f: "find_and_refresh_ancestor_lock now locks (lr_target lr)
      (\<lambda>l. lk_token l \<in> set (lr_tokens lr)) = (f, lf)" by fastforce
  note d = store_ok_default [OF ok b, of "[]"]
  show ?thesis
    using p f store_ok_refresh [OF ok f] store_ok_update [OF d b]
    by (auto simp: lock_phase1_def Let_def split: option.splits prod.splits sum.splits try_acquire.splits)
qed

lemma store_ok_phase2:
  assumes ok: "store_ok rn locks" and b: "below rn (lr_target lr)"
    and p: "lock_phase2 x now lr created locks = (r, locks')"
  shows "store_ok rn locks'"
  using p store_ok_default [OF ok b, of "[]"] store_ok_update [OF store_ok_default [OF ok b, of "[]"] b]
  by (auto simp: lock_phase2_def Let_def split: if_splits)

lemma store_ok_unlock:
  assumes "store_ok rn locks" "unlock_store p tok locks = (b, locks')"
  shows "store_ok rn locks'"
proof (cases "map_of locks p")
  case None
  with assms show ?thesis by (simp add: unlock_store_def)
next
  case (Some e)
  then have "below rn p" using assms(1) by (auto simp: store_ok_below)
  with Some assms store_ok_update show ?thesis by (auto simp: unlock_store_def Let_def)
qed

lemma store_ok_prune: "store_ok rn locks \<Longrightarrow> store_ok rn (prune_locks now locks)"
  by (auto simp: store_ok_below prune_locks_inv prune_locks_get split: option.splits if_splits)

lemma app_ok_store: "app_ok rn st \<Longrightarrow> store_ok rn (st_locks st)"
  by (simp add: app_ok_def state_ok_def)

lemma prepare_lock_step:
  assumes ok: "app_ok rn st" and p: "prepare_lock x req st = (r, st1)"
  shows "app_step rn st st1" and "r = Inr lr \<Longrightarrow> below rn (lr_target lr)"
proof -
  obtain g st' where g: "state_resolve_and_guard x st (trim_end_matches sep (req_path req)) = (g, st')" by fastforce
  note gs = guard_step [OF ok g]
  show "app_step rn st st1"
    using p g gs(1)
    by (auto simp: prepare_lock_def Let_def opt_or_status_def split: sum.splits option.splits prod.splits)
  show "below rn (lr_target lr)" if "r = Inr lr"
    using that p g gs(2)
    by (cases g) (auto simp: prepare_lock_def Let_def opt_or_status_def or_invalid_def split: option.splits prod.splits)
qed

interpretation lock_handler: served_handler handle_lock
proof unfold_locales
  fix rn st x now and req :: request
  assume ok: "app_ok rn st"
  obtain r st1 where p: "prepare_lock x req st = (r, st1)" by fastforce
  note p1 = prepare_lock_step(1) [OF ok p]
  note ok1 = app_step_ok [OF p1]
  show "app_step rn st (snd (handle_lock x now req st))"
  proof (cases r)
    case (Inl e)
    with p p1 show ?thesis by (simp add: handle_lock_def)
  next
    case (Inr lr)
    note b = prepare_lock_step(2) [OF ok p Inr]
    obtain a locks where l1: "lock_phase1 x now lr (st_locks st1) = (a, locks)" by fastforce
    note s1 = app_step_locks [OF p1 store_ok_phase1 [OF app_ok_store [OF ok1] b l1]]
    show ?thesis
    proof (cases a)
      case (Some rep)
      with p Inr l1 s1 show ?thesis by (simp add: handle_lock_def)
    next
      case None
      obtain c f where n: "ensure_lock_null_resource (lr_target lr) (st_fs st1) = (c, f)" by fastforce
      obtain ns where ns: "ns \<noteq> []" "lr_target lr = abs_path (rn @ ns)" "\<forall>w\<in>set (rn @ ns). safe_name w"
        by (rule belowE [OF b])
      have "f = snd (file_create_new (st_fs st1) (lr_target lr))"
        using n by (auto simp: ensure_lock_null_resource_def split: prod.splits sum.splits io_error.splits)
      then have fs: "fs_step rn (st_fs st1) f"
        using create_new_call.call_snd [OF app_ok_tree [OF ok1] ns(3,1)] ns(2) by simp
      have s2: "app_step rn st (st1\<lparr>st_locks := locks, st_fs := f\<rparr>)"
        using app_step_fs [OF s1] fs by simp
      show ?thesis
      proof (cases c)
        case (Inl e)
        with p Inr l1 None n s2 show ?thesis by (simp add: handle_lock_def)
      next
        case (Inr created)
        obtain rep locks' where l2: "lock_phase2 x now lr created locks = (rep, locks')" by fastforce
        have "store_ok rn locks" using app_ok_store [OF app_step_ok [OF s1]] by simp
        note s3 = app_step_locks [OF s2 store_ok_phase2 [OF this b l2]]
        have "st1\<lparr>st_locks := locks, st_fs := f, st_locks := locks'\<rparr> = st1\<lparr>st_locks := locks', st_fs := f\<rparr>"
          by (cases st1) simp
        with s3 have "app_step rn st (st1\<lparr>st_locks := locks', st_fs := f\<rparr>)" by (simp only:)
        then show ?thesis using p \<open>r = Inr lr\<close> l1 None n Inr l2 by (simp add: handle_lock_def)
      qed
    qed
  qed
qed

interpretation unlock_handler: served_handler handle_unlock
proof unfold_locales
  fix rn st x now and req :: request
  assume ok: "app_ok rn st"
  have "app_step rn st (st\<lparr>st_locks := snd (unlock_store p tok (st_locks st))\<rparr>)" for p tok
    using app_step_locks [OF app_step_refl [OF ok] store_ok_unlock [OF app_ok_store [OF ok]]]
    by (cases "unlock_store p tok (st_locks st)") auto
  then show "app_step rn st (snd (handle_unlock x now req st))"
    using app_step_refl [OF ok]
    by (auto simp: handle_unlock_def opt_or_status_def split: option.splits prod.splits)
      (metis snd_conv)+
qed

interpretation dispatcher: served_handler dispatch_handler
proof unfold_locales
  fix rn st x now and req :: request
  assume "app_ok rn st"
  then show "app_step rn st (snd (dispatch_handler x now req st))"
    using get_handler.handler_step put_handler.handler_step delete_handler.handler_step
      options_handler.handler_step propfind_handler.handler_step mkcol_handler.handler_step
      copy_handler.handler_step move_handler.handler_step proppatch_handler.handler_step
      lock_handler.handler_step unlock_handler.handler_step app_step_refl
    by (simp add: dispatch_handler_def split: option.split http_method.split)
qed

subsection \<open>The middlewares as gates\<close>

definition health_verdict :: "environment \<Rightarrow> request \<Rightarrow> server \<Rightarrow> reply option \<times> server" where
  "health_verdict env req s =
     (if is_health_check (req_headers req)
      then Some (fst (health_check (\<lambda>_ _ s. (Inl NO_RESPONSE, s)) env req s)) else None, s)"

definition tailscale_verdict :: "environment \<Rightarrow> request \<Rightarrow> server \<Rightarrow> reply option \<times> server" where
  "tailscale_verdict env req s =
     (if tailscale_is_empty (srv_tailscale s) then None
      else case header_str (req_headers req) IDENTITY_HEADER of
             None \<Rightarrow> Some (forbidden ''no Tailscale identity header on this request'')
           | Some login \<Rightarrow>
               if tailscale_validate (srv_tailscale s) login then None
               else Some (forbidden (login @ '' is not authorized for this server'')), s)"

definition auth_verdict :: "environment \<Rightarrow> request \<Rightarrow> server \<Rightarrow> reply option \<times> server" where
  "auth_verdict env req s =
     (if auth_is_empty (srv_auth s) then (None, s)
      else case parse_basic_auth (env_ax env) (req_headers req) of
             None \<Rightarrow> (Some unauthorized, s)
           | Some (username, passwd, hash) \<Rightarrow>
               (case validate_cached (env_ax env) (env_instant env) (srv_auth s) username passwd hash of
                  None \<Rightarrow> (Some (Inl NO_RESPONSE), s)
                | Some (ok, cache) \<Rightarrow>
                    (if ok then None else Some unauthorized, s\<lparr>srv_auth := (srv_auth s)\<lparr>au_cache := cache\<rparr>\<rparr>)))"

text \<open>
  A handler behind the lock enforcement has become a response when it ran, so an error status is
  the enforcement's own.
\<close>

definition probe :: handler where
  "probe x now req st = (empty_reply OK, st)"

definition lock_verdict :: "environment \<Rightarrow> request \<Rightarrow> server \<Rightarrow> reply option \<times> server" where
  "lock_verdict env req s =
     (case lock_enforce probe (env_x env) (env_now env) req (srv_app s) of
        (Inl e, st) \<Rightarrow> (Some (Inl e), s\<lparr>srv_app := st\<rparr>)
      | (Inr _, st) \<Rightarrow> (None, s\<lparr>srv_app := st\<rparr>))"

definition same_but_cache :: "app_state \<Rightarrow> app_state \<Rightarrow> bool" where
  "same_but_cache a b \<longleftrightarrow> b = a\<lparr>st_cache := st_cache b\<rparr> \<and> (\<forall>rn. app_ok rn a \<longrightarrow> app_ok rn b)"

lemma same_but_cache_refl [simp]: "same_but_cache a a"
  by (simp add: same_but_cache_def)

lemma same_but_cache_trans: "same_but_cache a b \<Longrightarrow> same_but_cache b c \<Longrightarrow> same_but_cache a c"
  unfolding same_but_cache_def by (cases a, cases b, cases c) auto

lemma check_locked_harmless:
  "check_locked x now ls rp st = (b, st1) \<Longrightarrow> same_but_cache st st1"
  using guard_step(1) app_step_ok guard_frame
  by (fastforce simp: check_locked_def same_but_cache_def split: prod.splits sum.splits)

lemma lock_enforce_probe:
  "lock_enforce next_h x now req st =
     (case lock_enforce probe x now req st of
        (Inl e, st1) \<Rightarrow> (Inl e, st1) | (Inr _, st1) \<Rightarrow> run_next next_h x now req st1)"
  by (auto simp: lock_enforce_def run_next_def probe_def empty_reply_def Let_def
      split: option.split prod.split bool.split)

lemma lock_enforce_harmless:
  assumes "lock_enforce probe x now req st = (r, st1)"
  shows "same_but_cache st st1"
proof (cases "st1 = st")
  case False
  then obtain m where m: "from_http_method (req_method req) = Some m"
    using assms by (auto simp: lock_enforce_def run_next_def probe_def split: option.splits)
  define ls where "ls = parse_if_header (req_headers req)"
  define rp where "rp = trim_end_matches sep (req_path req)"
  obtain b1 s1 where c1: "(if m \<noteq> COPY then check_locked x now ls rp st else (False, st)) = (b1, s1)" by fastforce
  define dst where "dst = parse_destination (ext_pct x) (req_headers req)"
  obtain b2 s2 where c2: "(if m = COPY \<or> m = MOVE then
       (case dst of None \<Rightarrow> (False, s1) | Some d \<Rightarrow> check_locked x now ls (trim_end_matches sep d) s1)
     else (False, s1)) = (b2, s2)" by fastforce
  have "same_but_cache st s1" using c1 check_locked_harmless by (auto split: if_splits)
  moreover have "same_but_cache s1 s2"
    using c2 check_locked_harmless by (auto split: if_splits option.splits)
  moreover have "st1 = s1 \<or> st1 = s2"
    using assms m c1 c2 False
    unfolding lock_enforce_def Let_def ls_def [symmetric] rp_def [symmetric] dst_def [symmetric]
    by (auto simp: run_next_def probe_def split: if_splits bool.splits)
  ultimately show ?thesis using same_but_cache_trans by blast
qed simp

interpretation health_gate: gate health_check health_verdict "(=)"
  by unfold_locales (auto simp: health_check_def health_verdict_def)

lemma run_simps: "into_response (fst (run nx env req s)) = into_response (fst (nx env req s))"
  "snd (run nx env req s) = snd (nx env req s)"
  by (simp_all add: run_def split: prod.split)

interpretation tailscale_gate: gate tailscale_auth_middleware tailscale_verdict "(=)"
  by unfold_locales
    (auto simp: tailscale_auth_middleware_def tailscale_verdict_def run_simps split: option.splits if_splits)

interpretation auth_gate: gate auth_middleware auth_verdict "(=)"
  by unfold_locales
    (auto simp: auth_middleware_def auth_verdict_def run_simps Let_def
      split: option.splits if_splits prod.splits)

interpretation lock_gate: gate lock_layer lock_verdict same_but_cache
proof unfold_locales
  fix env req s v s1 nx
  assume v: "lock_verdict env req s = (v, s1)"
  obtain r st1 where p: "lock_enforce probe (env_x env) (env_now env) req (srv_app s) = (r, st1)" by fastforce
  note e = lock_enforce_probe [of _ "env_x env" "env_now env" req "srv_app s", unfolded p]
  show "same_but_cache (srv_app s) (srv_app s1)"
    using v p lock_enforce_harmless [OF p] by (cases r) (auto simp: lock_verdict_def)
  show "resp_status (into_response (fst (lock_layer nx env req s))) =
        (case v of Some r \<Rightarrow> resp_status (into_response r)
                 | None \<Rightarrow> resp_status (into_response (fst (nx env req s1)))) \<and>
      srv_app (snd (lock_layer nx env req s)) =
        (case v of Some r \<Rightarrow> srv_app s1 | None \<Rightarrow> srv_app (snd (nx env req s1)))"
    using v p e by (cases r) (auto simp: lock_layer_def lock_verdict_def run_next_def split: prod.splits)
qed

subsection \<open>The router\<close>

lemma dispatch_step: "app_step rn st0 (srv_app s) \<Longrightarrow> app_step rn st0 (srv_app (snd (dispatch env req s)))"
  using dispatcher.handler_after [of rn st0 "srv_app s" "env_x env" "env_now env" req]
  by (auto simp: dispatch_def lift_handler_def split: prod.splits)

lemma app_step_harmless: "app_step rn st0 a \<Longrightarrow> same_but_cache a b \<Longrightarrow> app_step rn st0 b"
  unfolding same_but_cache_def app_step_def by (metis app_state.select_convs(1) app_state.surjective app_state.update_convs(6) app_state.select_convs(2))

lemma router_step:
  assumes "app_ok rn (srv_app s)"
  shows "app_step rn (srv_app s) (srv_app (snd (make_router env req s)))"
proof -
  let ?I = "app_step rn (srv_app s)"
  have l: "?I (srv_app t) \<Longrightarrow> ?I (srv_app (snd (lock_layer dispatch env req t)))" for t
    by (rule lock_gate.keeps [where I = ?I]) (auto intro: dispatch_step app_step_harmless)
  have a: "?I (srv_app t) \<Longrightarrow> ?I (srv_app (snd (auth_middleware (lock_layer dispatch) env req t)))" for t
    by (rule auth_gate.keeps [where I = ?I]) (auto intro: l)
  have t: "?I (srv_app t) \<Longrightarrow>
      ?I (srv_app (snd (tailscale_auth_middleware (auth_middleware (lock_layer dispatch)) env req t)))" for t
    by (rule tailscale_gate.keeps [where I = ?I]) (auto intro: a)
  show ?thesis
    unfolding make_router_def
    by (rule health_gate.keeps [where I = ?I]) (auto intro: t app_step_refl [OF assms])
qed

end
