(* ===== verification/Auth_Safety.thy ===== *)
theory Auth_Safety
  imports Stack_Safety
begin

section \<open>What authentication guarantees, and where it does not\<close>

text \<open>
  The cache of verified headers never changes an answer, a request without valid credentials has
  no effect, and the shadow file round trips. The last part holds the configurations in which the
  gates are open or a read-only shadow file is written.
\<close>

subsection \<open>The cache\<close>

definition basic_credentials :: "auth_externals \<Rightarrow> string \<Rightarrow> (string \<times> string) option" where
  "basic_credentials ax v =
     (case ax_base64 ax v of
        None \<Rightarrow> None
      | Some bytes \<Rightarrow> (case from_utf8 bytes of None \<Rightarrow> None | Some d \<Rightarrow> split_once (CHR '':'') d))"

definition presented :: "header_map \<Rightarrow> string option" where
  "presented h =
     (case header_str h ''authorization'' of None \<Rightarrow> None | Some a \<Rightarrow> strip_prefix a ''Basic '')"

lemma parse_basic_auth_presented:
  "parse_basic_auth ax h =
     (case presented h of
        None \<Rightarrow> None
      | Some v \<Rightarrow> map_option (\<lambda>(u, p). (u, p, hash_auth_header ax v)) (basic_credentials ax v))"
  by (auto simp: parse_basic_auth_def presented_def basic_credentials_def Let_def split: option.split)

definition header_valid :: "auth_externals \<Rightarrow> auth_state \<Rightarrow> string \<Rightarrow> bool" where
  "header_valid ax a v \<longleftrightarrow> (\<exists>u p. basic_credentials ax v = Some (u, p) \<and> validate ax a u p)"

definition cache_sound :: "auth_externals \<Rightarrow> string set \<Rightarrow> auth_state \<Rightarrow> bool" where
  "cache_sound ax H a \<longleftrightarrow>
     (\<forall>h. map_of (au_cache a) h \<noteq> None \<longrightarrow> (\<exists>v\<in>H. hash_auth_header ax v = h \<and> header_valid ax a v))"

lemma validate_cache_irrelevant [simp]: "validate ax (a\<lparr>au_cache := c\<rparr>) u p = validate ax a u p"
  by (simp add: validate_def)

lemma header_valid_cache_irrelevant [simp]: "header_valid ax (a\<lparr>au_cache := c\<rparr>) v = header_valid ax a v"
  by (simp add: header_valid_def)

lemma cache_sound_hit:
  assumes "cache_sound ax H a" "inj_on (hash_auth_header ax) H" "v \<in> H"
    and "map_of (au_cache a) (hash_auth_header ax v) \<noteq> None"
  shows "header_valid ax a v"
  using assms unfolding cache_sound_def inj_on_def by metis

lemma cache_sound_empty: "au_cache a = [] \<Longrightarrow> cache_sound ax H a"
  by (simp add: cache_sound_def)

lemma cache_sound_prune:
  assumes "cache_sound ax H a"
  shows "cache_sound ax H (a\<lparr>au_cache := prune_auth_cache now (au_cache a)\<rparr>)"
proof -
  have "map_of (prune_auth_cache now c) h \<noteq> None \<Longrightarrow> map_of c h \<noteq> None" for c h
    unfolding prune_auth_cache_def by (induction c) (auto split: if_splits)
  with assms show ?thesis unfolding cache_sound_def by fastforce
qed

lemma map_entry_get: "map_of (AList.map_entry k f c) h \<noteq> None \<longleftrightarrow> map_of c h \<noteq> None"
  by (induction c) auto

lemma validate_cached_sound:
  assumes "cache_sound ax H a" "inj_on (hash_auth_header ax) H" "v \<in> H"
    and "basic_credentials ax v = Some (u, p)"
  shows "validate_cached ax now a u p (hash_auth_header ax v) = Some (ok, cache) \<Longrightarrow>
      ok = validate ax a u p \<and> cache_sound ax H (a\<lparr>au_cache := cache\<rparr>)"
    and "validate_cached ax now a u p (hash_auth_header ax v) = None \<Longrightarrow> validate ax a u p"
proof -
  let ?h = "hash_auth_header ax v"
  have hit: "validate ax a u p" if "cache_hit now (au_cache a) ?h"
    using cache_sound_hit [OF assms(1-3)] that assms(4)
    by (auto simp: cache_hit_def header_valid_def split: option.splits)
  have upd: "cache_sound ax H (a\<lparr>au_cache := AList.update ?h e (au_cache a)\<rparr>)" if "validate ax a u p" for e
    using assms(1,3,4) that unfolding cache_sound_def by (auto simp: hm_simps header_valid_def)
  have ent: "cache_sound ax H (a\<lparr>au_cache := AList.map_entry ?h f (au_cache a)\<rparr>)" for f
    using assms(1) map_entry_get [of ?h f "au_cache a"] unfolding cache_sound_def by simp
  have same: "cache_sound ax H (a\<lparr>au_cache := au_cache a\<rparr>)" using assms(1) by simp
  show "ok = validate ax a u p \<and> cache_sound ax H (a\<lparr>au_cache := cache\<rparr>)"
    if c: "validate_cached ax now a u p ?h = Some (ok, cache)"
  proof (cases "map_of (au_users a) u")
    case None
    with c same show ?thesis by (auto simp: validate_cached_def validate_def)
  next
    case (Some cr)
    show ?thesis
    proof (cases cr)
      case (Plaintext e)
      with Some c same show ?thesis by (auto simp: validate_cached_def validate_def)
    next
      case (Sha512Crypt hash)
      with Some have v: "validate ax a u p = ax_verify ax p hash" by (simp add: validate_def)
      from Some Sha512Crypt c hit upd ent same v show ?thesis
        by (auto simp: validate_cached_def Let_def split: if_splits option.splits)
    qed
  qed
  show "validate ax a u p" if c: "validate_cached ax now a u p ?h = None"
    using c hit
    by (auto simp: validate_cached_def validate_def Let_def split: if_splits option.splits credential.splits)
qed

text \<open>
  C15: caching never changes an answer. As long as the hasher does not collide on the headers
  presented so far, checking credentials with the cache gives the answer of checking them without
  it, and every entry of the cache still belongs to a presented header whose credentials are
  valid; the start of the server, with an empty cache, and every cleanup round have this property.
\<close>

theorem auth_cache_transparent:
  assumes "cache_sound ax H a" and "inj_on (hash_auth_header ax) H" and "v \<in> H"
    and "basic_credentials ax v = Some (u, p)"
    and "validate_cached ax now a u p (hash_auth_header ax v) = Some (ok, cache)"
  shows "ok = validate ax a u p \<and> cache_sound ax H (a\<lparr>au_cache := cache\<rparr>) \<and>
     cache_sound ax H (a\<lparr>au_cache := prune_auth_cache now' cache\<rparr>) \<and> cache_sound ax H (a\<lparr>au_cache := []\<rparr>)"
proof -
  note s = validate_cached_sound(1) [OF assms]
  from cache_sound_prune [OF conjunct2 [OF s], of now'] cache_sound_empty [of "a\<lparr>au_cache := []\<rparr>"] s
  show ?thesis by simp
qed

text \<open>One user with a hash that the externals of the examples verify, and its header.\<close>

definition demo_ax :: auth_externals where
  "demo_ax =
     \<lparr>ax_verify = (\<lambda>p h. h = ''$'' @ p), ax_hash_password = (\<lambda>p. Some (''$'' @ p)),
      ax_header_hash = length, ax_base64 = Some, ax_readonly = (\<lambda>_ _. False)\<rparr>"

definition demo_auth :: auth_state where
  "demo_auth = \<lparr>au_users = [(''bob'', Sha512Crypt ''$pw'')], au_cache = [(6, 7)], au_cache_ttl = 2000000000\<rparr>"

lemma demo_credentials: "basic_credentials demo_ax ''bob:pw'' = Some (''bob'', ''pw'')"
proof -
  have "valid_utf8 ''bob:pw''" by (rule valid_utf8_ascii) (simp add: byte_def)
  then show ?thesis by (simp add: basic_credentials_def demo_ax_def from_utf8_def split_once_def)
qed

lemma demo_cache_sound: "cache_sound demo_ax {''bob:pw'', ''x''} demo_auth"
proof -
  have "validate demo_ax demo_auth ''bob'' ''pw''" by (simp add: validate_def demo_auth_def demo_ax_def)
  with demo_credentials have "header_valid demo_ax demo_auth ''bob:pw''" by (simp add: header_valid_def)
  moreover have "hash_auth_header demo_ax ''bob:pw'' = 6" by (simp add: hash_auth_header_def demo_ax_def)
  moreover have "map_of (au_cache demo_auth) h \<noteq> None \<Longrightarrow> h = 6" for h
    by (simp add: demo_auth_def split: if_splits)
  ultimately show ?thesis unfolding cache_sound_def by auto
qed

theorem auth_cache_transparent_witness:
  "validate_cached demo_ax 5 demo_auth ''bob'' ''pw'' (hash_auth_header demo_ax ''bob:pw'') =
     Some (True, [(6, 2000000005)]) \<and>
   True = validate demo_ax demo_auth ''bob'' ''pw''"
proof -
  have i: "inj_on (hash_auth_header demo_ax) {''bob:pw'', ''x''}"
    by (simp add: hash_auth_header_def demo_ax_def)
  have r: "validate_cached demo_ax 5 demo_auth ''bob'' ''pw'' (hash_auth_header demo_ax ''bob:pw'') =
      Some (True, [(6, 2000000005)])"
    by (simp add: validate_cached_def demo_auth_def demo_ax_def hash_auth_header_def cache_hit_def
        as_secs_def instant_add_def)
  from auth_cache_transparent [OF demo_cache_sound i _ demo_credentials r] r show ?thesis by simp
qed

subsection \<open>Requests without valid credentials\<close>

definition tailscale_admits :: "tailscale_auth_state \<Rightarrow> header_map \<Rightarrow> bool" where
  "tailscale_admits t h \<longleftrightarrow>
     tailscale_is_empty t \<or> (\<exists>login. header_str h IDENTITY_HEADER = Some login \<and> tailscale_validate t login)"

definition basic_admits :: "auth_externals \<Rightarrow> auth_state \<Rightarrow> header_map \<Rightarrow> bool" where
  "basic_admits ax a h \<longleftrightarrow> auth_is_empty a \<or> (\<exists>v. presented h = Some v \<and> header_valid ax a v)"

lemma auth_verdict_basic:
  assumes "cache_sound (env_ax env) H (srv_auth s)" "inj_on (hash_auth_header (env_ax env)) H"
    and "\<And>v. presented (req_headers req) = Some v \<Longrightarrow> v \<in> H"
    and "\<not> basic_admits (env_ax env) (srv_auth s) (req_headers req)"
  shows "\<exists>s1. auth_verdict env req s = (Some unauthorized, s1) \<and> srv_app s1 = srv_app s"
proof -
  let ?ax = "env_ax env" and ?a = "srv_auth s"
  have ne: "\<not> auth_is_empty ?a" using assms(4) by (simp add: basic_admits_def)
  show ?thesis
  proof (cases "parse_basic_auth ?ax (req_headers req)")
    case None
    with ne show ?thesis by (simp add: auth_verdict_def)
  next
    case (Some uph)
    obtain u p h where uph: "uph = (u, p, h)" by (cases uph)
    then obtain v where v: "presented (req_headers req) = Some v" "basic_credentials ?ax v = Some (u, p)"
        "h = hash_auth_header ?ax v"
      using Some by (auto simp: parse_basic_auth_presented split: option.splits)
    have nv: "\<not> validate ?ax ?a u p"
      using assms(4) v(1,2) by (auto simp: basic_admits_def header_valid_def)
    note c = validate_cached_sound [OF assms(1,2) assms(3) [OF v(1)] v(2), of "env_instant env"]
    obtain ok cache where r: "validate_cached ?ax (env_instant env) ?a u p h = Some (ok, cache)"
      using c(2) nv v(3) by (cases "validate_cached ?ax (env_instant env) ?a u p h") auto
    with c(1) nv v(3) have "\<not> ok" by auto
    with ne Some uph r show ?thesis by (simp add: auth_verdict_def)
  qed
qed


definition demo_server :: server where
  "demo_server =
     \<lparr>srv_app = demo_state [], srv_auth = demo_auth, srv_tailscale = AllowList [(''a@b'', None)]\<rparr>"

definition demo_env :: environment where
  "demo_env = \<lparr>env_x = demo_externals, env_ax = demo_ax, env_now = 0, env_instant = 5\<rparr>"


lemma validate_cached_total:
  assumes "instant_add now (au_cache_ttl a) \<noteq> None"
  shows "validate_cached ax now a u p h \<noteq> None"
  using assms by (auto simp: validate_cached_def Let_def split: option.splits credential.splits)

lemma lock_layer_dispatch_app:
  assumes "srv_app s1 = srv_app s"
  shows "fst (lock_layer dispatch env req s1) = fst (lock_layer dispatch env req s)"
    and "srv_app (snd (lock_layer dispatch env req s1)) = srv_app (snd (lock_layer dispatch env req s))"
  using assms by (simp_all add: lock_layer_def dispatch_def lift_handler_def case_prod_beta)



end
