(* ===== verification/Tree_Calls.thy ===== *)
theory Tree_Calls
  imports Copy_Safety
begin

section \<open>Calls that succeed, and paths of requests\<close>

text \<open>
  The calls of the file system when nothing outside the tree makes them fail (\<open>undisturbed\<close>), as
  equations on the nodes, and the resolution of a request path that names its target directly: no
  dot segments, no empty segments, no link on the way. The root directory may be given by any path
  that leads to it, relative ones and such with links included.
\<close>

definition undisturbed :: "fs \<Rightarrow> bool" where
  "undisturbed f \<longleftrightarrow> (\<forall>op p. \<not> fs_deny f op p)"

lemma undisturbed_frame [simp]:
  "undisturbed (fs_set p n f) = undisturbed f" "undisturbed (fs_remove p f) = undisturbed f"
  "undisturbed (fs_move s d f) = undisturbed f"
  by (simp_all add: undisturbed_def)

lemma undisturbedD [simp]: "undisturbed f \<Longrightarrow> fs_deny f op p = False"
  by (simp add: undisturbed_def)

subsection \<open>Calls on a name in a directory\<close>

lemma locate_child:
  assumes "fs_wf f" "fs_lookup f d = Some n" "\<forall>t. n \<noteq> Symlink t" "valid_name w"
  shows "locate f (abs_path (d @ [w])) = (if n = Dir then Inr (d, w) else Inl NotADirectory)"
proof -
  have v: "\<forall>v\<in>set (d @ [w]). valid_name v" using fs_wf_lookup(1) [OF assms(1,2)] assms(4) by simp
  have "CHR 0x00 \<notin> set (abs_path (d @ [w]))"
    using v by (auto simp: abs_path_def valid_name_def)
  moreover have "walk f 40 [] d = Inr d" using walk_existing [OF assms(1), of "[]" d n] assms(2,3) by simp
  ultimately show ?thesis
    using split_abs_path [OF valid_safe_list [OF v]] assms(2,4)
    by (simp add: locate_def start_dir_def butlast_append)
qed

lemma create_dir_child:
  assumes "fs_wf f" "undisturbed f" "fs_lookup f d = Some Dir" "valid_name w"
  shows "create_dir f (abs_path (d @ [w])) =
     (if fs_lookup f (d @ [w]) = None then (Inr (), fs_set (d @ [w]) Dir f) else (Inl AlreadyExists, f))"
  using locate_child [OF assms(1,3) _ assms(4)] assms(2) by (auto simp: create_dir_def split: option.split)

lemma open_target_child:
  assumes "fs_wf f" "fs_lookup f d = Some Dir" "valid_name w" "\<forall>t. fs_lookup f (d @ [w]) \<noteq> Some (Symlink t)"
  shows "open_target k f (abs_path (d @ [w])) =
     (if fs_lookup f (d @ [w]) = Some Dir then Inl IsADirectory else Inr (d @ [w]))"
  using locate_child [OF assms(1,2) _ assms(3)] assms(4)
  by (auto simp: open_target.simps split: option.split node.split)

lemma file_create_child:
  assumes "fs_wf f" "undisturbed f" "fs_lookup f d = Some Dir" "valid_name w"
    and "\<forall>t. fs_lookup f (d @ [w]) \<noteq> Some (Symlink t)"
  shows "file_create f (abs_path (d @ [w])) =
     (if fs_lookup f (d @ [w]) = Some Dir then (Inl IsADirectory, f)
      else (Inr (d @ [w]), fs_set (d @ [w]) (File []) f))"
  using open_target_child [OF assms(1,3,4,5)] assms(2) by (simp add: file_create_def)

lemma copy_content_child:
  assumes "fs_wf f" "undisturbed f" "fs_lookup f s = Some (File c)" "fs_lookup f d = Some Dir" "valid_name w"
    and "fs_lookup f (d @ [w]) = None"
  shows "copy_content f (abs_path s) (abs_path (d @ [w])) = (Inr (), fs_set (d @ [w]) (File c) f)"
  using open_target_child [OF assms(1,4,5)] resolve_abs_path [OF assms(1,3)] assms(2,3,6)
  by (auto simp: copy_content_def)

lemma removal_child:
  assumes "fs_wf f" "undisturbed f" "fs_lookup f (d @ [w]) = Some n"
  shows "n = Dir \<Longrightarrow> remove_dir_all f (abs_path (d @ [w])) = (Inr (), fs_remove (d @ [w]) f)"
    and "n = File c \<Longrightarrow> remove_file f (abs_path (d @ [w])) = (Inr (), fs_remove (d @ [w]) f)"
proof -
  have d: "fs_lookup f d = Some Dir" "valid_name w"
    using fs_wf_lookup [OF assms(1,3)] by simp_all
  note l = locate_child [OF assms(1) d(1) _ d(2)]
  show "n = Dir \<Longrightarrow> remove_dir_all f (abs_path (d @ [w])) = (Inr (), fs_remove (d @ [w]) f)"
    "n = File c \<Longrightarrow> remove_file f (abs_path (d @ [w])) = (Inr (), fs_remove (d @ [w]) f)"
    using l assms(2,3) by (simp_all add: remove_dir_all_def remove_file_def)
qed

lemma not_a_directory:
  assumes "fs_wf f" "undisturbed f" "fs_lookup f d = Some (File c)" "valid_name w"
  shows "create_dir f (abs_path (d @ [w])) = (Inl NotADirectory, f)"
    and "file_create f (abs_path (d @ [w])) = (Inl NotADirectory, f)"
  using locate_child [OF assms(1,3) _ assms(4)] assms(2)
  by (simp_all add: create_dir_def file_create_def open_target.simps)

lemma metadata_abs:
  assumes "fs_wf f" "undisturbed f" "fs_lookup f p = Some n" "\<forall>t. n \<noteq> Symlink t"
  shows "metadata f (abs_path p) = Inr n" "stat_path x f (abs_path p) = Inr (node_meta x p n)"
    "path_exists f (abs_path p)" "canonicalize f (abs_path p) = Inr (abs_path p)"
  using resolve_abs_path [OF assms(1,3,4)] assms(2,3)
  by (simp_all add: metadata_def stat_path_def path_exists_def canonicalize_def)

lemma metadata_missing:
  assumes "tree_ok rn f" "\<forall>w\<in>set (rn @ q). safe_name w" "fs_lookup f (rn @ q) = None"
  shows "\<not> path_exists f (abs_path (rn @ q))" "\<exists>e. metadata f (abs_path (rn @ q)) = Inl e"
proof -
  show ne: "\<not> path_exists f (abs_path (rn @ q))" using path_exists_below [OF assms(1,2)] assms(3) by auto
  then show "\<exists>e. metadata f (abs_path (rn @ q)) = Inl e"
    by (cases "metadata f (abs_path (rn @ q))") (simp_all add: path_exists_def)
qed

subsection \<open>Segments that do not count\<close>

definition steps :: "string list \<Rightarrow> string list" where
  "steps ss = filter (\<lambda>s. s \<noteq> [] \<and> s \<noteq> ''.'') ss"

lemma steps_simps [simp]:
  "steps [] = []" "steps (a @ b) = steps a @ steps b"
  "steps (s # ss) = (if s = [] \<or> s = ''.'' then steps ss else s # steps ss)"
  by (simp_all add: steps_def)

lemma walk_skip: "steps ts = [] \<Longrightarrow> fs_lookup f cur = Some Dir \<Longrightarrow> walk f k cur (ts @ ss) = walk f k cur ss"
  by (induction ts) (auto split: if_splits)

lemma steps_Cons:
  assumes "steps ts = s # ss"
  obtains pre rest where "ts = pre @ s # rest" "steps pre = []" "steps rest = ss"
proof -
  have "\<exists>pre rest. ts = pre @ s # rest \<and> steps pre = [] \<and> steps rest = ss"
    using assms
  proof (induction ts)
    case (Cons t ts)
    show ?case
    proof (cases "t = [] \<or> t = ''.''")
      case True
      with Cons obtain pre rest where "ts = pre @ s # rest" "steps pre = []" "steps rest = ss" by auto
      with True show ?thesis by (intro exI [of _ "t # pre"] exI [of _ rest]) simp
    next
      case False
      with Cons.prems show ?thesis by (intro exI [of _ "[]"] exI [of _ ts]) simp
    qed
  qed simp
  with that show thesis by blast
qed

lemma walk_steps:
  "walk f k cur ss = Inr q \<Longrightarrow> fs_lookup f q = Some Dir \<Longrightarrow> steps ts = steps ss \<Longrightarrow> walk f k cur ts = Inr q"
proof (induction f k cur ss arbitrary: ts rule: walk.induct)
  case (1 f k cur)
  then show ?case using walk_skip [of ts f cur k "[]"] by simp
next
  case (2 f k cur s ss)
  have dir: "fs_lookup f cur = Some Dir" using "2.prems"(1) by (simp split: if_splits)
  show ?case
  proof (cases "s = [] \<or> s = ''.''")
    case True
    with "2.IH"(1) "2.prems" dir show ?thesis by simp
  next
    case False
    then have "steps ts = s # steps ss" using "2.prems"(3) by simp
    then obtain pre rest where t: "ts = pre @ s # rest" "steps pre = []" "steps rest = steps ss"
      by (rule steps_Cons)
    note w = walk_skip [OF t(2) dir, of k "s # rest"]
    show ?thesis
    proof (cases "s = ''..''")
      case True
      with "2.IH"(2) [OF _ False True] "2.prems"(1,2) t dir w show ?thesis by simp
    next
      case nd: False
      show ?thesis
      proof (cases "fs_lookup f (cur @ [s])")
        case None
        with False nd dir "2.prems"(1) show ?thesis by simp
      next
        case (Some n)
        show ?thesis
        proof (cases n)
          case (Symlink l)
          with Some False nd dir "2.prems"(1) obtain k' where k: "k = Suc k'"
            by (cases k) auto
          have st: "steps (split_on sep l @ rest) = steps (split_on sep l @ ss)" using t(3) by simp
          show ?thesis
            using "2.IH"(5) [OF _ False nd Some Symlink k _ "2.prems"(2) st] "2.prems"(1) dir Some Symlink k False nd w t(1)
            by simp
        qed (use "2.IH"(3,4) [OF _ False nd Some _ _ "2.prems"(2) t(3)] "2.prems"(1) dir Some False nd w t(1) in simp_all)
      qed
    qed
  qed
qed

lemma walk_append:
  "walk f k cur xs = Inr q \<Longrightarrow> \<exists>k'. \<forall>ys. walk f k cur (xs @ ys) = walk f k' q ys"
proof (induction f k cur xs rule: walk.induct)
  case (2 f k cur s ss)
  have dir: "fs_lookup f cur = Some Dir" using "2.prems"(1) by (simp split: if_splits)
  consider (skip) "s = [] \<or> s = ''.''" | (up) "\<not> (s = [] \<or> s = ''.'')" "s = ''..''"
    | (name) "\<not> (s = [] \<or> s = ''.'')" "s \<noteq> ''..''" by blast
  then show ?case
  proof cases
    case skip
    with "2.IH"(1) "2.prems" dir show ?thesis by simp
  next
    case up
    with "2.IH"(2) "2.prems" dir show ?thesis by simp
  next
    case name
    show ?thesis
    proof (cases "fs_lookup f (cur @ [s])")
      case None
      with name dir "2.prems"(1) show ?thesis by simp
    next
      case (Some n)
      show ?thesis
      proof (cases n)
        case (Symlink t)
        with Some name dir "2.prems" obtain k' where k: "k = Suc k'"
          and w: "walk f k' (if starts_with t ''/'' then [] else cur) (split_on sep t @ ss) = Inr q"
          by (cases k) auto
        from "2.IH"(5) [OF _ name Some Symlink k w] dir Some Symlink k name show ?thesis by simp
      qed (use Some name dir "2.prems" "2.IH"(3,4) in simp_all)
    qed
  qed
qed auto

subsection \<open>Paths that lead to the root and then name their target\<close>

definition leads_to :: "fs \<Rightarrow> pathbuf \<Rightarrow> string list \<Rightarrow> string list \<Rightarrow> bool" where
  "leads_to f p rn ns \<longleftrightarrow>
     p \<noteq> [] \<and> CHR 0x00 \<notin> set p \<and>
     (\<exists>ss. split_on sep p = ss @ ns \<and> walk f 40 (start_dir f p) ss = Inr rn)"

lemma leads_to_resolve:
  assumes "tree_ok rn f" "leads_to f p rn ns" "\<forall>w\<in>set ns. safe_name w"
  shows "fs_lookup f (rn @ ns) = Some n \<Longrightarrow> resolve f p = Inr (rn @ ns)"
    and "fs_lookup f (rn @ ns) = None \<Longrightarrow> \<exists>e. resolve f p = Inl e"
proof -
  obtain ss k where k: "resolve f p = walk f k rn ns"
    using assms(2) walk_append [of f 40 "start_dir f p" _ rn] unfolding leads_to_def resolve_def by fastforce
  show "resolve f p = Inr (rn @ ns)" if "fs_lookup f (rn @ ns) = Some n"
  proof -
    have "\<forall>t. n \<noteq> Symlink t" using tree_okD(3) [OF assms(1), of ns] that by simp
    with walk_existing [OF tree_okD(1) [OF assms(1)] that] k show ?thesis by simp
  qed
  show "\<exists>e. resolve f p = Inl e" if miss: "fs_lookup f (rn @ ns) = None"
  proof (cases "resolve f p")
    case (Inr q)
    have "q = rn @ ns"
      using walk_plain [of f k rn ns q] Inr k assms(3) no_link_on_path [OF assms(1)] by auto
    moreover have "real_node f q"
      using walk_real [of f k rn ns q] Inr k tree_okD(1,2) [OF assms(1)] by (simp add: real_node_def)
    ultimately show ?thesis using miss by (simp add: real_node_def)
  qed simp
qed

lemma hd_join_with: "v \<noteq> [] \<Longrightarrow> starts_with (join_with ''/'' (v # ws)) ''/'' \<longleftrightarrow> hd v = sep"
  by (cases ws; cases v) (auto simp: starts_with_def)

lemma set_join_with: "set (join_with ''/'' ws) \<subseteq> insert sep (\<Union>(set ` set ws))"
  by (induction ws rule: induct_list012) auto

lemma set_split_on: "w \<in> set (split_on c s) \<Longrightarrow> set w \<subseteq> set s"
proof (induction s arbitrary: w)
  case (Cons x s)
  obtain v vs where "split_on c s = v # vs" using split_on_not_Nil [of c s] by (cases "split_on c s") auto
  with Cons.prems have "w = [] \<or> w = x # v \<and> v \<in> set (split_on c s) \<or> w \<in> set (split_on c s)"
    by (auto split: if_splits)
  with Cons.IH [of w] Cons.IH [of v] show ?case by auto
qed simp

lemma join_leads_to:
  assumes "tree_ok rn f" "resolve f root = Inr rn" "ns \<noteq> []" "\<forall>w\<in>set ns. valid_name w"
  shows "leads_to f (path_join root (join_with ''/'' ns)) rn ns"
    and "starts_with (path_join root (join_with ''/'' ns)) ''/'' = starts_with root ''/''"
    and "\<exists>ss. split_on sep (path_join root (join_with ''/'' ns)) = ss @ ns \<and> ss \<noteq> [] \<and>
      hd ss = hd (split_on sep root) \<and> walk f 40 (start_dir f root) ss = Inr rn"
proof -
  let ?t = "join_with ''/'' ns" and ?p = "path_join root (join_with ''/'' ns)"
  obtain v vs where vs: "ns = v # vs" using assms(3) by (cases ns) auto
  have "v \<noteq> []" "sep \<notin> set v" using assms(4) vs by (simp_all add: valid_name_def safe_name_def)
  then have v: "v \<noteq> []" "hd v \<noteq> sep" using hd_in_set [of v] by metis+
  have t: "\<not> starts_with ?t ''/''" using hd_join_with [OF v(1)] v(2) vs by simp
  have "\<forall>w\<in>set ns. sep \<notin> set w" using assms(4) unfolding valid_name_def safe_name_def by blast
  then have split_t: "split_on sep ?t = ns" by (rule split_on_join [OF assms(3)])
  have r: "root \<noteq> []" "CHR 0x00 \<notin> set root" "walk f 40 (start_dir f root) (split_on sep root) = Inr rn"
    using assms(2) by (auto simp: resolve_def split: if_splits)
  have nul: "CHR 0x00 \<notin> set ?t"
    using set_join_with [of ns] assms(4) unfolding valid_name_def by auto
  show sw: "starts_with ?p ''/'' = starts_with root ''/''"
    using t r(1) by (cases root) (auto simp: path_join_def starts_with_def)
  show ss: "\<exists>ss. split_on sep ?p = ss @ ns \<and> ss \<noteq> [] \<and> hd ss = hd (split_on sep root) \<and> walk f 40 (start_dir f root) ss = Inr rn"
  proof (cases "last root = sep")
    case True
    with r(1) have b: "root = butlast root @ [sep]" by (metis append_butlast_last_id)
    have s: "split_on sep root = split_on sep (butlast root) @ [[]]"
      using split_on_append_sep [of sep "butlast root" "[]"] b by (metis split_on.simps(1))
    have "split_on sep ?p = split_on sep (butlast root) @ ns"
      using split_on_append_sep [of sep "butlast root" ?t] b split_t t True
      by (metis append.assoc append_Cons append_Nil path_join_def)
    moreover have "walk f 40 (start_dir f root) (split_on sep (butlast root)) = Inr rn"
      by (rule walk_steps [OF r(3) tree_okD(2) [OF assms(1)]]) (simp add: s)
    moreover have "hd (split_on sep (butlast root)) = hd (split_on sep root)" using s by simp
    ultimately show ?thesis using split_on_not_Nil by blast
  next
    case False
    then have "split_on sep ?p = split_on sep root @ ns"
      using split_on_append_sep [of sep root ?t] split_t t r(1) by (simp add: path_join_def)
    with r(3) split_on_not_Nil show ?thesis by blast
  qed
  show "leads_to f ?p rn ns"
    unfolding leads_to_def
  proof (intro conjI)
    show "?p \<noteq> []" "CHR 0x00 \<notin> set ?p" using r(1,2) nul t by (auto simp: path_join_def)
    show "\<exists>ss. split_on sep ?p = ss @ ns \<and> walk f 40 (start_dir f ?p) ss = Inr rn"
      using ss sw by (auto simp: start_dir_def)
  qed
qed

lemma component_strs: "map component_str (List.map_filter seg_component ss) = steps ss"
  by (induction ss) (auto simp: List.map_filter_def seg_component_def steps_def)

lemma no_root_dir: "RootDir \<notin> set (List.map_filter seg_component ss)"
  by (induction ss) (auto simp: List.map_filter_def seg_component_def)

lemma not_absolute_hd: "p \<noteq> [] \<Longrightarrow> \<not> starts_with p ''/'' \<Longrightarrow> hd (split_on sep p) \<noteq> []"
  by (cases p) (auto simp: starts_with_def split: list.split)

lemma of_components_leads:
  assumes "tree_ok rn f" "ps \<noteq> []" "\<forall>w\<in>set (map component_str ps @ ms). sep \<notin> set w \<and> CHR 0x00 \<notin> set w"
    and "hd ps = RootDir \<or> component_str (hd ps) \<noteq> []" "RootDir \<notin> set (tl ps)" "\<forall>w\<in>set ms. w \<noteq> []"
    and "walk f 40 (if hd ps = RootDir then [] else fs_cwd f) ss = Inr rn" "steps ss = steps (map component_str ps)"
  shows "leads_to f (of_components (ps @ map Normal ms)) rn ms"
proof (cases "ps @ map Normal ms = [RootDir]")
  case True
  then have "ms = []" "ps = [RootDir]" by (cases ps; auto)+
  moreover have "walk f 40 [] [[], []] = Inr rn"
    using walk_steps [OF assms(7) tree_okD(2) [OF assms(1)], of "[[], []]"] assms(8) \<open>ps = [RootDir]\<close> by simp
  ultimately show ?thesis
    unfolding leads_to_def of_components_def by (intro conjI exI [of _ "[[], []]"]) (simp_all add: start_dir_def starts_with_def)
next
  case False
  let ?wp = "map component_str ps" and ?p = "of_components (ps @ map Normal ms)"
  have p: "?p = join_with ''/'' (?wp @ ms)"
    using False by (simp add: of_components_def map_component_str_Normal del: map_map)
  obtain c cs where ps: "ps = c # cs" using assms(2) by (cases ps) auto
  have split: "split_on sep ?p = ?wp @ ms"
    unfolding p by (rule split_on_join) (use assms(2,3) in auto)
  have sw: "starts_with ?p ''/'' \<longleftrightarrow> c = RootDir"
  proof (cases "c = RootDir")
    case True
    have "tl (?wp @ ms) \<noteq> []" using False True ps by (cases cs; cases ms) auto
    then obtain v vs where "tl (?wp @ ms) = v # vs" by (cases "tl (?wp @ ms)") auto
    with True ps have "?p = ''/'' @ join_with ''/'' (v # vs)" unfolding p by simp
    with True show ?thesis by (simp add: starts_with_def)
  next
    case c: False
    then have "component_str c \<noteq> []" "sep \<notin> set (component_str c)" using assms(3,4) ps by simp_all
    then have "hd (component_str c) \<noteq> sep" by (metis hd_in_set)
    with hd_join_with [of "component_str c" "map component_str cs @ ms"] c \<open>component_str c \<noteq> []\<close> ps
    show ?thesis unfolding p by simp
  qed
  have "?p \<noteq> []"
    using sw split ps assms(4) by (auto simp: starts_with_def)
  moreover have "CHR 0x00 \<notin> set ?p"
    using set_join_with [of "?wp @ ms"] assms(3) unfolding p by auto
  moreover have "walk f 40 (start_dir f ?p) ?wp = Inr rn"
    using walk_steps [OF assms(7) tree_okD(2) [OF assms(1)] assms(8) [symmetric]] sw unfolding ps start_dir_def by simp
  ultimately show ?thesis unfolding leads_to_def using split by blast
qed

lemma parent_leads_to:
  assumes "tree_ok rn f" "resolve f root = Inr rn" "\<forall>v\<in>set (ms @ [w]). valid_name v"
  obtains par where "path_parent (path_join root (join_with ''/'' (ms @ [w]))) = Some par" "leads_to f par rn ms"
    "path_file_name (path_join root (join_with ''/'' (ms @ [w]))) = Some w"
proof -
  let ?p = "path_join root (join_with ''/'' (ms @ [w]))"
  note j = join_leads_to [OF assms(1,2) _ assms(3)]
  obtain ss where ss: "split_on sep ?p = ss @ ms @ [w]" "ss \<noteq> []" "hd ss = hd (split_on sep root)"
      "walk f 40 (start_dir f root) ss = Inr rn"
    using j(3) by auto
  define pre where "pre = (if starts_with ?p ''/'' then [RootDir] else if hd ss = ''.'' then [CurDir] else [])"
  define ps where "ps = pre @ List.map_filter seg_component ss"
  have mf: "List.map_filter seg_component (ms @ [w]) = map Normal (ms @ [w])"
    by (rule map_filter_safe [OF valid_safe_list [OF assms(3)]])
  have comps: "components ?p = ps @ map Normal (ms @ [w])"
    using ss(1,2) mf map_filter_append [of seg_component ss "ms @ [w]"]
    by (simp add: components_def Let_def pre_def ps_def)
  have root: "root \<noteq> []" using assms(2) by (auto simp: resolve_def)
  have str: "map component_str ps = map component_str pre @ steps ss"
    by (simp add: ps_def component_strs)
  have hd_ps: "ps \<noteq> [] \<and> (hd ps = RootDir \<longleftrightarrow> starts_with root ''/'') \<and> (hd ps = RootDir \<or> component_str (hd ps) \<noteq> [])"
  proof (cases "starts_with root ''/'' \<or> hd ss = ''.''")
    case True
    with j(2) show ?thesis by (auto simp: ps_def pre_def)
  next
    case False
    then have "hd ss \<noteq> []" using not_absolute_hd [OF root] ss(3) by simp
    with ss(2) False j(2) show ?thesis
      by (cases ss) (auto simp: ps_def pre_def List.map_filter_def seg_component_def)
  qed
  have parts: "set v \<subseteq> set ?p \<and> sep \<notin> set v" if "v \<in> set ss" for v
    using that ss(1) set_split_on [of v sep ?p] split_on_pieces [of v sep ?p] by auto
  have nul: "CHR 0x00 \<notin> set ?p" using j(1) by (simp add: leads_to_def)
  have "leads_to f (of_components (ps @ map Normal ms)) rn ms"
  proof (rule of_components_leads [OF assms(1)])
    show "ps \<noteq> []" "hd ps = RootDir \<or> component_str (hd ps) \<noteq> []" using hd_ps by blast+
    show "\<forall>v\<in>set (map component_str ps @ ms). sep \<notin> set v \<and> CHR 0x00 \<notin> set v"
      using parts nul assms(3) unfolding str by (auto simp: pre_def steps_def valid_name_def safe_name_def)
    show "RootDir \<notin> set (tl ps)"
      using no_root_dir [of ss] list.set_sel(2) [of "List.map_filter seg_component ss" RootDir]
      by (cases "List.map_filter seg_component ss") (auto simp: ps_def pre_def)
    show "\<forall>v\<in>set ms. v \<noteq> []" using assms(3) by (auto simp: valid_name_def safe_name_def)
    show "walk f 40 (if hd ps = RootDir then [] else fs_cwd f) ss = Inr rn"
      using ss(4) hd_ps by (auto simp: start_dir_def)
    show "steps ss = steps (map component_str ps)" unfolding str by (simp add: pre_def steps_def)
  qed
  moreover have "path_parent ?p = Some (of_components (ps @ map Normal ms))"
    unfolding path_parent_def comps Let_def using hd_ps by (simp add: butlast_append)
  moreover have "path_file_name ?p = Some w" unfolding path_file_name_def comps by simp
  ultimately show thesis using that by blast
qed

end
