(* ===== verification/Dav_Tree.thy ===== *)
theory Dav_Tree
  imports Tree_Calls Stack_Safety
begin

section \<open>The served tree as an abstract data type\<close>

text \<open>
  What a client sees of the server: a finite tree of files and collections, addressed by lists of
  names. PUT, MKCOL, DELETE and GET are specified on this tree alone (\<open>dav_step\<close>), with no file
  system, no paths and no cache, and the handlers refine it: status and resulting tree are those
  of the specification. The refinement covers requests that name their target directly, on a tree
  without links whose calls do not fail for outside reasons, with a canonical cache that is up
  to date.
\<close>

type_synonym dav_tree = "string list \<Rightarrow> node option"

definition served_tree :: "string list \<Rightarrow> app_state \<Rightarrow> dav_tree" where
  "served_tree rn st ns = fs_lookup (st_fs st) (rn @ ns)"

definition dav_put :: "string \<Rightarrow> string list \<Rightarrow> dav_tree \<Rightarrow> status \<times> dav_tree" where
  "dav_put c ns t =
     (case t (butlast ns) of
        None \<Rightarrow> (CONFLICT, t)
      | Some Dir \<Rightarrow>
          (case t ns of
             Some Dir \<Rightarrow> (INTERNAL_SERVER_ERROR, t)
           | Some _ \<Rightarrow> (OK, t(ns \<mapsto> File c))
           | None \<Rightarrow> (CREATED, t(ns \<mapsto> File c)))
      | Some _ \<Rightarrow> (INTERNAL_SERVER_ERROR, t))"

definition dav_mkcol :: "string list \<Rightarrow> dav_tree \<Rightarrow> status \<times> dav_tree" where
  "dav_mkcol ns t =
     (case t (butlast ns) of
        None \<Rightarrow> (CONFLICT, t)
      | Some Dir \<Rightarrow> if t ns = None then (CREATED, t(ns \<mapsto> Dir)) else (METHOD_NOT_ALLOWED, t)
      | Some _ \<Rightarrow> (INTERNAL_SERVER_ERROR, t))"

definition dav_delete :: "string list \<Rightarrow> dav_tree \<Rightarrow> status \<times> dav_tree" where
  "dav_delete ns t =
     (if t ns = None then (NOT_FOUND, t)
      else (NO_CONTENT, \<lambda>q. if prefix ns q then None else t q))"

definition dav_step :: "http_method \<Rightarrow> string \<Rightarrow> string list \<Rightarrow> dav_tree \<Rightarrow> status \<times> dav_tree" where
  "dav_step m c ns t =
     (case m of PUT \<Rightarrow> dav_put c ns t | MKCOL \<Rightarrow> dav_mkcol ns t | DELETE \<Rightarrow> dav_delete ns t
      | _ \<Rightarrow> (NOT_IMPLEMENTED, t))"

subsection \<open>Requests that name their target\<close>

definition names_path :: "externals \<Rightarrow> string \<Rightarrow> string list \<Rightarrow> bool" where
  "names_path x rp ns \<longleftrightarrow>
     ns \<noteq> [] \<and> (\<forall>w\<in>set ns. valid_name w) \<and> trim_start_matches sep (ext_pct x rp) = join_with ''/'' ns"

definition root_at :: "string list \<Rightarrow> app_state \<Rightarrow> bool" where
  "root_at rn st \<longleftrightarrow> resolve (st_fs st) (st_root_dir st) = Inr rn"

definition fresh_cache :: "app_state \<Rightarrow> bool" where
  "fresh_cache st \<longleftrightarrow> (\<forall>k v. map_of (st_cache st) k = Some v \<longrightarrow> canonicalize (st_fs st) k = Inr v)"

definition ready :: "string list \<Rightarrow> app_state \<Rightarrow> bool" where
  "ready rn st \<longleftrightarrow> app_ok rn st \<and> root_at rn st \<and> undisturbed (st_fs st)"

lemma readyD:
  assumes "ready rn st"
  shows "app_ok rn st" "tree_ok rn (st_fs st)" "fs_wf (st_fs st)" "undisturbed (st_fs st)"
    "resolve (st_fs st) (st_root_dir st) = Inr rn" "st_root_canonical st = abs_path rn"
    "\<forall>w\<in>set rn. valid_name w" "\<forall>w\<in>set rn. safe_name w" "state_ok rn st"
  using assms tree_okD(1) valid_safe by (auto simp: ready_def app_ok_def root_at_def state_ok_def)

lemma names_pathD:
  assumes "names_path x rp ns"
  shows "ns \<noteq> []" "\<forall>w\<in>set ns. valid_name w" "\<forall>w\<in>set ns. safe_name w"
    "trim_start_matches sep (ext_pct x rp) = join_with ''/'' ns"
  using assms valid_safe by (auto simp: names_path_def)

lemma names_snoc:
  assumes "names_path x rp ns"
  obtains ms w where "ns = ms @ [w]" "\<forall>v\<in>set (ms @ [w]). valid_name v"
  using names_pathD(1,2) [OF assms] by (cases ns rule: rev_cases) auto

lemma no_link: "ready rn st \<Longrightarrow> fs_lookup (st_fs st) (rn @ ns) = Some n \<Longrightarrow> \<forall>t. n \<noteq> Symlink t"
  using tree_okD(3) [OF readyD(2), of rn st ns] by auto

lemma resolve_existing_leads:
  assumes "ready rn st" "\<forall>w\<in>set ns. safe_name w"
    and l: "leads_to (st_fs st) (path_join (st_root_dir st) (trim_start_matches sep (ext_pct x rp))) rn ns"
  shows "state_resolve_existing x st rp =
     (if fs_lookup (st_fs st) (rn @ ns) = None then None else Some (abs_path (rn @ ns)))"
proof -
  note r = leads_to_resolve [OF readyD(2) [OF assms(1)] l assms(2)]
  have s: "path_starts_with (abs_path (rn @ ns)) (abs_path rn)"
    using starts_with_abs_paths [OF readyD(8) [OF assms(1)], of "rn @ ns"] assms(2) readyD(8) [OF assms(1)] by auto
  show ?thesis
    using r s readyD(4,6) [OF assms(1)]
    by (cases "fs_lookup (st_fs st) (rn @ ns)")
      (auto simp: state_resolve_existing_def resolve_existing_def canonicalize_def Let_def)
qed

lemma resolve_existing_named:
  assumes "ready rn st" "names_path x rp ns"
  shows "state_resolve_existing x st rp =
     (if fs_lookup (st_fs st) (rn @ ns) = None then None else Some (abs_path (rn @ ns)))"
  using resolve_existing_leads [OF assms(1) names_pathD(3) [OF assms(2)]]
    join_leads_to(1) [OF readyD(2,5) [OF assms(1)] names_pathD(1,2) [OF assms(2)]] names_pathD(4) [OF assms(2)]
  by simp

lemma write_target_named:
  assumes "ready rn st" "names_path x rp ns"
  shows "state_resolve_write_target x st rp = Some (path_join (st_root_dir st) (join_with ''/'' ns))"
proof -
  let ?t = "join_with ''/'' ns"
  note n = names_pathD [OF assms(2)]
  have sp: "split_on sep ?t = ns" by (rule split_on_join) (use n in \<open>auto simp: safe_name_def\<close>)
  have "?t \<noteq> [] \<and> \<not> ends_with ?t ''/''"
  proof (intro conjI notI)
    assume "?t = []"
    then have "ns = [[]]" using sp by simp
    with n(3) show False by (simp add: safe_name_def)
  next
    assume "ends_with ?t ''/''"
    then obtain s where "rev ?t = sep # s" by (cases "rev ?t") (auto simp: ends_with_def starts_with_def)
    then have "?t = rev s @ ''/''" by (simp add: rev_swap)
    then have "last (split_on sep ?t) = []" using split_on_append_sep [of sep "rev s" "[]"] by simp
    with sp n(1,3) show False by (metis last_in_set safe_name_def)
  qed
  moreover have "\<not> list_ex (\<lambda>s. s = ''..'' \<or> s = ''.'') (split_on sep ?t)"
    unfolding sp using n(3) by (auto simp: list_ex_iff safe_name_def)
  ultimately show ?thesis
    using n(4) by (simp add: state_resolve_write_target_def resolve_write_target_def Let_def)
qed

lemma guard_named:
  assumes "ready rn st" "names_path x rp ns" "fresh_cache st" "state_resolve_and_guard x st rp = (r, st1)"
  shows "fs_lookup (st_fs st) (rn @ butlast ns) = None \<Longrightarrow> \<exists>e. r = Inl (ParentCanonicalizeFailed e)"
    and "fs_lookup (st_fs st) (rn @ butlast ns) = Some n \<Longrightarrow> r = Inr (abs_path (rn @ ns))"
    and "fresh_cache st1"
proof -
  let ?f = "st_fs st"
  obtain ms w where ns: "ns = ms @ [w]" "\<forall>v\<in>set (ms @ [w]). valid_name v" by (rule names_snoc [OF assms(2)])
  let ?p = "path_join (st_root_dir st) (join_with ''/'' (ms @ [w]))"
  note rd = readyD [OF assms(1)]
  obtain par where par: "path_parent ?p = Some par" "leads_to ?f par rn ms" "path_file_name ?p = Some w"
    by (rule parent_leads_to [OF rd(2,5) ns(2)])
  have safe: "\<forall>v\<in>set ms. safe_name v" "safe_name w" "\<forall>v\<in>set (rn @ ms). safe_name v"
    using ns(2) valid_safe rd(8) by auto
  note res = leads_to_resolve [OF rd(2) par(2) safe(1)]
  obtain r1 cache where pc: "parent_canonical ?f par (st_cache st) = (r1, cache)" by fastforce
  have can: "canonicalize ?f par = map_sum id abs_path (resolve ?f par)"
    using rd(4) by (simp add: canonicalize_def)
  have r1: "case canonicalize ?f par of Inl e \<Rightarrow> r1 = Inl (ParentCanonicalizeFailed e) | Inr c \<Rightarrow> r1 = Inr c"
    using pc assms(3) by (auto simp: parent_canonical_def fresh_cache_def split: option.splits sum.splits)
  have sw: "path_starts_with (abs_path (rn @ ms)) (abs_path rn)"
    using starts_with_abs_paths [OF rd(8) safe(3)] by simp
  have g: "resolve_and_guard (ext_pct x) ?f (st_root_dir st) (abs_path rn) rp (st_cache st) =
      (case r1 of Inl e \<Rightarrow> Inl e
       | Inr c \<Rightarrow> if \<not> path_starts_with c (abs_path rn) then Inl TraversalBlocked else Inr (path_join c w), cache)"
    using write_target_named [OF assms(1,2)] ns(1) par(1,3) pc
    by (simp add: resolve_and_guard_def state_resolve_write_target_def split: sum.split)
  have st1: "r = (case r1 of Inl e \<Rightarrow> Inl e
       | Inr c \<Rightarrow> if \<not> path_starts_with c (abs_path rn) then Inl TraversalBlocked else Inr (path_join c w))"
    "st1 = st\<lparr>st_cache := cache\<rparr>"
    using assms(4) g rd(6) by (auto simp: state_resolve_and_guard_def)
  show "\<exists>e. r = Inl (ParentCanonicalizeFailed e)" if "fs_lookup ?f (rn @ butlast ns) = None"
    using res(2) that ns(1) r1 can st1(1) by auto
  show "r = Inr (abs_path (rn @ ns))" if "fs_lookup ?f (rn @ butlast ns) = Some n"
    using res(1) that ns(1) r1 can st1(1) sw join_abs_path [OF safe(2,3)] by auto
  show "fresh_cache st1"
    using pc assms(3) st1(2)
    by (auto simp: parent_canonical_def fresh_cache_def hm_simps split: option.splits sum.splits if_splits)
qed

subsection \<open>The handlers refine the tree\<close>

lemma served_tree_set:
  "ns \<noteq> [] \<Longrightarrow> served_tree rn (st\<lparr>st_fs := fs_set (rn @ ns) n f\<rparr>) = (served_tree rn (st\<lparr>st_fs := f\<rparr>))(ns \<mapsto> n)"
  by (auto simp: served_tree_def fun_eq_iff fs_lookup_set)

lemma served_tree_remove:
  "ns \<noteq> [] \<Longrightarrow> served_tree rn (st\<lparr>st_fs := fs_remove (rn @ ns) f\<rparr>) =
     (\<lambda>q. if prefix ns q then None else served_tree rn (st\<lparr>st_fs := f\<rparr>) q)"
  by (auto simp: served_tree_def fun_eq_iff fs_lookup_remove)

lemma served_tree_same_fs: "st_fs st1 = st_fs st \<Longrightarrow> served_tree rn st1 = served_tree rn st"
  by (simp add: served_tree_def fun_eq_iff)

lemma put_file_named:
  assumes "ready rn st" "\<forall>v\<in>set (ms @ [w]). valid_name v" "req_stream req = (c, True)"
    and par: "fs_lookup (st_fs st) (rn @ ms) = Some n"
  shows "put_file req (st_fs st) (abs_path (rn @ ms @ [w])) =
     (if n \<noteq> Dir \<or> fs_lookup (st_fs st) (rn @ ms @ [w]) = Some Dir then (Inl INTERNAL_SERVER_ERROR, st_fs st)
      else (empty_reply (if fs_lookup (st_fs st) (rn @ ms @ [w]) = None then CREATED else OK),
            fs_set (rn @ ms @ [w]) (File c) (fs_set (rn @ ms @ [w]) (File []) (st_fs st))))"
proof -
  let ?f = "st_fs st" and ?q = "(rn @ ms) @ [w]"
  note rd = readyD [OF assms(1)]
  have w: "valid_name w" using assms(2) by simp
  show ?thesis
  proof (cases "n = Dir")
    case True
    have nl: "\<forall>t. fs_lookup ?f ?q \<noteq> Some (Symlink t)" using tree_okD(3) [OF rd(2), of "ms @ [w]"] by simp
    note cr = file_create_child [OF rd(3,4) par [unfolded True] w nl]
    have ex: "path_exists ?f (abs_path ?q) \<longleftrightarrow> fs_lookup ?f ?q \<noteq> None"
    proof (cases "fs_lookup ?f ?q")
      case None
      have "\<forall>v\<in>set (rn @ ms @ [w]). safe_name v" using rd(8) assms(2) valid_safe by auto
      with metadata_missing(1) [OF rd(2) this] None show ?thesis by simp
    next
      case (Some m)
      with metadata_abs(3) [OF rd(3,4) Some] nl show ?thesis by auto
    qed
    show ?thesis using cr ex assms(3) True rd(4) by (auto simp: put_file_def Let_def)
  next
    case False
    with no_link [OF assms(1) par] obtain b where "n = File b" by (cases n) auto
    with not_a_directory(2) [OF rd(3,4) par [unfolded this] w] show ?thesis by (simp add: put_file_def Let_def)
  qed
qed

lemma put_refines:
  assumes "ready rn st" "fresh_cache st" "names_path x (req_path req) ns" "req_stream req = (c, True)"
    and h: "handle_put x now req st = (r, st')"
  shows "(reply_status r, served_tree rn st') = dav_put c ns (served_tree rn st)"
proof -
  let ?f = "st_fs st"
  obtain ms w where ns: "ns = ms @ [w]" "\<forall>v\<in>set (ms @ [w]). valid_name v" by (rule names_snoc [OF assms(3)])
  obtain g st1 where g: "state_resolve_and_guard x st (req_path req) = (g, st1)" by fastforce
  note gn = guard_named [OF assms(1,3,2) g]
  note fr = guard_frame_fields(1) [OF g]
  show ?thesis
  proof (cases "fs_lookup ?f (rn @ ms)")
    case None
    with gn(1) ns(1) obtain e where "g = Inl (ParentCanonicalizeFailed e)" by auto
    with h g None ns(1) served_tree_same_fs [OF fr] show ?thesis
      by (auto simp: handle_put_def dav_put_def served_tree_def)
  next
    case (Some n)
    with gn(2) ns(1) have "g = Inr (abs_path (rn @ ms @ [w]))" by auto
    then have r: "r = fst (put_file req ?f (abs_path (rn @ ms @ [w])))"
        "st' = st1\<lparr>st_fs := snd (put_file req ?f (abs_path (rn @ ms @ [w])))\<rparr>"
      using h g fr by (auto simp: handle_put_def split: prod.splits)
    have t: "served_tree rn st ms = Some n" "served_tree rn st (ms @ [w]) = fs_lookup ?f (rn @ ms @ [w])"
      using Some by (simp_all add: served_tree_def)
    have st1: "served_tree rn (st1\<lparr>st_fs := ?f\<rparr>) = served_tree rn st"
      by (rule served_tree_same_fs) simp
    show ?thesis
      unfolding r put_file_named [OF assms(1) ns(2) assms(4) Some] dav_put_def ns(1)
      using t st1 no_link [OF assms(1) Some] no_link [OF assms(1), of "ms @ [w]"]
      by (auto simp: served_tree_set split: option.split node.split)
  qed
qed

lemma mkcol_refines:
  assumes "ready rn st" "fresh_cache st" "names_path x (trim_end_matches sep (req_path req)) ns"
    and "\<not> has_body (req_headers req)" and h: "handle_mkcol x now req st = (r, st')"
  shows "(reply_status r, served_tree rn st') = dav_mkcol ns (served_tree rn st)"
proof -
  let ?f = "st_fs st"
  note rd = readyD [OF assms(1)]
  obtain ms w where ns: "ns = ms @ [w]" "\<forall>v\<in>set (ms @ [w]). valid_name v" by (rule names_snoc [OF assms(3)])
  have w: "valid_name w" "\<forall>v\<in>set (rn @ ms @ [w]). safe_name v" using ns(2) rd(8) valid_safe by auto
  obtain g st1 where g: "state_resolve_and_guard x st (trim_end_matches sep (req_path req)) = (g, st1)" by fastforce
  note gn = guard_named [OF assms(1,3,2) g]
  note fr = guard_frame_fields(1) [OF g]
  show ?thesis
  proof (cases "fs_lookup ?f (rn @ ms)")
    case None
    with gn(1) ns(1) obtain e where "g = Inl (ParentCanonicalizeFailed e)" by auto
    with h g None ns(1) assms(4) served_tree_same_fs [OF fr] show ?thesis
      by (auto simp: handle_mkcol_def dav_mkcol_def served_tree_def)
  next
    case (Some n)
    let ?p = "abs_path ((rn @ ms) @ [w])"
    from Some gn(2) ns(1) have "g = Inr ?p" by auto
    then have r: "r = fst (make_collection ?f ?p)" "st' = st1\<lparr>st_fs := snd (make_collection ?f ?p)\<rparr>"
      using h g fr assms(4) by (auto simp: handle_mkcol_def split: prod.splits)
    have st1: "served_tree rn (st1\<lparr>st_fs := ?f\<rparr>) = served_tree rn st"
      by (rule served_tree_same_fs) simp
    have t: "served_tree rn st ms = Some n" "served_tree rn st (ms @ [w]) = fs_lookup ?f ((rn @ ms) @ [w])"
      using Some by (simp_all add: served_tree_def)
    show ?thesis
    proof (cases "fs_lookup ?f ((rn @ ms) @ [w])")
      case None
      then obtain e where e: "metadata ?f ?p = Inl e" using metadata_missing(2) [OF rd(2) w(2)] by auto
      show ?thesis
      proof (cases "n = Dir")
        case True
        note create_dir_child [OF rd(3,4) Some [unfolded True] w(1)]
        with e None r True t st1 ns(1) served_tree_set [of "ms @ [w]" rn Dir ?f st1] show ?thesis
          by (simp add: make_collection_def dav_mkcol_def)
      next
        case False
        with no_link [OF assms(1) Some] obtain b where b: "n = File b" by (cases n) auto
        from not_a_directory(1) [OF rd(3,4) Some [unfolded b] w(1)] e r t st1 ns(1) b show ?thesis
          by (simp add: make_collection_def dav_mkcol_def)
      qed
    next
      case (Some m)
      have "\<forall>t. m \<noteq> Symlink t" using no_link [OF assms(1), of "ms @ [w]"] Some by simp
      moreover have "n = Dir"
        using fs_wf_lookup(2) [OF rd(3) Some] \<open>fs_lookup ?f (rn @ ms) = Some n\<close> by (simp add: butlast_append)
      ultimately show ?thesis
        using metadata_abs(1) [OF rd(3,4) Some] r t st1 ns(1) Some by (simp add: make_collection_def dav_mkcol_def)
    qed
  qed
qed

lemma delete_existing:
  assumes "ready rn st" "state_resolve_existing x st (req_path req) = Some (abs_path (rn @ ns))" "ns \<noteq> []"
    and "fs_lookup (st_fs st) (rn @ ns) = Some n"
  shows "handle_delete x now req st = (empty_reply NO_CONTENT, st\<lparr>st_fs := fs_remove (rn @ ns) (st_fs st)\<rparr>)"
proof -
  let ?f = "st_fs st"
  note rd = readyD [OF assms(1)]
  note nl = no_link [OF assms(1,4)]
  obtain ms w where ns: "ns = ms @ [w]" using assms(3) by (cases ns rule: rev_cases) auto
  have v: "\<forall>v\<in>set (rn @ ns). safe_name v" by (rule valid_safe_list [OF fs_wf_lookup(1) [OF rd(3) assms(4)]])
  have "\<not> path_eq (abs_path (rn @ ns)) (abs_path rn)"
    using path_eq_abs_path [OF v rd(8)] abs_path_inject [OF v rd(8)] assms(3) by simp
  moreover have "(if n = Dir then remove_dir_all ?f (abs_path (rn @ ns)) else remove_file ?f (abs_path (rn @ ns))) =
      (Inr (), fs_remove (rn @ ns) ?f)"
    using removal_child [OF rd(3,4), of "rn @ ms" w n] assms(4) ns nl by (cases n) auto
  ultimately show ?thesis
    using assms(2) metadata_abs(2) [OF rd(3,4) assms(4) nl, of x] rd(6)
    by (auto simp: handle_delete_def opt_or_status_def or_status_def delete_reply_def node_meta_def split: if_splits)
qed

lemma delete_refines:
  assumes "ready rn st" "names_path x (req_path req) ns" and h: "handle_delete x now req st = (r, st')"
  shows "(reply_status r, served_tree rn st') = dav_delete ns (served_tree rn st)"
proof (cases "fs_lookup (st_fs st) (rn @ ns)")
  case None
  with h resolve_existing_named [OF assms(1,2)] show ?thesis
    by (auto simp: handle_delete_def opt_or_status_def dav_delete_def served_tree_def)
next
  case (Some n)
  note ne = names_pathD(1) [OF assms(2)]
  from delete_existing [OF assms(1) _ ne Some, of x req now] resolve_existing_named [OF assms(1,2)] Some h
  have "r = empty_reply NO_CONTENT" "st' = st\<lparr>st_fs := fs_remove (rn @ ns) (st_fs st)\<rparr>" by simp_all
  then show ?thesis
    using Some served_tree_remove [OF ne, of rn "st_fs st" st] by (auto simp: dav_delete_def served_tree_def)
qed

text \<open>A tree without links, served by a relative path.\<close>

definition plain_fs :: fs where
  "plain_fs =
     \<lparr>fs_nodes =
        [([''srv''], Dir), ([''srv'', ''a''], Dir), ([''srv'', ''a'', ''f''], File ''data''), ([''etc''], Dir)],
      fs_cwd = [], fs_deny = (\<lambda>_ _. False)\<rparr>"

definition plain_state :: app_state where
  "plain_state = app_state_new plain_fs ''./srv/'' 0"

lemma plain_tree: "tree_ok [''srv''] plain_fs"
proof -
  have "fs_wf plain_fs"
    by (simp add: fs_wf_def plain_fs_def fs_lookup_def valid_name_def safe_name_def)
  moreover have "fs_lookup plain_fs q \<noteq> Some (Symlink t)" for q t
    by (simp add: plain_fs_def fs_lookup_def)
  ultimately show ?thesis
    unfolding tree_ok_def by (simp add: real_node_def plain_fs_def fs_lookup_def)
qed

lemma plain_resolve: "resolve plain_fs ''./srv/'' = Inr [''srv'']"
  by code_simp

lemma plain_ready: "ready [''srv''] plain_state" "fresh_cache plain_state"
proof -
  have "undisturbed plain_fs" by (simp add: undisturbed_def plain_fs_def)
  with plain_tree plain_resolve show "ready [''srv''] plain_state"
    by (auto simp: ready_def app_ok_def state_ok_def root_at_def plain_state_def app_state_new_def
        canonicalize_def tree_ok_def store_ok_def valid_name_def safe_name_def)
  show "fresh_cache plain_state" by (simp add: fresh_cache_def plain_state_def app_state_new_def)
qed

definition target_path :: "http_method \<Rightarrow> request \<Rightarrow> string" where
  "target_path m req = (if m = MKCOL then trim_end_matches sep (req_path req) else req_path req)"

text \<open>
  PUT, MKCOL and DELETE do to the served tree what the abstract tree says, with the status it
  says. The request names its target directly, the canonical cache is up to date and no call fails
  for a reason outside the tree; the error answers for a missing parent (409), a parent that is a
  file (500), an existing target of MKCOL (405), a directory as the target of PUT (500) and a
  missing target of DELETE (404) are those of the specification, too. Locks and dead properties
  stay, also those of what DELETE removes.
\<close>

theorem dav_tree_refinement:
  assumes "ready rn st" and "fresh_cache st"
    and "from_http_method (req_method req) = Some m" and "m \<in> {PUT, MKCOL, DELETE}"
    and "names_path x (target_path m req) ns"
    and "req_stream req = (c, True)" and "\<not> has_body (req_headers req)"
    and "dispatch_handler x now req st = (r, st')"
  shows "(reply_status r, served_tree rn st') = dav_step m c ns (served_tree rn st) \<and>
     st_locks st' = st_locks st \<and> st_dead_props st' = st_dead_props st"
proof (intro conjI)
  consider (put) "m = PUT" | (mkcol) "m = MKCOL" | (delete) "m = DELETE" using assms(4) by blast
  then show "(reply_status r, served_tree rn st') = dav_step m c ns (served_tree rn st)"
  proof cases
    case put
    with put_refines [OF assms(1,2) _ assms(6), of x ns now r st'] assms(3,5,8) show ?thesis
      by (simp add: dispatch_handler_def dav_step_def target_path_def)
  next
    case mkcol
    with mkcol_refines [OF assms(1,2) _ assms(7), of x ns now r st'] assms(3,5,8) show ?thesis
      by (simp add: dispatch_handler_def dav_step_def target_path_def)
  next
    case delete
    with delete_refines [OF assms(1), of x req ns now r st'] assms(3,5,8) show ?thesis
      by (simp add: dispatch_handler_def dav_step_def target_path_def)
  qed
  show "st_locks st' = st_locks st" "st_dead_props st' = st_dead_props st"
    using assms(3,4,8) guard_frame_fields
    by (auto simp: dispatch_handler_def handle_put_def handle_mkcol_def handle_delete_def or_invalid_def
        split: prod.splits sum.splits if_splits)
qed

theorem dav_tree_refinement_witness:
  "reply_status (fst (dispatch_handler plain_externals 0 (demo_req ''DELETE'' ''/a'' []) plain_state)) = NO_CONTENT \<and>
   served_tree [''srv''] (snd (dispatch_handler plain_externals 0 (demo_req ''DELETE'' ''/a'' []) plain_state)) [''a'', ''f''] = None \<and>
   served_tree [''srv''] plain_state [''a'', ''f''] = Some (File ''data'')"
proof -
  let ?req = "demo_req ''DELETE'' ''/a'' []"
  have m: "from_http_method (req_method ?req) = Some DELETE" by (simp add: demo_req_def from_http_method_def)
  have n: "names_path plain_externals (target_path DELETE ?req) [''a'']"
    by (simp add: names_path_def target_path_def demo_req_def plain_externals_def valid_name_def safe_name_def trim_start_matches_def)
  have b: "req_stream ?req = ([], True)" "\<not> has_body (req_headers ?req)"
    by (simp_all add: demo_req_def has_body_def header_str_def)
  obtain r st' where h: "dispatch_handler plain_externals 0 ?req plain_state = (r, st')" by fastforce
  have old: "served_tree [''srv''] plain_state [''a''] = Some Dir"
    "served_tree [''srv''] plain_state [''a'', ''f''] = Some (File ''data'')"
    by (simp_all add: served_tree_def plain_state_def app_state_new_def plain_fs_def fs_lookup_def)
  from dav_tree_refinement [OF plain_ready m _ n b h] old h show ?thesis
    by (simp add: dav_step_def dav_delete_def)
qed

subsection \<open>What was put is what is read\<close>

definition grows :: "fs \<Rightarrow> fs \<Rightarrow> bool" where
  "grows f f' \<longleftrightarrow> fs_cwd f' = fs_cwd f \<and>
     (\<forall>q m. fs_lookup f q = Some m \<longrightarrow>
        fs_lookup f' q = Some m \<or> (\<exists>c c'. m = File c \<and> fs_lookup f' q = Some (File c')))"

lemma growsE:
  assumes "grows f f'" "fs_lookup f q = Some m"
  obtains "fs_lookup f' q = Some m" | c c' where "m = File c" "fs_lookup f' q = Some (File c')"
  using assms unfolding grows_def by blast

lemma walk_grows: "grows f f' \<Longrightarrow> walk f k cur ss = Inr q \<Longrightarrow> walk f' k cur ss = Inr q"
proof (induction f k cur ss rule: walk.induct)
  case (2 f k cur s ss)
  have dir: "fs_lookup f cur = Some Dir" using "2.prems"(2) by (simp split: if_splits)
  then have dir': "fs_lookup f' cur = Some Dir" by (rule growsE [OF "2.prems"(1)]) simp_all
  consider (skip) "s = [] \<or> s = ''.''" | (up) "\<not> (s = [] \<or> s = ''.'')" "s = ''..''"
    | (name) "\<not> (s = [] \<or> s = ''.'')" "s \<noteq> ''..''" by blast
  then show ?case
  proof cases
    case skip
    with "2.IH"(1) "2.prems" dir dir' show ?thesis by simp
  next
    case up
    with "2.IH"(2) "2.prems" dir dir' show ?thesis by simp
  next
    case name
    with dir "2.prems"(2) obtain n where n: "fs_lookup f (cur @ [s]) = Some n"
      by (cases "fs_lookup f (cur @ [s])") auto
    show ?thesis
    proof (cases n)
      case (Symlink t)
      with n name dir "2.prems" obtain k' where k: "k = Suc k'"
        and w: "walk f k' (if starts_with t ''/'' then [] else cur) (split_on sep t @ ss) = Inr q"
        by (cases k) auto
      have "fs_lookup f' (cur @ [s]) = Some (Symlink t)" using growsE [OF "2.prems"(1) n] Symlink by auto
      with "2.IH"(5) [OF _ name n Symlink k "2.prems"(1) w] dir dir' k name show ?thesis by simp
    next
      case (File c)
      with growsE [OF "2.prems"(1) n] obtain c' where "fs_lookup f' (cur @ [s]) = Some (File c')" by auto
      with "2.IH"(3) [OF _ name n File "2.prems"(1)] "2.prems"(2) dir dir' name n File show ?thesis by simp
    next
      case Dir
      with growsE [OF "2.prems"(1) n] have "fs_lookup f' (cur @ [s]) = Some Dir" by auto
      with "2.IH"(4) [OF _ name n Dir "2.prems"(1)] "2.prems"(2) dir dir' name n Dir show ?thesis by simp
    qed
  qed
qed simp

lemma resolve_grows: "grows f f' \<Longrightarrow> resolve f p = Inr q \<Longrightarrow> resolve f' p = Inr q"
  using walk_grows by (auto simp: resolve_def start_dir_def grows_def split: if_splits)

lemma put_state:
  assumes "ready rn st" "fresh_cache st" "names_path x (req_path req) ns" "req_stream req = (c, True)"
    and h: "handle_put x now req st = (r, st')" and ok: "reply_status r \<in> {OK, CREATED}"
  shows "grows (st_fs st) (st_fs st')" "undisturbed (st_fs st')" "fs_lookup (st_fs st') (rn @ ns) = Some (File c)"
proof -
  let ?f = "st_fs st"
  obtain ms w where ns: "ns = ms @ [w]" "\<forall>v\<in>set (ms @ [w]). valid_name v" by (rule names_snoc [OF assms(3)])
  obtain g st1 where g: "state_resolve_and_guard x st (req_path req) = (g, st1)" by fastforce
  note gn = guard_named [OF assms(1,3,2) g]
  note fr = guard_frame_fields(1) [OF g]
  obtain n where n: "fs_lookup ?f (rn @ ms) = Some n"
    using gn(1) h g ok ns(1) by (cases "fs_lookup ?f (rn @ ms)") (auto simp: handle_put_def)
  with gn(2) ns(1) have "g = Inr (abs_path (rn @ ms @ [w]))" by auto
  then have r: "r = fst (put_file req ?f (abs_path (rn @ ms @ [w])))"
      "st_fs st' = snd (put_file req ?f (abs_path (rn @ ms @ [w])))"
    using h g fr by (auto simp: handle_put_def split: prod.splits)
  have "\<not> (n \<noteq> Dir \<or> fs_lookup ?f (rn @ ms @ [w]) = Some Dir)"
    using ok r(1) unfolding put_file_named [OF assms(1) ns(2) assms(4) n] by (auto split: if_splits)
  moreover from this have st': "st_fs st' = fs_set (rn @ ns) (File c) (fs_set (rn @ ns) (File []) ?f)"
    using r(2) put_file_named [OF assms(1) ns(2) assms(4) n] ns(1) by simp
  moreover have "m \<noteq> Symlink t" if "fs_lookup ?f (rn @ ns) = Some m" for m t
    using no_link [OF assms(1) that] by blast
  ultimately show "grows ?f (st_fs st')"
    using ns(1) unfolding grows_def st'
    by (auto simp: fs_lookup_set) (metis node.exhaust)
  show "undisturbed (st_fs st')" "fs_lookup (st_fs st') (rn @ ns) = Some (File c)"
    using st' readyD(4) [OF assms(1)] ns(1) by (simp_all add: fs_lookup_set)
qed

text \<open>
  C16: a GET after a PUT reads what was put. When a PUT that names its target directly answers 200
  or 201, a GET of the same target, also spelled with other percent codes, answers 200 with exactly
  the bytes of the PUT as its body and their number as its content length.
\<close>

theorem put_get_roundtrip:
  assumes "ready rn st" and "fresh_cache st"
    and "req_method req = ''PUT''" and "names_path x (req_path req) ns" and "req_stream req = (c, True)"
    and "dispatch_handler x now req st = (r, st')" and "reply_status r \<in> {OK, CREATED}"
    and "req_method req2 = ''GET''" and "names_path x (req_path req2) ns"
  shows "\<exists>mime. dispatch_handler x now2 req2 st' =
      (Inr \<lparr>resp_status = OK,
            resp_headers = [(''content-type'', mime), (''content-length'', show_nat (length c))],
            resp_body = File_Stream c\<rparr>, st')"
proof -
  have h: "handle_put x now req st = (r, st')"
    using assms(3,6) by (simp add: dispatch_handler_def from_http_method_def)
  note p = put_state [OF assms(1,2,4,5) h assms(7)]
  have ok: "app_step rn st st'" using put_handler.handler_step [of rn st x now req] readyD(1) [OF assms(1)] h by simp
  then have "root_at rn st'"
    using resolve_grows [OF p(1) readyD(5) [OF assms(1)]] by (simp add: root_at_def app_step_def)
  with app_step_ok [OF ok] p(2) have rdy: "ready rn st'" by (simp add: ready_def)
  note rd = readyD(3,4) [OF rdy]
  have "open_dir (st_fs st') (abs_path (rn @ ns)) = Inr (rn @ ns)"
    using resolve_abs_path [OF rd(1) p(3)] rd(2) p(3) by (simp add: open_dir_def)
  then show ?thesis
    using resolve_existing_named [OF rdy assms(9)] p(3) metadata_abs(2) [OF rd p(3), of x] assms(8)
    by (auto simp: dispatch_handler_def from_http_method_def handle_get_head_def opt_or_status_def or_status_def
        node_meta_def get_file_def ok_response_def is_head_def Let_def)
qed

theorem put_get_roundtrip_witness:
  "\<exists>mime. fst (dispatch_handler plain_externals 1 (demo_req ''GET'' ''/a/new'' [])
      (snd (dispatch_handler plain_externals 0 ((demo_req ''PUT'' ''//a/new'' [])\<lparr>req_stream := (''hello'', True)\<rparr>) plain_state))) =
    Inr \<lparr>resp_status = OK, resp_headers = [(''content-type'', mime), (''content-length'', ''5'')],
         resp_body = File_Stream ''hello''\<rparr>"
proof -
  let ?put = "(demo_req ''PUT'' ''//a/new'' [])\<lparr>req_stream := (''hello'', True)\<rparr>"
  let ?get = "demo_req ''GET'' ''/a/new'' []"
  have n: "names_path plain_externals (req_path ?put) [''a'', ''new'']" "names_path plain_externals (req_path ?get) [''a'', ''new'']"
    by (simp_all add: names_path_def demo_req_def plain_externals_def valid_name_def safe_name_def trim_start_matches_def)
  have m: "req_method ?put = ''PUT''" "req_stream ?put = (''hello'', True)" "req_method ?get = ''GET''"
    by (simp_all add: demo_req_def)
  obtain r st' where h: "dispatch_handler plain_externals 0 ?put plain_state = (r, st')" by fastforce
  have old: "served_tree [''srv''] plain_state [''a''] = Some Dir" "served_tree [''srv''] plain_state [''a'', ''new''] = None"
    by (simp_all add: served_tree_def plain_state_def app_state_new_def plain_fs_def fs_lookup_def)
  have "handle_put plain_externals 0 ?put plain_state = (r, st')"
    using h m(1) by (simp add: dispatch_handler_def from_http_method_def)
  from put_refines [OF plain_ready n(1) m(2) this] old have "reply_status r \<in> {OK, CREATED}"
    by (simp add: dav_put_def)
  from put_get_roundtrip [OF plain_ready m(1) n(1) m(2) h this m(3) n(2), of 1]
  obtain mime where g: "dispatch_handler plain_externals 1 ?get st' =
      (Inr \<lparr>resp_status = OK, resp_headers = [(''content-type'', mime), (''content-length'', show_nat (length ''hello''))],
           resp_body = File_Stream ''hello''\<rparr>, st')" ..
  have "show_nat (length ''hello'') = ''5''" by code_simp
  with g h show ?thesis by (intro exI [of _ mime]) simp
qed

end
