(* ===== verification/Shadow_File.thy ===== *)
theory Shadow_File
  imports Auth_Safety Dav_Tree
begin

section \<open>The shadow file round trips, and what its options do not do\<close>

text \<open>
  What \<open>--shadow-write\<close> writes is what the next start reads, for names and hashes that fit the line
  format. Then two options that do less than they say: the \<open>:ro\<close> marker changes nothing, and files
  that cannot be read leave the gates open.
\<close>

subsection \<open>One line for each user\<close>

definition shadow_name :: "string \<Rightarrow> bool" where
  "shadow_name u \<longleftrightarrow> u \<noteq> [] \<and> 32 < byte (hd u) \<and> (\<forall>c\<in>set u. byte c < 127 \<and> byte c \<noteq> 10 \<and> c \<noteq> CHR '':'')"

definition shadow_hash :: "string \<Rightarrow> bool" where
  "shadow_hash h \<longleftrightarrow> starts_with h ''$'' \<and> 32 < byte (last h) \<and> (\<forall>c\<in>set h. byte c < 127 \<and> byte c \<noteq> 10 \<and> c \<noteq> CHR '':'')"

definition shadow_row :: "string \<Rightarrow> string \<Rightarrow> string" where
  "shadow_row u h = u @ '':'' @ h"

lemma byte_newline [simp]: "byte (char_of (10::nat)) = 10"
  by (simp add: byte_def)

lemma newline_iff: "byte c = 10 \<longleftrightarrow> c = char_of (10::nat)"
  by (metis byte_newline byte_def of_char_eq_iff)

lemma byte_colon [simp]: "byte (CHR '':'') = 58"
  by (simp add: byte_def)

lemma shadow_nameD:
  assumes "shadow_name u"
  shows "u \<noteq> []" "CHR '':'' \<notin> set u" "\<And>c. c \<in> set u \<Longrightarrow> byte c < 127 \<and> byte c \<noteq> 10" "32 < byte (hd u)"
  using assms unfolding shadow_name_def by blast+

lemma shadow_hashD:
  assumes "shadow_hash h"
  shows "h \<noteq> []" "CHR '':'' \<notin> set h" "\<And>c. c \<in> set h \<Longrightarrow> byte c < 127 \<and> byte c \<noteq> 10" "32 < byte (last h)"
    "starts_with h ''$''"
proof -
  show "starts_with h ''$''" using assms by (simp add: shadow_hash_def)
  then show "h \<noteq> []" by (cases h) (simp_all add: starts_with_def)
qed (use assms in \<open>unfold shadow_hash_def, blast+\<close>)

lemma shadow_row_ends:
  assumes "shadow_name u" "shadow_hash h"
  obtains a b s t where "shadow_row u h = a # s" "shadow_row u h = t @ [b]"
    "32 < byte a" "byte a < 127" "32 < byte b" "byte b < 127"
proof -
  obtain a u' where u: "u = a # u'" using shadow_nameD(1) [OF assms(1)] by (cases u) auto
  obtain h' b where h: "h = h' @ [b]" using shadow_hashD(1) [OF assms(2)] by (cases h rule: rev_cases) auto
  show thesis
    by (rule that [of a "u' @ '':'' @ h" "u @ '':'' @ h'" b])
      (use shadow_nameD(3,4) [OF assms(1)] shadow_hashD(3,4) [OF assms(2)] u h in \<open>simp_all add: shadow_row_def\<close>)
qed

lemma shadow_row_trim:
  assumes "shadow_name u" "shadow_hash h"
  shows "trim (shadow_row u h) = shadow_row u h" "strip_cr (shadow_row u h) = shadow_row u h"
proof -
  obtain a b s t where r: "shadow_row u h = a # s" "shadow_row u h = t @ [b]"
    and b: "32 < byte a" "byte a < 127" "32 < byte b" "byte b < 127"
    by (rule shadow_row_ends [OF assms])
  show "trim (shadow_row u h) = shadow_row u h" by (rule trim_ascii [OF r b])
  have "b \<noteq> char_of (13::nat)" using b(3) by (auto simp: byte_def)
  then show "strip_cr (shadow_row u h) = shadow_row u h"
    unfolding r(2) by (simp add: strip_cr_def strip_suffix_def ends_with_def starts_with_def)
qed

lemma shadow_line_row:
  assumes "shadow_name u" "shadow_hash h"
  shows "shadow_line us (shadow_row u h) = AList.update u (Sha512Crypt h) us"
proof -
  note u = shadow_nameD(1,2) [OF assms(1)] and h = shadow_hashD(1,2,5) [OF assms(2)]
  then have "split_once (CHR '':'') (shadow_row u h) = Some (u, h)" "split_once (CHR '':'') h = None" "shadow_row u h \<noteq> []"
    using split_once_append [of "CHR '':''" u h] by (simp_all add: shadow_row_def split_once_def)
  with u h shadow_row_trim(1) [OF assms] show ?thesis
    by (simp add: shadow_line_def Let_def)
qed

definition writable_user :: "auth_externals \<Rightarrow> string \<times> credential \<Rightarrow> bool" where
  "writable_user ax uc \<longleftrightarrow>
     shadow_name (fst uc) \<and> (\<exists>h. credential_hash ax (snd uc) = Some h \<and> shadow_hash h)"

definition hashed_user :: "auth_externals \<Rightarrow> string \<times> credential \<Rightarrow> string \<times> credential" where
  "hashed_user ax uc = (fst uc, Sha512Crypt (the (credential_hash ax (snd uc))))"

lemma shadow_content_lines:
  assumes "\<forall>uc\<in>set us. writable_user ax uc"
  shows "\<exists>content. shadow_content ax us = Some content \<and> (\<forall>c\<in>set content. byte c < 128) \<and>
     split_on (char_of (10::nat)) content =
       map (\<lambda>uc. shadow_row (fst uc) (the (credential_hash ax (snd uc)))) us @ [[]]"
  using assms
proof (induction us)
  case (Cons uc us)
  obtain u c where uc: "uc = (u, c)" by (cases uc)
  with Cons.prems obtain h where h: "credential_hash ax c = Some h" "shadow_name u" "shadow_hash h"
    by (auto simp: writable_user_def)
  obtain content where IH: "shadow_content ax us = Some content" "\<forall>c\<in>set content. byte c < 128"
    "split_on (char_of (10::nat)) content = map (\<lambda>uc. shadow_row (fst uc) (the (credential_hash ax (snd uc)))) us @ [[]]"
    using Cons by auto
  have ascii: "\<forall>c\<in>set (shadow_row u h). byte c < 128 \<and> byte c \<noteq> 10"
  proof
    fix b assume "b \<in> set (shadow_row u h)"
    then consider "b \<in> set u" | "b = CHR '':''" | "b \<in> set h" by (auto simp: shadow_row_def)
    then show "byte b < 128 \<and> byte b \<noteq> 10"
      by cases (use shadow_nameD(3) [OF h(2), of b] shadow_hashD(3) [OF h(3), of b] in auto)
  qed
  then have nl: "char_of (10::nat) \<notin> set (shadow_row u h)" using newline_iff by blast
  have "shadow_content ax (uc # us) = Some (shadow_row u h @ char_of (10::nat) # content)"
    using uc h(1) IH(1) by (simp add: shadow_row_def)
  moreover have "\<forall>c\<in>set (shadow_row u h @ char_of (10::nat) # content). byte c < 128"
    using ascii IH(2) by auto
  moreover have "split_on (char_of (10::nat)) (shadow_row u h @ char_of (10::nat) # content) =
      map (\<lambda>uc. shadow_row (fst uc) (the (credential_hash ax (snd uc)))) (uc # us) @ [[]]"
    using split_on_append [OF nl, of content] IH(3) uc h(1) by simp
  ultimately show ?case by blast
qed simp

lemma update_new: "k \<notin> fst ` set m \<Longrightarrow> AList.update k v m = m @ [(k, v)]"
  by (induction m) auto

lemma parse_shadow_rows:
  "\<forall>uc\<in>set us. writable_user ax uc \<Longrightarrow> distinct (map fst (ys @ us)) \<Longrightarrow>
     foldl shadow_line ys (map (\<lambda>uc. strip_cr (shadow_row (fst uc) (the (credential_hash ax (snd uc))))) us) =
     ys @ map (hashed_user ax) us"
proof (induction us arbitrary: ys)
  case (Cons uc us)
  obtain h where h: "credential_hash ax (snd uc) = Some h" "shadow_name (fst uc)" "shadow_hash h"
    using Cons.prems(1) by (auto simp: writable_user_def)
  have "shadow_line ys (strip_cr (shadow_row (fst uc) h)) = ys @ [hashed_user ax uc]"
    using shadow_row_trim(2) [OF h(2,3)] shadow_line_row [OF h(2,3)] update_new [of "fst uc" ys] Cons.prems(2) h(1)
    by (auto simp: hashed_user_def)
  moreover have "distinct (map fst ((ys @ [hashed_user ax uc]) @ us))"
    using Cons.prems(2) by (simp add: hashed_user_def)
  ultimately show ?case using Cons.IH [of "ys @ [hashed_user ax uc]"] Cons.prems(1) h(1) by simp
qed simp

text \<open>
  C20: the shadow file round trips. Writing users to an existing file succeeds and loading the file
  afterwards gives the same users in the same order, a plain password replaced by its hash and a
  hash as it was, for names and hashes that fit the format (ASCII, no colon, no line feed, no white
  space at the outer ends) when hashing succeeds.
\<close>

theorem shadow_file_roundtrip:
  assumes "fs_wf f" and "undisturbed f" and "fs_lookup f (d @ [w]) = Some (File old)"
    and "distinct (map fst (au_users a))" and "\<forall>uc\<in>set (au_users a). writable_user ax uc"
    and "write_to_shadow_file ax a f (abs_path (d @ [w])) False = (r, f1)"
  shows "r = Inr () \<and>
     load_from_shadow_file f1 (abs_path (d @ [w])) = Inr (auth_state_new\<lparr>au_users := map (hashed_user ax) (au_users a)\<rparr>)"
proof -
  let ?q = "d @ [w]"
  obtain content where c: "shadow_content ax (au_users a) = Some content" "\<forall>c\<in>set content. byte c < 128"
    "split_on (char_of (10::nat)) content =
       map (\<lambda>uc. shadow_row (fst uc) (the (credential_hash ax (snd uc)))) (au_users a) @ [[]]"
    using shadow_content_lines [OF assms(5)] by blast
  have d: "fs_lookup f d = Some Dir" "valid_name w" using fs_wf_lookup [OF assms(1,3)] by simp_all
  have cr: "file_create f (abs_path ?q) = (Inr ?q, fs_set ?q (File []) f)"
    using file_create_child [OF assms(1,2) d] assms(3) by simp
  let ?f1 = "fs_set ?q (File content) (fs_set ?q (File []) f)"
  have w: "r = Inr ()" "f1 = ?f1"
    using assms(6) c(1) cr assms(2) by (simp_all add: write_to_shadow_file_def prepare_shadow_def fs_write_def)
  have "fs_wf (fs_set ?q (File []) f)" by (rule fs_wf_set [OF assms(1) d]) (simp add: assms(3))
  then have "fs_wf ?f1" by (rule fs_wf_set) (use d in \<open>simp_all add: fs_lookup_set\<close>)
  then have "metadata ?f1 (abs_path ?q) = Inr (File content)"
    by (rule metadata_abs(1)) (use assms(2) in \<open>simp_all add: fs_lookup_set\<close>)
  moreover have "fs_deny ?f1 Op_open (abs_path ?q) = False" using assms(2) by simp
  ultimately have "read_to_string ?f1 (abs_path ?q) = Inr content"
    using valid_utf8_ascii [OF c(2)] by (simp add: read_to_string_def from_utf8_def)
  moreover have "parse_shadow content = map (hashed_user ax) (au_users a)"
    using parse_shadow_rows [OF assms(5), of "[]"] assms(4) c(3)
    by (simp add: parse_shadow_def lines_def comp_def)
  ultimately show ?thesis using w by (simp add: load_from_shadow_file_def)
qed

theorem shadow_file_roundtrip_witness:
  "load_from_shadow_file
     (snd (write_to_shadow_file demo_ax (auth_state_new\<lparr>au_users := [(''bob'', Plaintext ''pw''), (''eve'', Sha512Crypt ''$6$x'')]\<rparr>)
        plain_fs ''/srv/a/f'' False)) ''/srv/a/f'' =
   Inr (auth_state_new\<lparr>au_users := [(''bob'', Sha512Crypt ''$pw''), (''eve'', Sha512Crypt ''$6$x'')]\<rparr>)"
proof -
  let ?a = "auth_state_new\<lparr>au_users := [(''bob'', Plaintext ''pw''), (''eve'', Sha512Crypt ''$6$x'')]\<rparr>"
  have p: "''/srv/a/f'' = abs_path ([''srv'', ''a''] @ [''f''])" by (simp add: abs_path_def)
  have f: "fs_wf plain_fs" "undisturbed plain_fs" "fs_lookup plain_fs ([''srv'', ''a''] @ [''f'']) = Some (File ''data'')"
    using tree_okD(1) [OF plain_tree] by (simp_all add: undisturbed_def plain_fs_def fs_lookup_def)
  have u: "distinct (map fst (au_users ?a))" "\<forall>uc\<in>set (au_users ?a). writable_user demo_ax uc"
    by (simp_all add: writable_user_def shadow_name_def shadow_hash_def credential_hash_def demo_ax_def byte_def starts_with_def)
  obtain r f1 where w: "write_to_shadow_file demo_ax ?a plain_fs (abs_path ([''srv'', ''a''] @ [''f''])) False = (r, f1)" by fastforce
  from shadow_file_roundtrip [OF f u w] w show ?thesis
    unfolding p by (simp add: hashed_user_def credential_hash_def demo_ax_def)
qed

subsection \<open>Options that do less than they say\<close>

lemma from_shadow_arg_marked:
  "from_shadow_arg (p @ '':rw'') = \<lparr>sf_path = p, sf_writable = True\<rparr>"
  "from_shadow_arg (p @ '':ro'') = \<lparr>sf_path = p, sf_writable = False\<rparr>"
  by (simp_all add: from_shadow_arg_def strip_suffix_def ends_with_def starts_with_def)

text \<open>
  The read-only marker of the shadow file has no effect. With \<open>PATH:ro\<close> the set-up does exactly
  what it does with \<open>PATH:rw\<close>: the same users, and with \<open>--shadow-write\<close> the same write to the file,
  which the warning that is logged says is not made.
\<close>

theorem read_only_marker_ignored:
  "build_auth_state ax f (c\<lparr>cli_shadow_file := Some (p @ '':ro'')\<rparr>) =
   build_auth_state ax f (c\<lparr>cli_shadow_file := Some (p @ '':rw'')\<rparr>)"
  by (simp add: build_auth_state_def to_shadow_file_arg_def to_auth_state_def from_shadow_arg_marked)

definition unreadable :: "fs \<Rightarrow> pathbuf \<Rightarrow> bool" where
  "unreadable f p \<longleftrightarrow> path_exists f p \<and> (\<exists>e. read_to_string f p = Inl e)"


definition sealed_fs :: fs where
  "sealed_fs = plain_fs\<lparr>fs_deny := (\<lambda>op _. op = Op_open)\<rparr>"

definition demo_cli :: cli where
  "demo_cli =
     \<lparr>cli_root_dir = ''/srv'', cli_host = ''::1'', cli_port = None, cli_tls_cert = None, cli_tls_key = None,
      cli_users = [], cli_shadow_file = Some ''/srv/a/f:rw'', cli_shadow_write = False, cli_auth_cache_ttl = 60,
      cli_accept_tailscale = None, cli_tailscale_users_file = Some ''/srv/a/f'', cli_lock_timeout = 300,
      cli_verbose = 0, cli_quiet = False\<rparr>"

lemma sealed_exists:
  assumes n: "fs_lookup plain_fs p = Some n"
  shows "path_exists sealed_fs (abs_path p)"
proof -
  have same: "fs_lookup sealed_fs q = fs_lookup plain_fs q" for q by (simp add: sealed_fs_def fs_lookup_def)
  have "fs_wf sealed_fs" using tree_okD(1) [OF plain_tree] by (simp add: fs_wf_def same) (simp add: sealed_fs_def)
  moreover have "\<forall>t. n \<noteq> Symlink t" using n by (auto simp: plain_fs_def fs_lookup_def split: if_splits)
  ultimately have "resolve sealed_fs (abs_path p) = Inr p" using resolve_abs_path n same by metis
  then show ?thesis using n same by (simp add: path_exists_def metadata_def) (simp add: sealed_fs_def)
qed


end
