(* ===== verification/Copy_Exact.thy ===== *)
theory Copy_Exact
  imports Dav_Tree
begin

section \<open>COPY and MOVE on the served tree\<close>

text \<open>
  A recursive copy to a new place returns, and the tree below the target is then the tree below
  the source, every other node as it was; a MOVE is that copy without the source. The loop's
  stack holds pairs of directories with the same path below source and target; the directories of
  the stack are pairwise incomparable, and the measure is the number of nodes still to copy.
\<close>

lemma copy_entry_child:
  assumes "fs_wf f" "undisturbed f" "fs_lookup f (S @ [c]) = Some n" "\<forall>t. n \<noteq> Symlink t"
    and "fs_lookup f S = Some Dir" "fs_lookup f D = Some Dir" "fs_lookup f (D @ [c]) = None"
  shows "copy_entry (abs_path S) (abs_path D) (c, n) f =
     (Inr (if n = Dir then [(abs_path (S @ [c]), abs_path (D @ [c]))] else []), fs_set (D @ [c]) n f)"
proof -
  have v: "valid_name c" using fs_wf_lookup(1) [OF assms(1,3)] by simp
  have j: "path_join (abs_path S) c = abs_path (S @ [c])" "path_join (abs_path D) c = abs_path (D @ [c])"
    using join_abs_path [OF valid_safe [OF v]] fs_wf_lookup(1) [OF assms(1,5)] fs_wf_lookup(1) [OF assms(1,6)] valid_safe
    by blast+
  show ?thesis
  proof (cases n)
    case (File b)
    with copy_content_child [OF assms(1,2) _ assms(6) v assms(7), of "S @ [c]"] assms(3) j show ?thesis
      by (simp add: copy_entry_def Let_def)
  next
    case Dir
    with create_dir_child [OF assms(1,2,6) v] assms(7) j show ?thesis by (simp add: copy_entry_def Let_def)
  qed (use assms(4) in simp)
qed

definition pushes :: "string list \<Rightarrow> string list \<Rightarrow> (string \<times> node) list \<Rightarrow> (pathbuf \<times> pathbuf) list" where
  "pushes S D listing =
     map (\<lambda>(c, _). (abs_path (S @ [c]), abs_path (D @ [c]))) (rev (filter (\<lambda>(_, n). n = Dir) listing))"

lemma copy_listing_exact:
  assumes "S \<noteq> D" "fs_wf f" "undisturbed f" "fs_lookup f S = Some Dir" "fs_lookup f D = Some Dir"
    and "distinct (map fst listing)"
    and "\<And>c n. (c, n) \<in> set listing \<Longrightarrow>
      fs_lookup f (S @ [c]) = Some n \<and> (\<forall>t. n \<noteq> Symlink t) \<and> fs_lookup f (D @ [c]) = None"
  obtains f' where "copy_listing (abs_path S) (abs_path D) listing stack f = (Inr (pushes S D listing @ stack), f')"
    "fs_wf f'" "undisturbed f'" "fs_cwd f' = fs_cwd f"
    "\<And>q. fs_lookup f' q =
       (if q \<noteq> [] \<and> butlast q = D \<and> last q \<in> fst ` set listing then fs_lookup f (S @ [last q]) else fs_lookup f q)"
  using assms(2-)
proof (induction listing arbitrary: f stack thesis)
  case Nil
  show ?case by (rule Nil.prems(1) [of f]) (use Nil.prems in \<open>simp_all add: pushes_def\<close>)
next
  case (Cons e listing)
  obtain c n where e: "e = (c, n)" by (cases e)
  have c: "fs_lookup f (S @ [c]) = Some n" "\<forall>t. n \<noteq> Symlink t" "fs_lookup f (D @ [c]) = None"
    using Cons.prems(7) [of c n] e by simp_all
  let ?f1 = "fs_set (D @ [c]) n f"
  note step = copy_entry_child [OF Cons.prems(2,3) c(1,2) Cons.prems(4,5) c(3)]
  have v: "valid_name c" using fs_wf_lookup(1) [OF Cons.prems(2) c(1)] by simp
  have f1: "fs_lookup ?f1 q = (if q = D @ [c] then Some n else fs_lookup f q)" for q by (simp add: fs_lookup_set)
  have sd: "S \<noteq> D @ [c]" "D \<noteq> D @ [c]" "S @ [w] \<noteq> D @ [c]" for w
    using c(3) Cons.prems(4) assms(1) by auto
  show ?case
  proof (rule Cons.IH [where f = ?f1 and stack = "(if n = Dir then [(abs_path (S @ [c]), abs_path (D @ [c]))] else []) @ stack"])
    show "fs_wf ?f1" by (rule fs_wf_set [OF Cons.prems(2,5) v]) (simp add: c(3))
    show "undisturbed ?f1" using Cons.prems(3) by simp
    show "fs_lookup ?f1 S = Some Dir" "fs_lookup ?f1 D = Some Dir" using f1 sd Cons.prems(4,5) by simp_all
    show "distinct (map fst listing)" using Cons.prems(6) by simp
    fix w m assume m: "(w, m) \<in> set listing"
    with Cons.prems(6) e have "w \<noteq> c" by force
    with Cons.prems(7) [of w m] m f1 sd show "fs_lookup ?f1 (S @ [w]) = Some m \<and> (\<forall>t. m \<noteq> Symlink t) \<and> fs_lookup ?f1 (D @ [w]) = None"
      by simp
  next
    fix f'
    assume r: "copy_listing (abs_path S) (abs_path D) listing
        ((if n = Dir then [(abs_path (S @ [c]), abs_path (D @ [c]))] else []) @ stack) ?f1 =
        (Inr (pushes S D listing @ (if n = Dir then [(abs_path (S @ [c]), abs_path (D @ [c]))] else []) @ stack), f')"
      and f': "fs_wf f'" "undisturbed f'" "fs_cwd f' = fs_cwd ?f1"
      and l: "\<And>q. fs_lookup f' q =
       (if q \<noteq> [] \<and> butlast q = D \<and> last q \<in> fst ` set listing then fs_lookup ?f1 (S @ [last q]) else fs_lookup ?f1 q)"
    show thesis
    proof (rule Cons.prems(1) [of f'])
      show "copy_listing (abs_path S) (abs_path D) (e # listing) stack f = (Inr (pushes S D (e # listing) @ stack), f')"
        using step r e by (simp add: pushes_def)
      show "fs_wf f'" "undisturbed f'" "fs_cwd f' = fs_cwd f" using f' by simp_all
      have nc: "c \<notin> fst ` set listing" using Cons.prems(6) e by simp
      show "fs_lookup f' q = (if q \<noteq> [] \<and> butlast q = D \<and> last q \<in> fst ` set (e # listing) then fs_lookup f (S @ [last q]) else fs_lookup f q)" for q
        using l [of q] f1 [of q] f1 [of "S @ [last q]"] sd(3) e c(1) nc
        by (cases q rule: rev_cases) (auto simp: snoc_eq_iff_butlast)
    qed
  qed
qed

subsection \<open>One directory\<close>

definition below_any :: "string list \<Rightarrow> string list list \<Rightarrow> string list \<Rightarrow> bool" where
  "below_any D rs q \<longleftrightarrow> (\<exists>r\<in>set rs. strict_prefix (D @ r) q)"

definition source_of :: "string list \<Rightarrow> string list \<Rightarrow> string list \<Rightarrow> string list" where
  "source_of S D q = S @ drop (length D) q"

lemma source_of_append [simp]: "source_of S D (D @ r) = S @ r"
  by (simp add: source_of_def)

definition copying :: "string list \<Rightarrow> string list \<Rightarrow> fs \<Rightarrow> string list list \<Rightarrow> bool" where
  "copying S D f rs \<longleftrightarrow>
     fs_wf f \<and> undisturbed f \<and> \<not> prefix S D \<and> \<not> prefix D S \<and>
     (\<forall>u t. fs_lookup f (S @ u) \<noteq> Some (Symlink t)) \<and>
     (\<forall>r\<in>set rs. fs_lookup f (S @ r) = Some Dir \<and> fs_lookup f (D @ r) = Some Dir \<and>
        (\<forall>u. u \<noteq> [] \<longrightarrow> fs_lookup f (D @ r @ u) = None)) \<and>
     distinct rs \<and> (\<forall>r\<in>set rs. \<forall>r'\<in>set rs. prefix r r' \<longrightarrow> r = r')"

definition stack_of :: "string list \<Rightarrow> string list \<Rightarrow> string list list \<Rightarrow> (pathbuf \<times> pathbuf) list" where
  "stack_of S D rs = map (\<lambda>r. (abs_path (S @ r), abs_path (D @ r))) rs"

definition to_copy :: "string list \<Rightarrow> fs \<Rightarrow> string list list \<Rightarrow> nat" where
  "to_copy S f rs = (\<Sum>r\<leftarrow>rs. Suc (card (rels f (S @ r))))"

definition sub_dirs :: "fs \<Rightarrow> string list \<Rightarrow> string list \<Rightarrow> string list list" where
  "sub_dirs f S r = map (\<lambda>(c, _). r @ [c]) (rev (filter (\<lambda>(_, n). n = Dir) (children f (S @ r))))"

lemma pushes_stack: "pushes (S @ r) (D @ r) (children f (S @ r)) = stack_of S D (sub_dirs f S r)"
  by (simp add: pushes_def stack_of_def sub_dirs_def case_prod_beta')

lemma sub_dirs_iff: "fs_wf f \<Longrightarrow> r' \<in> set (sub_dirs f S r) \<longleftrightarrow> (\<exists>c. r' = r @ [c] \<and> fs_lookup f (S @ r @ [c]) = Some Dir)"
  by (auto simp: sub_dirs_def children_iff image_iff)

lemma distinct_sub_dirs:
  assumes "fs_wf f"
  shows "distinct (sub_dirs f S r)"
proof -
  have "distinct (map fst (filter (\<lambda>(_, n). n = Dir) (children f (S @ r))))"
    using children_distinct [OF assms] distinct_map_filter by blast
  then have "distinct (map (\<lambda>c. r @ [c]) (map fst (rev (filter (\<lambda>(_, n). n = Dir) (children f (S @ r))))))"
    unfolding distinct_map [of "\<lambda>c. r @ [c]"] by (simp add: rev_map [symmetric] inj_on_def)
  then show ?thesis by (simp add: sub_dirs_def comp_def case_prod_beta')
qed

lemma to_copy_sub_dirs:
  assumes "fs_wf f"
  shows "to_copy S f (sub_dirs f S r) \<le> card (rels f (S @ r))"
proof -
  have "to_copy S f (sub_dirs f S r) =
      (\<Sum>(c, n)\<leftarrow>filter (\<lambda>(_, n). n = Dir) (children f (S @ r)). Suc (card (rels f (S @ r @ [c]))))"
    by (simp add: to_copy_def sub_dirs_def comp_def case_prod_beta' rev_map [symmetric] sum_list_rev)
  also have "\<dots> \<le> (\<Sum>(c, n)\<leftarrow>children f (S @ r). Suc (if n = Dir then card (rels f ((S @ r) @ [c])) else 0))"
  proof -
    have "(\<Sum>(c, n)\<leftarrow>filter (\<lambda>(_, n). n = Dir) ch. Suc (card (rels f (S @ r @ [c])))) \<le>
        (\<Sum>(c, n)\<leftarrow>ch. Suc (if n = Dir then card (rels f ((S @ r) @ [c])) else 0))" for ch
      by (induction ch) auto
    then show ?thesis .
  qed
  also have "\<dots> = card (rels f (S @ r))" by (rule card_rels_children [OF assms, symmetric])
  finally show ?thesis .
qed

lemma copying_apart:
  assumes "copying S D f rs"
  shows "S @ u \<noteq> D @ v"
  using assms by (auto simp: copying_def append_eq_append_conv2)

lemma copy_step_exact:
  assumes ok: "copying S D f (r # rs)"
  obtains f1 where "copy_step (abs_path (S @ r)) (abs_path (D @ r)) (stack_of S D rs) f =
      (Inr (stack_of S D (sub_dirs f S r @ rs)), f1)"
    "fs_wf f1" "undisturbed f1" "fs_cwd f1 = fs_cwd f"
    "\<And>q. fs_lookup f1 q = (if q \<noteq> [] \<and> butlast q = D @ r then fs_lookup f (S @ r @ [last q]) else fs_lookup f q)"
proof -
  have wf: "fs_wf f" and un: "undisturbed f" and dirs: "fs_lookup f (S @ r) = Some Dir" "fs_lookup f (D @ r) = Some Dir"
    and new: "\<And>u. u \<noteq> [] \<Longrightarrow> fs_lookup f (D @ r @ u) = None"
    and nl: "\<And>u t. fs_lookup f (S @ u) \<noteq> Some (Symlink t)"
    using ok by (auto simp: copying_def)
  have ne: "S @ r \<noteq> D @ r" by (rule copying_apart [OF ok])
  have entries: "fs_lookup f ((S @ r) @ [c]) = Some n \<and> (\<forall>t. n \<noteq> Symlink t) \<and> fs_lookup f ((D @ r) @ [c]) = None"
    if "(c, n) \<in> set (children f (S @ r))" for c n
    using that children_iff [OF wf] nl [of "r @ [c]"] new [of "[c]"] by auto
  have rd: "read_dir f (abs_path (S @ r)) = Inr (children f (S @ r))"
    using resolve_abs_path [OF wf dirs(1)] un dirs(1) by (simp add: read_dir_def)
  obtain f1 where f1: "copy_listing (abs_path (S @ r)) (abs_path (D @ r)) (children f (S @ r)) (stack_of S D rs) f =
      (Inr (pushes (S @ r) (D @ r) (children f (S @ r)) @ stack_of S D rs), f1)"
    "fs_wf f1" "undisturbed f1" "fs_cwd f1 = fs_cwd f"
    and l: "\<And>q. fs_lookup f1 q = (if q \<noteq> [] \<and> butlast q = D @ r \<and> last q \<in> fst ` set (children f (S @ r))
        then fs_lookup f ((S @ r) @ [last q]) else fs_lookup f q)"
    using copy_listing_exact [OF ne wf un dirs children_distinct [OF wf] entries] by metis
  show thesis
  proof (rule that [OF _ f1(2-4)])
    show "copy_step (abs_path (S @ r)) (abs_path (D @ r)) (stack_of S D rs) f =
      (Inr (stack_of S D (sub_dirs f S r @ rs)), f1)"
      using rd f1(1) by (simp add: copy_step_def pushes_stack) (simp add: stack_of_def)
    fix q
    show "fs_lookup f1 q = (if q \<noteq> [] \<and> butlast q = D @ r then fs_lookup f (S @ r @ [last q]) else fs_lookup f q)"
    proof (cases "q \<noteq> [] \<and> butlast q = D @ r \<and> last q \<notin> fst ` set (children f (S @ r))")
      case True
      then have "fs_lookup f q = None" using new [of "[last q]"] by (metis append.assoc append_butlast_last_id list.discI)
      moreover have "fs_lookup f (S @ r @ [last q]) = None"
        using True children_iff [OF wf, of "last q" _ "S @ r"]
        by (cases "fs_lookup f (S @ r @ [last q])") (force simp: image_iff)+
      ultimately show ?thesis using l [of q] True by simp
    next
      case False
      then show ?thesis using l [of q] by auto
    qed
  qed
qed

subsection \<open>The loop\<close>

lemma copying_others: "copying S D f (r # rs) \<Longrightarrow> r' \<in> set rs \<Longrightarrow> \<not> prefix r r' \<and> \<not> prefix r' r"
  by (auto simp: copying_def)

lemma copying_step:
  assumes ok: "copying S D f (r # rs)" and f1: "fs_wf f1" "undisturbed f1"
    and l: "\<And>q. fs_lookup f1 q = (if q \<noteq> [] \<and> butlast q = D @ r then fs_lookup f (S @ r @ [last q]) else fs_lookup f q)"
  shows "fs_lookup f1 (S @ u) = fs_lookup f (S @ u)" and "copying S D f1 (sub_dirs f S r @ rs)"
proof -
  have wf: "fs_wf f" and nd: "\<not> prefix S D" "\<not> prefix D S" and nl: "\<And>u t. fs_lookup f (S @ u) \<noteq> Some (Symlink t)"
    and rs: "\<And>r' u. r' \<in> set rs \<Longrightarrow> fs_lookup f (S @ r') = Some Dir \<and> fs_lookup f (D @ r') = Some Dir \<and>
        (u \<noteq> [] \<longrightarrow> fs_lookup f (D @ r' @ u) = None)"
    and new: "\<And>u. u \<noteq> [] \<Longrightarrow> fs_lookup f (D @ r @ u) = None"
    and dist: "distinct rs" and anti: "\<And>a b. a \<in> set rs \<Longrightarrow> b \<in> set rs \<Longrightarrow> prefix a b \<Longrightarrow> a = b"
    using ok by (auto simp: copying_def)
  have src: "fs_lookup f1 (S @ u) = fs_lookup f (S @ u)" for u
  proof -
    have "S @ u \<noteq> D @ r @ [last (S @ u)]" by (rule copying_apart [OF ok])
    then have "\<not> (S @ u \<noteq> [] \<and> butlast (S @ u) = D @ r)" by (metis append.assoc append_butlast_last_id)
    with l [of "S @ u"] show ?thesis by presburger
  qed
  then show "fs_lookup f1 (S @ u) = fs_lookup f (S @ u)" .
  have there: "fs_lookup f1 (D @ v) = fs_lookup f (D @ v)" if "\<nexists>c. v = r @ [c]" "v \<noteq> [] \<or> D \<noteq> []" for v
  proof -
    have "butlast (D @ v) \<noteq> D @ r"
    proof (cases v rule: rev_cases)
      case Nil
      with that(2) have "length (butlast (D @ v)) < length (D @ r)" by (cases D) simp_all
      then show ?thesis by (metis less_irrefl)
    next
      case (snoc v' c)
      with that(1) show ?thesis by (auto simp: butlast_append)
    qed
    with l show ?thesis by simp
  qed
  have D: "D \<noteq> []" using nd by auto
  have child: "fs_lookup f1 (D @ r @ [c]) = fs_lookup f (S @ r @ [c])" for c
    using l [of "D @ r @ [c]"] by (simp add: butlast_append)
  note others = copying_others [OF ok]
  show "copying S D f1 (sub_dirs f S r @ rs)"
    unfolding copying_def
  proof (intro conjI)
    show "fs_wf f1" "undisturbed f1" "\<not> prefix S D" "\<not> prefix D S" using f1 nd by simp_all
    show "\<forall>u t. fs_lookup f1 (S @ u) \<noteq> Some (Symlink t)" using src nl by simp
    show "distinct (sub_dirs f S r @ rs)"
      using distinct_sub_dirs [OF wf] dist by (auto simp: sub_dirs_iff [OF wf] dest!: others)
    show "\<forall>a\<in>set (sub_dirs f S r @ rs). \<forall>b\<in>set (sub_dirs f S r @ rs). prefix a b \<longrightarrow> a = b"
    proof (intro ballI impI)
      fix a b assume a: "a \<in> set (sub_dirs f S r @ rs)" and b: "b \<in> set (sub_dirs f S r @ rs)" and p: "prefix a b"
      consider "a \<in> set rs" "b \<in> set rs" | c where "a = r @ [c]" "b \<in> set rs" | c where "a \<in> set rs" "b = r @ [c]"
        | c c' where "a = r @ [c]" "b = r @ [c']"
        using a b by (auto simp: sub_dirs_iff [OF wf])
      then show "a = b"
      proof cases
        case 1 with anti p show ?thesis by blast
      next
        case 2
        with p others [of b] append_prefixD show ?thesis by blast
      next
        case 3
        with p others [of a] show ?thesis by (auto simp: prefix_snoc)
      next
        case 4
        with p show ?thesis by simp
      qed
    qed
    show "\<forall>a\<in>set (sub_dirs f S r @ rs). fs_lookup f1 (S @ a) = Some Dir \<and> fs_lookup f1 (D @ a) = Some Dir \<and>
        (\<forall>u. u \<noteq> [] \<longrightarrow> fs_lookup f1 (D @ a @ u) = None)"
    proof
      fix a assume "a \<in> set (sub_dirs f S r @ rs)"
      then consider c where "a = r @ [c]" "fs_lookup f (S @ r @ [c]) = Some Dir" | "a \<in> set rs"
        by (auto simp: sub_dirs_iff [OF wf])
      then show "fs_lookup f1 (S @ a) = Some Dir \<and> fs_lookup f1 (D @ a) = Some Dir \<and>
          (\<forall>u. u \<noteq> [] \<longrightarrow> fs_lookup f1 (D @ a @ u) = None)"
      proof cases
        case 1
        with src [of a] child there D new show ?thesis by auto
      next
        case 2
        note o = others [OF 2]
        have "\<nexists>c. a @ u = r @ [c]" if "u \<noteq> []" for u
          using o that by (auto simp: append_eq_append_conv2 append_eq_Cons_conv)
        moreover have "\<nexists>c. a = r @ [c]" using o by auto
        ultimately show ?thesis using src [of a] there [of a] there [of "a @ _"] D rs [OF 2] by auto
      qed
    qed
  qed
qed

lemma copied_lookup:
  assumes ok: "copying S D f (r # rs)"
    and l: "\<And>q. fs_lookup f1 q = (if q \<noteq> [] \<and> butlast q = D @ r then fs_lookup f (S @ r @ [last q]) else fs_lookup f q)"
    and src: "\<And>u. fs_lookup f1 (S @ u) = fs_lookup f (S @ u)"
    and l': "\<And>q. fs_lookup f' q = fs_lookup f1 (if below_any D (sub_dirs f S r @ rs) q then source_of S D q else q)"
  shows "fs_lookup f' q = fs_lookup f (if below_any D (r # rs) q then source_of S D q else q)"
proof -
  have wf: "fs_wf f" and new: "\<And>u. u \<noteq> [] \<Longrightarrow> fs_lookup f (D @ r @ u) = None"
    using ok by (auto simp: copying_def)
  show ?thesis
  proof (cases "below_any D rs q")
    case True
    then have "below_any D (sub_dirs f S r @ rs) q" "below_any D (r # rs) q" by (auto simp: below_any_def)
    with l' src show ?thesis by (simp add: source_of_def)
  next
    case not_rest: False
    show ?thesis
    proof (cases "strict_prefix (D @ r) q")
      case True
      then obtain c u where q: "q = D @ r @ c # u" by (auto elim!: strict_prefixE')
      have b: "below_any D (r # rs) q" using True by (simp add: below_any_def)
      show ?thesis
      proof (cases "fs_lookup f (S @ r @ [c]) = Some Dir \<and> u \<noteq> []")
        case True
        then have "r @ [c] \<in> set (sub_dirs f S r)" "strict_prefix (D @ r @ [c]) q"
          using sub_dirs_iff [OF wf, of "r @ [c]" S r] q by (auto simp: strict_prefix_def)
        then have "below_any D (sub_dirs f S r @ rs) q" by (auto simp: below_any_def)
        with l' src b show ?thesis by (simp add: source_of_def)
      next
        case False
        have nb: "\<not> below_any D (sub_dirs f S r @ rs) q"
          using False not_rest q by (auto simp: below_any_def sub_dirs_iff [OF wf] strict_prefix_def)
        have "fs_lookup f1 q = fs_lookup f (S @ r @ c # u)"
        proof (cases "u = []")
          case True
          with l [of q] q show ?thesis by (simp add: butlast_append)
        next
          case u: False
          have "fs_lookup f1 q = None" using l [of q] q u new [of "c # u"] by (auto simp: butlast_append)
          moreover have "fs_lookup f ((S @ r @ [c]) @ u) = None"
            using fs_wf_prefix_dir [OF wf, of "S @ r @ [c]" u] False u
            by (cases "fs_lookup f ((S @ r @ [c]) @ u)") auto
          ultimately show ?thesis by simp
        qed
        with l' nb b q show ?thesis by (simp add: source_of_def)
      qed
    next
      case False
      then have "\<not> below_any D (r # rs) q" using not_rest by (simp add: below_any_def)
      moreover have "\<not> below_any D (sub_dirs f S r @ rs) q"
        using False not_rest by (auto simp: below_any_def sub_dirs_iff [OF wf] strict_prefix_def prefix_def)
      moreover have "\<not> (q \<noteq> [] \<and> butlast q = D @ r)"
        using False by (metis prefixeq_butlast append_butlast_last_id strict_prefix_def butlast_snoc not_Cons_self2 append_self_conv prefixI)
      ultimately show ?thesis using l' [of q] l [of q] by presburger
    qed
  qed
qed

lemma copy_loop_exact:
  "copying S D f rs \<Longrightarrow>
     \<exists>f'. copy_loop (stack_of S D rs) f = Some (Inr (), f') \<and> fs_wf f' \<and> undisturbed f' \<and> fs_cwd f' = fs_cwd f \<and>
       (\<forall>q. fs_lookup f' q = fs_lookup f (if below_any D rs q then source_of S D q else q))"
proof (induction "to_copy S f rs" arbitrary: f rs rule: less_induct)
  case less
  show ?case
  proof (cases rs)
    case Nil
    with less.prems show ?thesis
      by (auto simp: stack_of_def copy_loop.simps [of "[]"] below_any_def copying_def)
  next
    case (Cons r rest)
    note ok = less.prems [unfolded Cons]
    obtain f1 where step: "copy_step (abs_path (S @ r)) (abs_path (D @ r)) (stack_of S D rest) f =
        (Inr (stack_of S D (sub_dirs f S r @ rest)), f1)"
      and f1: "fs_wf f1" "undisturbed f1" "fs_cwd f1 = fs_cwd f"
      and l: "\<And>q. fs_lookup f1 q = (if q \<noteq> [] \<and> butlast q = D @ r then fs_lookup f (S @ r @ [last q]) else fs_lookup f q)"
      using copy_step_exact [OF ok] by metis
    note next_ok = copying_step [OF ok f1(1,2) l]
    have wf: "fs_wf f" using ok by (simp add: copying_def)
    have same: "rels f1 (S @ a) = rels f (S @ a)" for a using next_ok(1) [of "a @ _"] by (simp add: rels_def)
    have "to_copy S f1 (sub_dirs f S r @ rest) = to_copy S f (sub_dirs f S r) + to_copy S f rest"
      by (simp add: to_copy_def same)
    then have dec: "to_copy S f1 (sub_dirs f S r @ rest) < to_copy S f rs"
      using to_copy_sub_dirs [OF wf, of S r] Cons by (simp add: to_copy_def)
    obtain f' where f': "copy_loop (stack_of S D (sub_dirs f S r @ rest)) f1 = Some (Inr (), f')"
      "fs_wf f'" "undisturbed f'" "fs_cwd f' = fs_cwd f1"
      and l': "\<And>q. fs_lookup f' q = fs_lookup f1 (if below_any D (sub_dirs f S r @ rest) q then source_of S D q else q)"
      using less.hyps [OF dec next_ok(2)] by blast
    have loop: "copy_loop (stack_of S D rs) f = Some (Inr (), f')"
      using step f'(1) Cons by (subst copy_loop.simps) (simp add: stack_of_def)
    have lk: "fs_lookup f' q = fs_lookup f (if below_any D rs q then source_of S D q else q)" for q
      by (rule copied_lookup [OF ok l next_ok(1) l', folded Cons])
    with loop f' f1(3) show ?thesis by auto
  qed
qed

subsection \<open>A copy to a new place\<close>

definition copied :: "string list \<Rightarrow> string list \<Rightarrow> fs \<Rightarrow> fs \<Rightarrow> bool" where
  "copied S D f f' \<longleftrightarrow>
     fs_wf f' \<and> undisturbed f' \<and> fs_cwd f' = fs_cwd f \<and>
     (\<forall>q. fs_lookup f' q = fs_lookup f (if prefix D q then source_of S D q else q))"

lemma copy_dir_exact:
  assumes "fs_wf f" "undisturbed f" "fs_lookup f S = Some Dir" "\<And>u t. fs_lookup f (S @ u) \<noteq> Some (Symlink t)"
    and "fs_lookup f d = Some Dir" "valid_name w" "fs_lookup f (d @ [w]) = None" "\<not> prefix S (d @ [w])"
  obtains f' where "copy_dir f (abs_path S) (abs_path (d @ [w])) False = Some (Inr (), f')" "copied S (d @ [w]) f f'"
proof -
  let ?D = "d @ [w]"
  let ?f0 = "fs_set ?D Dir f"
  have nd: "\<not> prefix ?D S" using fs_wf_missing [OF assms(1,7)] assms(3) by fastforce
  have miss: "fs_lookup f (?D @ u) = None" for u using fs_wf_missing [OF assms(1,7)] by simp
  have l0: "fs_lookup ?f0 q = (if q = ?D then Some Dir else fs_lookup f q)" for q by (simp add: fs_lookup_set)
  have ne: "S @ u \<noteq> ?D" for u using assms(8) by (metis prefixI)
  have "copying S ?D ?f0 [[]]"
    unfolding copying_def
    using fs_wf_set [OF assms(1,5,6)] assms(2,3,4,7,8) nd l0 ne [of "[]"] ne miss
    by (auto simp: fs_lookup_set)
  from copy_loop_exact [OF this] obtain f' where f': "copy_loop (stack_of S ?D [[]]) ?f0 = Some (Inr (), f')"
    "fs_wf f'" "undisturbed f'" "fs_cwd f' = fs_cwd ?f0"
    and l: "\<And>q. fs_lookup f' q = fs_lookup ?f0 (if below_any ?D [[]] q then source_of S ?D q else q)" by blast
  have "fs_lookup f' q = fs_lookup f (if prefix ?D q then source_of S ?D q else q)" for q
    using l [of q] l0 ne assms(3) by (auto simp: below_any_def strict_prefix_def source_of_def)
  moreover have "copy_dir f (abs_path S) (abs_path ?D) False = Some (Inr (), f')"
    using create_dir_child [OF assms(1,2,5,6)] assms(7) f'(1) by (simp add: copy_dir_def stack_of_def)
  ultimately show thesis using that f' by (auto simp: copied_def)
qed

lemma copy_file_exact:
  assumes "fs_wf f" "undisturbed f" "fs_lookup f S = Some (File c)"
    and "fs_lookup f d = Some Dir" "valid_name w" "fs_lookup f (d @ [w]) = None"
  obtains f' where "copy_file f (abs_path S) (abs_path (d @ [w])) = (Inr (), f')" "copied S (d @ [w]) f f'"
proof -
  let ?D = "d @ [w]"
  have "fs_lookup f (S @ u) = None" if "u \<noteq> []" for u
    using fs_wf_prefix_dir [OF assms(1) _ that, of S] assms(3) by (cases "fs_lookup f (S @ u)") auto
  then have *: "fs_lookup (fs_set ?D (File c) f) (?D @ u) = fs_lookup f (S @ u)" for u
    using fs_wf_missing [OF assms(1,6), of "?D @ u"] assms(3) by (cases "u = []") (simp_all add: fs_lookup_set)
  have "fs_lookup (fs_set ?D (File c) f) q = fs_lookup f (if prefix ?D q then source_of S ?D q else q)" for q
  proof (cases "prefix ?D q")
    case True
    then obtain u where "q = ?D @ u" by (rule prefixE)
    with * [of u] show ?thesis by (simp add: source_of_def)
  next
    case False
    then show ?thesis by (auto simp: fs_lookup_set)
  qed
  then have "copied S ?D f (fs_set ?D (File c) f)"
    using fs_wf_set [OF assms(1,4,5)] assms(2,6) by (auto simp: copied_def)
  with copy_content_child [OF assms(1-6)] that show thesis by (simp add: copy_file_def or_status_def)
qed

subsection \<open>The rename or removal that ends a MOVE\<close>

definition moved :: "string list \<Rightarrow> string list \<Rightarrow> fs \<Rightarrow> fs \<Rightarrow> bool" where
  "moved S D f f' \<longleftrightarrow>
     (\<forall>q. fs_lookup f' q =
        (if prefix D q then fs_lookup f (source_of S D q) else if prefix S q then None else fs_lookup f q))"

lemma finish_move_exact:
  assumes c: "copied S D f f2" and wf: "fs_wf f" and n: "fs_lookup f S = Some n" "\<forall>t. n \<noteq> Symlink t"
    and S: "S = s @ [v]" and D: "D = d @ [w]" "fs_lookup f d = Some Dir" "valid_name w"
    and np: "\<not> prefix S D" "\<not> prefix D S"
  shows "moved S D f (finish_move f2 True (n = Dir) (abs_path S) (abs_path D))"
proof -
  have f2: "fs_wf f2" "undisturbed f2" and l: "\<And>q. fs_lookup f2 q = fs_lookup f (if prefix D q then source_of S D q else q)"
    using c by (auto simp: copied_def)
  have s2: "fs_lookup f2 S = Some n" "fs_lookup f2 D = Some n" "fs_lookup f2 (S @ u) = fs_lookup f (S @ u)" for u
    using l [of S] l [of D] l [of "S @ u"] n(1) np by (auto simp: source_of_def prefix_append)
  have ls: "locate f2 (abs_path S) = Inr (s, v)"
    using locate_child [OF f2(1), of s Dir v] fs_wf_lookup [OF f2(1) s2(1)] S by simp
  have ld: "locate f2 (abs_path D) = Inr (d, w)"
    using locate_child [OF f2(1), of d Dir w] fs_wf_lookup [OF f2(1) s2(2)] D by simp
  have apart: "\<not> prefix D (S @ u)" "\<not> prefix S (D @ u)" for u
    using np prefix_same_cases [of D "S @ u" S] prefix_same_cases [of S "D @ u" D] by auto
  have ne: "S \<noteq> []" "D \<noteq> []" using S D(1) by simp_all
  have ren: "moved S D f (fs_move S D (fs_remove D f2))"
    unfolding moved_def
  proof
    fix q
    have "fs_lookup (fs_move S D (fs_remove D f2)) q =
        (if prefix D q then fs_lookup (fs_remove D f2) (source_of S D q)
         else if prefix S q then None else fs_lookup (fs_remove D f2) q)"
      unfolding source_of_def
      by (rule fs_lookup_move [OF fs_wf_remove [OF f2(1) ne(2)] ne np(1)]) (simp add: fs_lookup_remove ne)
    then show "fs_lookup (fs_move S D (fs_remove D f2)) q =
        (if prefix D q then fs_lookup f (source_of S D q) else if prefix S q then None else fs_lookup f q)"
      using apart s2(3) by (simp add: fs_lookup_remove ne l source_of_def)
  qed
  have del: "moved S D f (fs_remove S f2)"
    unfolding moved_def
  proof
    fix q
    have "prefix D q \<Longrightarrow> \<not> prefix S q" using np prefix_same_cases by blast
    then show "fs_lookup (fs_remove S f2) q =
        (if prefix D q then fs_lookup f (source_of S D q) else if prefix S q then None else fs_lookup f q)"
      by (simp add: fs_lookup_remove ne l)
  qed
  show ?thesis
  proof (cases "n = Dir")
    case True
    have "rename f2 (abs_path S) (abs_path D) =
        (if \<exists>(q, n)\<in>set (fs_nodes f2). strict_prefix D q then (Inl DirectoryNotEmpty, f2)
         else (Inr (), fs_move S D (fs_remove D f2)))"
      using ls ld s2 True S D(1) np f2(2) by (auto simp: rename_def Let_def)
    moreover have "remove_dir_all f2 (abs_path S) = (Inr (), fs_remove S f2)"
      using removal_child(1) [OF f2, of s v Dir] s2(1) True S by simp
    ultimately show ?thesis using ren del True by (simp add: finish_move_def)
  next
    case False
    then obtain b where b: "n = File b" using n(2) by (cases n) auto
    then have "rename f2 (abs_path S) (abs_path D) = (Inr (), fs_move S D (fs_remove D f2))"
      using ls ld s2 S D(1) np f2(2) by (auto simp: rename_def Let_def)
    with ren b show ?thesis by (simp add: finish_move_def)
  qed
qed

subsection \<open>The handlers\<close>

definition tree_copy :: "string list \<Rightarrow> string list \<Rightarrow> dav_tree \<Rightarrow> dav_tree" where
  "tree_copy s d t q = (if prefix d q then t (source_of s d q) else t q)"

definition tree_move :: "string list \<Rightarrow> string list \<Rightarrow> dav_tree \<Rightarrow> dav_tree" where
  "tree_move s d t q = (if prefix d q then t (source_of s d q) else if prefix s q then None else t q)"

lemma served_copied: "copied (rn @ s) (rn @ d) (st_fs st) (st_fs st') \<Longrightarrow> served_tree rn st' = tree_copy s d (served_tree rn st)"
  by (auto simp: copied_def served_tree_def tree_copy_def source_of_def fun_eq_iff)

lemma served_moved: "moved (rn @ s) (rn @ d) (st_fs st) (st_fs st') \<Longrightarrow> served_tree rn st' = tree_move s d (served_tree rn st)"
  by (auto simp: moved_def served_tree_def tree_move_def source_of_def fun_eq_iff)

text \<open>A request whose source exists and whose new target does not, outside the source.\<close>

definition fresh_transfer ::
  "externals \<Rightarrow> string list \<Rightarrow> app_state \<Rightarrow> request \<Rightarrow> string list \<Rightarrow> string list \<Rightarrow> bool" where
  "fresh_transfer x rn st req s d \<longleftrightarrow>
     ready rn st \<and> fresh_cache st \<and> names_path x (req_path req) s \<and>
     (\<exists>dest. parse_destination (ext_pct x) (req_headers req) = Some dest \<and> names_path x dest d) \<and>
     served_tree rn st s \<noteq> None \<and> served_tree rn st (butlast d) = Some Dir \<and> served_tree rn st d = None \<and>
     \<not> prefix s d"

lemma join_components:
  assumes t: "tree_ok rn f" and root: "resolve f root = Inr rn" and n: "names_path x rp ds"
    and v: "\<forall>w\<in>set (rn @ s). valid_name w"
    and eq: "path_eq (abs_path (rn @ s)) (path_join root (join_with ''/'' ds))"
  shows "s = ds"
proof -
  let ?p = "path_join root (join_with ''/'' ds)"
  note j = join_leads_to [OF t root names_pathD(1,2) [OF n]]
  obtain ss where ss: "split_on sep ?p = ss @ ds" "walk f 40 (start_dir f root) ss = Inr rn" using j(3) by blast
  have c: "components ?p = RootDir # map Normal (rn @ s)"
    using eq components_abs_path [OF valid_safe_list [OF v]] by (simp add: path_eq_def)
  have ab: "starts_with ?p ''/''" and mf: "List.map_filter seg_component (ss @ ds) = map Normal (rn @ s)"
    using c ss(1) no_root_dir [of "ss @ ds"]
    by (auto simp: components_def Let_def Cons_eq_append_conv split: if_splits)
  have "steps (ss @ ds) = rn @ s"
    using component_strs [of "ss @ ds"] unfolding mf by (simp add: map_component_str_Normal del: map_map)
  moreover have "steps ds = ds" using names_pathD(3) [OF n] by (simp add: steps_def safe_name_def filter_id_conv)
  ultimately have st: "steps ss @ ds = rn @ s" by simp
  have "walk f 40 [] (steps ss) = Inr rn"
    by (rule walk_steps [OF _ tree_okD(2) [OF t]]) (use ss(2) ab j(2) in \<open>simp_all add: start_dir_def steps_def\<close>)
  moreover have "prefix (steps ss) (rn @ s)" using st by (metis prefixI)
  ultimately have "rn = [] @ steps ss"
    using walk_plain [of f 40 "[]" "steps ss" rn] no_link_on_path [OF t] valid_safe_list [OF v] set_mono_prefix
    by (metis append_Nil in_mono prefix_order.order_trans)
  with st show ?thesis by simp
qed

lemma fresh_transferE:
  assumes "fresh_transfer x rn st req s d" "do_move_or_copy is_move x now req st = (r, st')"
  obtains st1 n dd w where "st_fs st1 = st_fs st" "fs_lookup (st_fs st) (rn @ s) = Some n" "d = dd @ [w]" "valid_name w"
    "fs_lookup (st_fs st) (rn @ dd) = Some Dir" "fs_lookup (st_fs st) (rn @ d) = None"
    "(r, st') = transfer x is_move (parse_overwrite (req_headers req)) (parse_depth (req_headers req))
       (abs_path (rn @ s)) (abs_path (rn @ d)) st1"
proof -
  obtain dest where rdy: "ready rn st" and fr: "fresh_cache st" and ns: "names_path x (req_path req) s"
    and dest: "parse_destination (ext_pct x) (req_headers req) = Some dest" "names_path x dest d"
    and t: "served_tree rn st s \<noteq> None" "served_tree rn st (butlast d) = Some Dir" "served_tree rn st d = None"
    and np: "\<not> prefix s d"
    using assms(1) unfolding fresh_transfer_def by blast
  note rd = readyD [OF rdy]
  obtain n where n: "fs_lookup (st_fs st) (rn @ s) = Some n" using t(1) by (auto simp: served_tree_def)
  obtain dd w where d: "d = dd @ [w]" "\<forall>v\<in>set (dd @ [w]). valid_name v" by (rule names_snoc [OF dest(2)])
  obtain g st1 where g: "state_resolve_and_guard x st dest = (g, st1)" by fastforce
  have "g = Inr (abs_path (rn @ d))"
    using guard_named(2) [OF rdy dest(2) fr g] t(2) by (simp add: served_tree_def)
  moreover have "\<not> path_eq (abs_path (rn @ s)) (path_join (st_root_dir st) (join_with ''/'' d))"
    using join_components [OF rd(2,5) dest(2) fs_wf_lookup(1) [OF rd(3) n]] np by auto
  ultimately have "(r, st') = transfer x is_move (parse_overwrite (req_headers req)) (parse_depth (req_headers req))
       (abs_path (rn @ s)) (abs_path (rn @ d)) st1"
    using assms(2) resolve_existing_named [OF rdy ns] n write_target_named [OF rdy dest(2)] dest(1) g
    by (simp add: do_move_or_copy_def opt_or_status_def Let_def)
  with that n d t guard_frame_fields(1) [OF g] show thesis by (simp add: served_tree_def)
qed

lemma transfer_fresh:
  assumes "tree_ok rn f" "undisturbed f" "st_fs st1 = f" "fs_lookup f (rn @ s) = Some n" "d = dd @ [w]" "valid_name w"
    and "fs_lookup f (rn @ dd) = Some Dir" "fs_lookup f (rn @ d) = None" "\<not> prefix s d"
    and "is_move \<or> depth \<noteq> Zero \<or> n \<noteq> Dir"
    and tr: "(r, st') = transfer x is_move ow depth (abs_path (rn @ s)) (abs_path (rn @ d)) st1"
  obtains f2 where "copied (rn @ s) (rn @ d) f f2" "r = empty_reply CREATED"
    "st_fs st' = finish_move f2 is_move (n = Dir) (abs_path (rn @ s)) (abs_path (rn @ d))"
    "st_dead_props st' = migrate_dead_props is_move (abs_path (rn @ s)) (abs_path (rn @ d)) (st_dead_props st1)"
proof -
  note wf = tree_okD(1) [OF assms(1)]
  have nl: "fs_lookup f (rn @ u) \<noteq> Some (Symlink t)" for u t by (rule tree_okD(3) [OF assms(1)])
  have nlS: "fs_lookup f ((rn @ s) @ u) \<noteq> Some (Symlink t)" for u t using nl [of "s @ u"] by simp
  have n: "\<forall>t. n \<noteq> Symlink t" using nl [of s] assms(4) by auto
  have D: "rn @ d = (rn @ dd) @ [w]" using assms(5) by simp
  have miss: "fs_lookup f ((rn @ dd) @ [w]) = None" using assms(8) D by simp
  have "\<forall>v\<in>set (rn @ d). safe_name v"
    using fs_wf_lookup(1) [OF wf assms(7)] assms(5,6) valid_safe by auto
  note ne = metadata_missing(1) [OF assms(1) this assms(8)]
  note st = metadata_abs(2) [OF wf assms(2,4) n, of x]
  obtain f2 where f2: "copied (rn @ s) (rn @ d) f f2"
    "copy_resource f is_move depth (n = Dir) (abs_path (rn @ s)) (abs_path (rn @ d)) False = Some (Inr (), f2)"
  proof (cases "n = Dir")
    case True
    have np: "\<not> prefix (rn @ s) ((rn @ dd) @ [w])" using assms(5,9) by simp
    obtain f2 where "copy_dir f (abs_path (rn @ s)) (abs_path ((rn @ dd) @ [w])) False = Some (Inr (), f2)"
      "copied (rn @ s) ((rn @ dd) @ [w]) f f2"
      by (rule copy_dir_exact [OF wf assms(2) assms(4) [unfolded True] nlS assms(7,6) miss np])
    then show thesis
      using True assms(10) by (intro that [of f2]) (simp_all add: copy_resource_def D del: append_assoc, blast)
  next
    case False
    then obtain b where b: "n = File b" using n by (cases n) auto
    obtain f2 where "copy_file f (abs_path (rn @ s)) (abs_path ((rn @ dd) @ [w])) = (Inr (), f2)"
      "copied (rn @ s) ((rn @ dd) @ [w]) f f2"
      by (rule copy_file_exact [OF wf assms(2) assms(4) [unfolded b] assms(7,6) miss])
    with False D that show thesis by (simp add: copy_resource_def)
  qed
  show thesis
  proof (rule that [OF f2(1)])
    show "r = empty_reply CREATED"
      "st_fs st' = finish_move f2 is_move (n = Dir) (abs_path (rn @ s)) (abs_path (rn @ d))"
      "st_dead_props st' = migrate_dead_props is_move (abs_path (rn @ s)) (abs_path (rn @ d)) (st_dead_props st1)"
      using tr ne st f2(2) assms(3)
      by (simp_all add: transfer_def Let_def or_status_def clear_target_def node_meta_def)
  qed
qed

text \<open>
  C6: a recursive COPY to a new place copies exactly. When the source exists, the target does not,
  its parent is a collection and it does not lie in the source, COPY (of a file with any depth, of
  a collection with depth infinity or one) returns and answers 201; the tree below the
  target is then the tree that was below the source, with every file's content, and every other
  node is as it was.
\<close>

theorem copy_tree_exact:
  assumes "fresh_transfer x rn st req s d" and "req_method req = ''COPY''"
    and "parse_depth (req_headers req) \<noteq> Zero \<or> served_tree rn st s \<noteq> Some Dir"
    and "dispatch_handler x now req st = (r, st')"
  shows "reply_status r = CREATED \<and> served_tree rn st' = tree_copy s d (served_tree rn st)"
proof -
  have h: "do_move_or_copy False x now req st = (r, st')"
    using assms(2,4) by (simp add: dispatch_handler_def from_http_method_def handle_copy_def)
  have rdy: "ready rn st" and np: "\<not> prefix s d" using assms(1) by (auto simp: fresh_transfer_def)
  note rd = readyD [OF rdy]
  obtain st1 n dd w where st1: "st_fs st1 = st_fs st" and n: "fs_lookup (st_fs st) (rn @ s) = Some n"
    and d: "d = dd @ [w]" "valid_name w" "fs_lookup (st_fs st) (rn @ dd) = Some Dir" "fs_lookup (st_fs st) (rn @ d) = None"
    and tr: "(r, st') = transfer x False (parse_overwrite (req_headers req)) (parse_depth (req_headers req))
       (abs_path (rn @ s)) (abs_path (rn @ d)) st1"
    by (rule fresh_transferE [OF assms(1) h])
  have dep: "False \<or> parse_depth (req_headers req) \<noteq> Zero \<or> n \<noteq> Dir"
    using assms(3) n by (simp add: served_tree_def)
  obtain f2 where "copied (rn @ s) (rn @ d) (st_fs st) f2" "r = empty_reply CREATED"
    "st_fs st' = finish_move f2 False (n = Dir) (abs_path (rn @ s)) (abs_path (rn @ d))"
    by (rule transfer_fresh [OF rd(2,4) st1 n d np dep tr])
  then show ?thesis using served_copied by (simp add: finish_move_def)
qed

text \<open>
  C7: a MOVE to a new place moves exactly. Under the same conditions, for every depth header, MOVE
  answers 201, the tree below the target is the tree that was below the source, nothing is left of
  the source, and every other node is as it was, whether the final rename succeeds (a file, an
  empty collection) or the copied source is removed.
\<close>

theorem move_tree_exact:
  assumes "fresh_transfer x rn st req s d" and "req_method req = ''MOVE''"
    and "dispatch_handler x now req st = (r, st')"
  shows "reply_status r = CREATED \<and> served_tree rn st' = tree_move s d (served_tree rn st)"
proof -
  have h: "do_move_or_copy True x now req st = (r, st')"
    using assms(2,3) by (simp add: dispatch_handler_def from_http_method_def handle_move_def)
  have rdy: "ready rn st" and np: "\<not> prefix s d" and ns: "names_path x (req_path req) s"
    using assms(1) by (auto simp: fresh_transfer_def)
  note rd = readyD [OF rdy]
  obtain st1 n dd w where st1: "st_fs st1 = st_fs st" and n: "fs_lookup (st_fs st) (rn @ s) = Some n"
    and d: "d = dd @ [w]" "valid_name w" "fs_lookup (st_fs st) (rn @ dd) = Some Dir" "fs_lookup (st_fs st) (rn @ d) = None"
    and tr: "(r, st') = transfer x True (parse_overwrite (req_headers req)) (parse_depth (req_headers req))
       (abs_path (rn @ s)) (abs_path (rn @ d)) st1"
    by (rule fresh_transferE [OF assms(1) h])
  obtain f2 where f2: "copied (rn @ s) (rn @ d) (st_fs st) f2" "r = empty_reply CREATED"
    "st_fs st' = finish_move f2 True (n = Dir) (abs_path (rn @ s)) (abs_path (rn @ d))"
    by (rule transfer_fresh [OF rd(2,4) st1 n d np _ tr]) simp_all
  obtain ss v where s: "rn @ s = (rn @ ss) @ [v]" using names_pathD(1) [OF ns] by (cases s rule: rev_cases) auto
  have "\<not> prefix (rn @ d) (rn @ s)" using fs_wf_missing [OF rd(3) d(4)] n by fastforce
  then have "moved (rn @ s) (rn @ d) (st_fs st) (st_fs st')"
    unfolding f2(3)
    by (intro finish_move_exact [OF f2(1) rd(3) n no_link [OF rdy n] s _ d(3,2)]) (use d(1) np in simp_all)
  then show ?thesis using served_moved f2(2) by simp
qed

lemma demo_transfer:
  assumes "m \<in> {''COPY'', ''MOVE''}"
  shows "fresh_transfer plain_externals [''srv''] plain_state (demo_req m ''/a'' [(''destination'', Str ''http://h/b'')]) [''a''] [''b'']"
proof -
  let ?hs = "[(''destination'', Str ''http://h/b'')]"
  have d: "parse_destination (ext_pct plain_externals) ?hs = Some ''/b''"
    by (simp add: plain_externals_def) code_simp
  have n: "names_path plain_externals ''/a'' [''a'']" "names_path plain_externals ''/b'' [''b'']"
    by (simp_all add: names_path_def plain_externals_def valid_name_def safe_name_def trim_start_matches_def)
  have t: "served_tree [''srv''] plain_state [''a''] = Some Dir" "served_tree [''srv''] plain_state [] = Some Dir"
    "served_tree [''srv''] plain_state [''b''] = None"
    by (simp_all add: served_tree_def plain_state_def app_state_new_def plain_fs_def fs_lookup_def)
  from plain_ready d n t show ?thesis by (auto simp: fresh_transfer_def demo_req_def)
qed

theorem copy_tree_exact_witness:
  "served_tree [''srv''] (snd (dispatch_handler plain_externals 0
      (demo_req ''COPY'' ''/a'' [(''destination'', Str ''http://h/b'')]) plain_state)) [''b'', ''f''] = Some (File ''data'')"
proof -
  let ?req = "demo_req ''COPY'' ''/a'' [(''destination'', Str ''http://h/b'')]"
  have m: "req_method ?req = ''COPY''" "parse_depth (req_headers ?req) \<noteq> Zero \<or> served_tree [''srv''] plain_state [''a''] \<noteq> Some Dir"
    by (simp_all add: demo_req_def parse_depth_def header_str_def)
  obtain r st' where h: "dispatch_handler plain_externals 0 ?req plain_state = (r, st')" by fastforce
  have "served_tree [''srv''] plain_state [''a'', ''f''] = Some (File ''data'')"
    by (simp add: served_tree_def plain_state_def app_state_new_def plain_fs_def fs_lookup_def)
  with copy_tree_exact [OF demo_transfer m h] h show ?thesis by (simp add: tree_copy_def source_of_def)
qed

theorem move_tree_exact_witness:
  "served_tree [''srv''] (snd (dispatch_handler plain_externals 0
      (demo_req ''MOVE'' ''/a'' [(''destination'', Str ''http://h/b'')]) plain_state)) [''b'', ''f''] = Some (File ''data'') \<and>
   served_tree [''srv''] (snd (dispatch_handler plain_externals 0
      (demo_req ''MOVE'' ''/a'' [(''destination'', Str ''http://h/b'')]) plain_state)) [''a''] = None"
proof -
  let ?req = "demo_req ''MOVE'' ''/a'' [(''destination'', Str ''http://h/b'')]"
  have m: "req_method ?req = ''MOVE''" by (simp add: demo_req_def)
  obtain r st' where h: "dispatch_handler plain_externals 0 ?req plain_state = (r, st')" by fastforce
  have "served_tree [''srv''] plain_state [''a'', ''f''] = Some (File ''data'')"
    by (simp add: served_tree_def plain_state_def app_state_new_def plain_fs_def fs_lookup_def)
  with move_tree_exact [OF demo_transfer m h] h show ?thesis by (simp add: tree_move_def source_of_def)
qed

end
