(* ===== verification/Gaps.thy ===== *)
theory Gaps
  imports Copy_Exact Auth_Safety
begin

section \<open>Where the server does not keep a promise\<close>

text \<open>
  Theorems on behaviours that a reader of the code or of its documentation would not expect: locks
  that a spelling of the path passes by, and copies that never succeed.
\<close>

subsection \<open>Locks and dot segments\<close>

lemma dotted_leads_to:
  assumes "tree_ok rn f" "resolve f root = Inr rn" "ns \<noteq> []" "\<forall>w\<in>set ns. valid_name w"
  shows "leads_to f (path_join root (''./'' @ join_with ''/'' ns)) rn ns"
proof -
  let ?t = "''./'' @ join_with ''/'' ns" and ?p = "path_join root (''./'' @ join_with ''/'' ns)"
  have "\<forall>w\<in>set ns. sep \<notin> set w" using assms(4) unfolding valid_name_def safe_name_def by blast
  then have split_t: "split_on sep ?t = ''.'' # ns"
    using split_on_append [of sep "''.''" "join_with ''/'' ns"] split_on_join [OF assms(3)] by simp
  have t: "\<not> starts_with ?t ''/''" by (simp add: starts_with_def)
  have r: "root \<noteq> []" "CHR 0x00 \<notin> set root" "walk f 40 (start_dir f root) (split_on sep root) = Inr rn"
    using assms(2) by (auto simp: resolve_def split: if_splits)
  have nul: "CHR 0x00 \<notin> set ?t" using set_join_with [of ns] assms(4) unfolding valid_name_def by auto
  have "\<exists>ss. split_on sep ?p = (ss @ [''.'']) @ ns \<and> steps ss = steps (split_on sep root)"
  proof (cases "last root = sep")
    case True
    with r(1) have b: "root = butlast root @ [sep]" by (metis append_butlast_last_id)
    have s: "split_on sep root = split_on sep (butlast root) @ [[]]"
      using split_on_append_sep [of sep "butlast root" "[]"] b by (metis split_on.simps(1))
    have "split_on sep ?p = split_on sep (butlast root) @ ''.'' # ns"
      using split_on_append_sep [of sep "butlast root" ?t] b split_t t True
      by (metis append.assoc append_Cons append_Nil path_join_def)
    with s show ?thesis by (intro exI [of _ "split_on sep (butlast root)"]) simp
  next
    case False
    then have "split_on sep ?p = split_on sep root @ ''.'' # ns"
      using split_on_append_sep [of sep root ?t] split_t t r(1) by (simp add: path_join_def)
    then show ?thesis by (intro exI [of _ "split_on sep root"]) simp
  qed
  then obtain ss where ss: "split_on sep ?p = (ss @ [''.'']) @ ns" "steps (ss @ [''.'']) = steps (split_on sep root)" by auto
  have "start_dir f ?p = start_dir f root"
    using t r(1) by (cases root) (auto simp: path_join_def starts_with_def start_dir_def)
  with walk_steps [OF r(3) tree_okD(2) [OF assms(1)] ss(2)] ss(1)
  have "\<exists>ss. split_on sep ?p = ss @ ns \<and> walk f 40 (start_dir f ?p) ss = Inr rn" by metis
  moreover have "?p \<noteq> []" "CHR 0x00 \<notin> set ?p" using r(1,2) nul t by (auto simp: path_join_def)
  ultimately show ?thesis unfolding leads_to_def by blast
qed

text \<open>
  C36: a dot segment passes every lock by. A DELETE without an \<open>If\<close> header whose path has a dot
  segment before the names of an existing target is answered 204 and removes the target and all
  below it, whatever locks the store holds on it: the enforcement resolves the path as a write
  target, which refuses dot segments, and lets a path it cannot resolve pass, while the handler
  resolves it as an existing path.
\<close>

theorem dot_segment_bypasses_locks:
  assumes "ready rn st" and "ns \<noteq> []" and "\<forall>w\<in>set ns. valid_name w" and "served_tree rn st ns \<noteq> None"
    and "req_method req = ''DELETE''" and "parse_if_header (req_headers req) = []"
    and "trim_end_matches sep (req_path req) = req_path req"
    and "trim_start_matches sep (ext_pct x (req_path req)) = ''./'' @ join_with ''/'' ns"
    and "lock_enforce dispatch_handler x now req st = (r, st')"
  shows "reply_status r = NO_CONTENT \<and>
     served_tree rn st' = (\<lambda>q. if prefix ns q then None else served_tree rn st q)"
proof -
  let ?t = "''./'' @ join_with ''/'' ns"
  obtain n where n: "fs_lookup (st_fs st) (rn @ ns) = Some n" using assms(4) by (auto simp: served_tree_def)
  have "''.'' \<in> set (split_on sep ?t)" using split_on_append [of sep "''.''" "join_with ''/'' ns"] by simp
  then have "resolve_write_target (ext_pct x) (st_root_dir st) (req_path req) = None"
    using assms(8) by (auto simp: resolve_write_target_def Let_def list_ex_iff)
  then have "state_resolve_and_guard x st (req_path req) = (Inl InvalidPath, st)"
    by (simp add: state_resolve_and_guard_def resolve_and_guard_def)
  then have e: "lock_enforce dispatch_handler x now req st = run_next dispatch_handler x now req st"
    using assms(5-7) by (simp add: lock_enforce_def from_http_method_def write_methods_def check_locked_def)
  have "state_resolve_existing x st (req_path req) = Some (abs_path (rn @ ns))"
    using resolve_existing_leads [OF assms(1) valid_safe_list [OF assms(3)], of x "req_path req"]
      dotted_leads_to [OF readyD(2,5) [OF assms(1)] assms(2,3)] assms(8) n by simp
  from delete_existing [OF assms(1) this assms(2) n, of now] e assms(5,9)
  have "reply_status r = NO_CONTENT" "st' = st\<lparr>st_fs := fs_remove (rn @ ns) (st_fs st)\<rparr>"
    by (auto simp: run_next_def dispatch_handler_def from_http_method_def reply_status_def empty_reply_def)
  then show ?thesis using assms(2) by (auto simp: served_tree_def fs_lookup_remove fun_eq_iff)
qed

theorem dot_segment_bypasses_locks_witness:
  "locked_at 10 (st_locks (plain_state\<lparr>st_locks := [(''/srv/a'', [demo_lock Exclusive ''t'' Infinity])]\<rparr>)) [''srv''] [''a''] \<and>
   reply_status (fst (lock_enforce dispatch_handler plain_externals 10 (demo_req ''DELETE'' ''/./a'' [])
      (plain_state\<lparr>st_locks := [(''/srv/a'', [demo_lock Exclusive ''t'' Infinity])]\<rparr>))) = NO_CONTENT"
proof -
  let ?st = "plain_state\<lparr>st_locks := [(''/srv/a'', [demo_lock Exclusive ''t'' Infinity])]\<rparr>"
  let ?req = "demo_req ''DELETE'' ''/./a'' []"
  have "locked_at 10 (st_locks ?st) [''srv''] [''a'']"
    unfolding locked_at_def
    by (rule disjI1) (simp add: entry_of_def abs_path_def is_expired_def elapsed_def demo_lock_def)
  moreover have "ready [''srv''] ?st"
  proof -
    have "store_ok [''srv''] [(''/srv/a'', [demo_lock Exclusive ''t'' Infinity])]"
      unfolding store_ok_below below_def
      by (auto intro!: exI [of _ "[''a'']"] simp: hm_inv_def abs_path_def safe_name_def split: if_splits)
    with plain_ready(1) show ?thesis by (auto simp: ready_def app_ok_def state_ok_def root_at_def)
  qed
  moreover have "parse_if_header (req_headers ?req) = []" by code_simp
  moreover obtain r st' where "lock_enforce dispatch_handler plain_externals 10 ?req ?st = (r, st')" by fastforce
  moreover have "served_tree [''srv''] ?st [''a''] \<noteq> None"
    by (simp add: served_tree_def plain_state_def app_state_new_def plain_fs_def fs_lookup_def)
  ultimately show ?thesis
    using dot_segment_bypasses_locks [of "[''srv'']" ?st "[''a'']" ?req plain_externals 10 r st']
    by (simp add: demo_req_def plain_externals_def valid_name_def safe_name_def trim_start_matches_def trim_end_matches_def)
qed

subsection \<open>Copies into the own subtree\<close>

lemma copy_entry_error: "copy_entry sd dd e f = (Inl code, f1) \<Longrightarrow> code = INTERNAL_SERVER_ERROR"
  by (cases e) (auto simp: copy_entry_def Let_def split: node.splits prod.splits sum.splits if_splits)

lemma copy_listing_error: "copy_listing sd dd listing stack f = (Inl code, f1) \<Longrightarrow> code = INTERNAL_SERVER_ERROR"
  by (induction sd dd listing stack f rule: copy_listing.induct)
    (auto split: prod.splits sum.splits dest: copy_entry_error)

lemma copy_loop_error: "copy_loop stack f = Some res \<Longrightarrow> fst res = Inl code \<Longrightarrow> code = INTERNAL_SERVER_ERROR"
  by (induction rule: copy_loop_induct)
    (auto simp: copy_step_def split: sum.splits dest: copy_listing_error)

lemma copy_dir_error: "copy_dir f s d ex = Some res \<Longrightarrow> fst res = Inl code \<Longrightarrow> code = INTERNAL_SERVER_ERROR"
  using copy_loop_error [of "[(s, d)]" _ res code]
  by (auto simp: copy_dir_def split: prod.splits sum.splits if_splits)

lemma transfer_own_subtree:
  assumes t: "tree_ok rn (st_fs st)" and dir: "fs_lookup (st_fs st) (rn @ s) = Some Dir"
    and safe: "\<forall>w\<in>set (rn @ s @ c # u). safe_name w" and dep: "is_move \<or> depth \<noteq> Zero"
  shows "reply_status (fst (transfer x is_move ow depth (abs_path (rn @ s)) (abs_path (rn @ s @ c # u)) st)) \<notin> {CREATED, NO_CONTENT}"
proof (cases "stat_path x (st_fs st) (abs_path (rn @ s))")
  case (Inl e)
  then show ?thesis by (simp add: transfer_def Let_def or_status_def)
next
  case (Inr m)
  let ?f = "st_fs st" and ?d = "abs_path (rn @ s @ c # u)"
  have m: "fm_is_dir m"
    using Inr dir resolve_abs_path [OF tree_okD(1) [OF t] dir]
    by (auto simp: stat_path_def metadata_def node_meta_def split: if_splits)
  have b: "below rn ?d" unfolding below_def using safe by (intro exI [of _ "s @ c # u"]) simp
  obtain ex f1 where cl: "clear_target x ?f m ?d ow (path_exists ?f ?d) = (ex, f1)" by fastforce
  have t1: "tree_ok rn f1" by (rule fs_step_tree [OF clear_target_step [OF t b cl]])
  have ex: "ex \<Longrightarrow> fs_lookup f1 (rn @ s @ c # u) \<noteq> None"
    using clear_target_exists [of x ?f m ?d ow "path_exists ?f ?d" f1] cl path_exists_below [OF t, of "s @ c # u"] safe by auto
  have "\<exists>e f2. res = (Inl e, f2) \<and> e = INTERNAL_SERVER_ERROR"
    if "copy_dir f1 (abs_path (rn @ s)) ?d ex = Some res" for res
    using copy_dir_own_subtree [OF t1 safe ex that] copy_dir_error [OF that] by (cases res) auto
  then show ?thesis
    using Inr m cl dep
    by (cases "copy_dir f1 (abs_path (rn @ s)) ?d ex") (auto simp: transfer_def Let_def or_status_def copy_resource_def)
qed

text \<open>
  C34: a collection is never copied or moved into itself. COPY (with a depth other than 0) or MOVE of
  a collection to a target below it never answers 201 or 204, whatever else lies in the tree: the
  loop lists what it has just created, so it either meets an error of the file system or goes on,
  and the target is not detected beforehand.
\<close>

theorem copy_into_own_subtree_never_succeeds:
  assumes "app_ok rn st" and "is_move \<or> parse_depth (req_headers req) \<noteq> Zero"
    and "state_resolve_existing x st (req_path req) = Some (abs_path (rn @ s))"
    and "fs_lookup (st_fs st) (rn @ s) = Some Dir"
    and "parse_destination (ext_pct x) (req_headers req) = Some dest"
    and "state_resolve_and_guard x st dest = (Inr (abs_path (rn @ s @ c # u)), st1)"
    and "\<forall>w\<in>set (rn @ s @ c # u). safe_name w"
  shows "reply_status (fst (do_move_or_copy is_move x now req st)) \<notin> {CREATED, NO_CONTENT}"
proof (cases "state_resolve_write_target x st dest")
  case None
  with assms(3,5) show ?thesis by (simp add: do_move_or_copy_def opt_or_status_def Let_def)
next
  case (Some p)
  have fs: "st_fs st1 = st_fs st" by (rule guard_frame_fields(1) [OF assms(6)])
  have "tree_ok rn (st_fs st1)" "fs_lookup (st_fs st1) (rn @ s) = Some Dir"
    using app_ok_tree [OF assms(1)] assms(4) fs by simp_all
  from transfer_own_subtree [OF this assms(7,2), of x "parse_overwrite (req_headers req)"]
  show ?thesis using Some assms(3,5,6) by (simp add: do_move_or_copy_def opt_or_status_def Let_def)
qed

theorem copy_into_own_subtree_never_succeeds_witness:
  "reply_status (fst (do_move_or_copy False plain_externals 0
      (demo_req ''COPY'' ''/a'' [(''destination'', Str ''http://h/a/b'')]) plain_state)) \<notin> {CREATED, NO_CONTENT}"
proof -
  let ?req = "demo_req ''COPY'' ''/a'' [(''destination'', Str ''http://h/a/b'')]"
  have n: "names_path plain_externals (req_path ?req) [''a'']" "names_path plain_externals ''/a/b'' [''a'', ''b'']"
    by (simp_all add: names_path_def demo_req_def plain_externals_def valid_name_def safe_name_def trim_start_matches_def)
  have a: "fs_lookup (st_fs plain_state) ([''srv''] @ [''a'']) = Some Dir"
    by (simp add: plain_state_def app_state_new_def plain_fs_def fs_lookup_def)
  have d: "False \<or> parse_depth (req_headers ?req) \<noteq> Zero" by (simp add: demo_req_def parse_depth_def header_str_def)
  have p: "parse_destination (ext_pct plain_externals) (req_headers ?req) = Some ''/a/b''"
    by (simp add: plain_externals_def) code_simp
  obtain g st1 where g: "state_resolve_and_guard plain_externals plain_state ''/a/b'' = (g, st1)" by fastforce
  have "g = Inr (abs_path ([''srv''] @ [''a'', ''b'']))"
    using guard_named(2) [OF plain_ready(1) n(2) plain_ready(2) g] a by simp
  with g have g: "state_resolve_and_guard plain_externals plain_state ''/a/b'' = (Inr (abs_path ([''srv''] @ [''a''] @ ''b'' # [])), st1)"
    by simp
  have e: "state_resolve_existing plain_externals plain_state (req_path ?req) = Some (abs_path ([''srv''] @ [''a'']))"
    using resolve_existing_named [OF plain_ready(1) n(1)] a by simp
  show ?thesis
    by (rule copy_into_own_subtree_never_succeeds [OF readyD(1) [OF plain_ready(1)] d e a p g]) (simp add: safe_name_def)
qed

end
