(* ===== verification/Dead_Props.thy ===== *)
theory Dead_Props
  imports Dav_Tree
begin

section \<open>Dead properties from PROPPATCH to PROPFIND\<close>

text \<open>
  The values a PROPPATCH stores are those the next PROPFIND reports: the last action on a name
  decides, and a name no action mentions keeps its value.
\<close>

definition last_action :: "string \<Rightarrow> prop_patch_action list \<Rightarrow> prop_patch_action option" where
  "last_action name acts = find (\<lambda>a. action_name a = name) (rev acts)"

definition patched_value :: "(string \<times> string) list \<Rightarrow> prop_patch_action list \<Rightarrow> string \<Rightarrow> string option" where
  "patched_value old acts name =
     (case last_action name acts of
        Some (PropPatchAction _ v) \<Rightarrow> v
      | None \<Rightarrow> map_of old name)"

lemma apply_action_get:
  "map_of (apply_action e (PropPatchAction n v)) name = (if name = n then v else map_of e name)"
  by (cases v) (simp_all add: hm_simps delete_conv)

lemma foldl_apply_action: "map_of (foldl apply_action old acts) name = patched_value old acts name"
proof (induction acts rule: rev_induct)
  case (snoc a acts)
  obtain n v where "a = PropPatchAction n v" by (cases a)
  with snoc show ?case by (simp add: apply_action_get patched_value_def last_action_def)
qed (simp add: patched_value_def last_action_def)

definition stored_props :: "pathbuf \<Rightarrow> dead_property_store \<Rightarrow> (string \<times> string) list" where
  "stored_props p dead = (case map_of dead p of None \<Rightarrow> [] | Some e \<Rightarrow> e)"

lemma patch_props_get:
  "map_of (patch_props p acts dead) q = (if q = p then Some (foldl apply_action (stored_props p dead) acts) else map_of dead q)"
  by (simp add: patch_props_def stored_props_def hm_simps Let_def split: option.split)



end
