(* ===== verification/Net_Addr.thy ===== *)
theory Net_Addr
  imports Prelude
begin

section \<open>Socket addresses (std::net)\<close>

text \<open>
  \<open>str::parse::<SocketAddr>\<close> as \<open>start_server\<close> uses it: the recursive descent parser of the standard
  library. A reader takes the input and returns its value with the rest, or fails; a failed
  reader takes nothing. The whole input has to be read.
\<close>

datatype socket_addr = V4 "nat list" nat | V6 "nat list" nat nat

type_synonym 'a reader = "string \<Rightarrow> ('a \<times> string) option"

definition read_char :: "char \<Rightarrow> unit reader" where
  "read_char c s = (case s of [] \<Rightarrow> None | d # r \<Rightarrow> if d = c then Some ((), r) else None)"

text \<open>
  \<open>read_number\<close>: as many digits as there are, at least one; more than \<open>limit\<close>, a value from
  \<open>bound\<close> on, or (where zeros may not lead) more than one digit after a zero make it fail.
\<close>

definition digits_of :: "nat \<Rightarrow> string \<Rightarrow> string" where
  "digits_of radix s = takeWhile (\<lambda>c. digit_val radix c \<noteq> None) s"

definition read_number :: "nat \<Rightarrow> nat option \<Rightarrow> bool \<Rightarrow> nat \<Rightarrow> nat reader" where
  "read_number radix limit zeros bound s =
     (let ds = digits_of radix s
      in if ds = [] \<or> (case limit of Some m \<Rightarrow> m < length ds | None \<Rightarrow> False) \<or>
            (\<not> zeros \<and> hd ds = CHR ''0'' \<and> 1 < length ds) then None
         else (case digits_val radix 0 ds of
                 None \<Rightarrow> None
               | Some n \<Rightarrow> if n < bound then Some (n, drop (length ds) s) else None))"

definition read_separator :: "char \<Rightarrow> nat \<Rightarrow> 'a reader \<Rightarrow> 'a reader" where
  "read_separator c i rd s =
     (if i = 0 then rd s else Option.bind (read_char c s) (\<lambda>(_, r). rd r))"

definition read_octet :: "nat reader" where
  "read_octet = read_number 10 (Some 3) False 256"

definition read_ipv4 :: "nat list reader" where
  "read_ipv4 s =
     Option.bind (read_octet s) (\<lambda>(a, s1).
     Option.bind (read_separator (CHR ''.'') 1 read_octet s1) (\<lambda>(b, s2).
     Option.bind (read_separator (CHR ''.'') 2 read_octet s2) (\<lambda>(c, s3).
     Option.bind (read_separator (CHR ''.'') 3 read_octet s3) (\<lambda>(d, s4). Some ([a, b, c, d], s4)))))"

text \<open>
  \<open>read_groups\<close> fills up to \<open>n\<close> of the groups of an IPv6 address, from the \<open>i\<close>-th on, and says
  whether it ended with an embedded IPv4 address, which takes two groups.
\<close>

fun read_groups :: "nat \<Rightarrow> nat \<Rightarrow> string \<Rightarrow> nat list \<times> bool \<times> string" where
  "read_groups 0 i s = ([], False, s)"
| "read_groups (Suc n) i s =
     (case (if 0 < n then read_separator (CHR '':'') i read_ipv4 s else None) of
        Some (q, r) \<Rightarrow> ([q ! 0 * 256 + q ! 1, q ! 2 * 256 + q ! 3], True, r)
      | None \<Rightarrow>
          (case read_separator (CHR '':'') i (read_number 16 (Some 4) True 65536) s of
             None \<Rightarrow> ([], False, s)
           | Some (g, r) \<Rightarrow> (case read_groups n (Suc i) r of (gs, v4, r') \<Rightarrow> (g # gs, v4, r'))))"

definition read_ipv6 :: "nat list reader" where
  "read_ipv6 s =
     (case read_groups 8 0 s of
        (hd_groups, v4, r) \<Rightarrow>
          if length hd_groups = 8 then Some (hd_groups, r)
          else if v4 then None
          else Option.bind (read_char (CHR '':'') r) (\<lambda>(_, r1).
               Option.bind (read_char (CHR '':'') r1) (\<lambda>(_, r2).
                 (case read_groups (7 - length hd_groups) 0 r2 of
                    (tl_groups, _, r3) \<Rightarrow>
                      Some (hd_groups @ replicate (8 - length hd_groups - length tl_groups) 0 @ tl_groups, r3)))))"

definition read_port :: "nat reader" where
  "read_port s = Option.bind (read_char (CHR '':'') s) (\<lambda>(_, r). read_number 10 None True 65536 r)"

definition read_scope :: "nat reader" where
  "read_scope s = Option.bind (read_char (CHR ''%'') s) (\<lambda>(_, r). read_number 10 None True 4294967296 r)"

definition read_socket_v4 :: "socket_addr reader" where
  "read_socket_v4 s =
     Option.bind (read_ipv4 s) (\<lambda>(q, r). Option.bind (read_port r) (\<lambda>(p, r'). Some (V4 q p, r')))"

definition read_socket_v6 :: "socket_addr reader" where
  "read_socket_v6 s =
     Option.bind (read_char (CHR ''['') s) (\<lambda>(_, r).
     Option.bind (read_ipv6 r) (\<lambda>(gs, r1).
       (case (case read_scope r1 of Some (n, r2) \<Rightarrow> (n, r2) | None \<Rightarrow> (0, r1)) of
          (scope, r2) \<Rightarrow>
            Option.bind (read_char (CHR '']'') r2) (\<lambda>(_, r3).
            Option.bind (read_port r3) (\<lambda>(p, r4). Some (V6 gs scope p, r4))))))"

definition parse_socket_addr :: "string \<Rightarrow> socket_addr option" where
  "parse_socket_addr s =
     (case (case read_socket_v4 s of Some x \<Rightarrow> Some x | None \<Rightarrow> read_socket_v6 s) of
        Some (a, []) \<Rightarrow> Some a
      | _ \<Rightarrow> None)"

subsection \<open>Host and port\<close>

definition show_ipv4 :: "nat list \<Rightarrow> string" where
  "show_ipv4 q = join_with ''.'' (map show_nat q)"

lemma digits_of_show_nat:
  assumes "\<not> is_digit c"
  shows "digits_of 10 (show_nat n) = show_nat n" and "digits_of 10 (show_nat n @ c # r) = show_nat n"
proof -
  have d: "digit_val 10 x \<noteq> None \<longleftrightarrow> is_digit x" for x
    by (auto simp: digit_val_def is_digit_def Let_def split: if_splits)
  have "digit_val 10 x \<noteq> None" if "x \<in> set (show_nat n)" for x using show_nat_digits [OF that] d by simp
  with assms d show "digits_of 10 (show_nat n) = show_nat n" "digits_of 10 (show_nat n @ c # r) = show_nat n"
    unfolding digits_of_def by (auto simp: takeWhile_eq_all_conv takeWhile_append2)
qed

lemma show_nat_no_leading_zero: "hd (show_nat n) = CHR ''0'' \<Longrightarrow> length (show_nat n) = 1"
proof (induction n rule: less_induct)
  case (less n)
  show ?case
  proof (cases "n < 10")
    case True
    then show ?thesis by (simp add: show_nat_def show_base.simps [of 10 n])
  next
    case False
    then have s: "show_nat n = show_nat (n div 10) @ [digit_char (n mod 10)]"
      by (simp add: show_nat_def show_base.simps [of 10 n])
    with less.prems have h: "hd (show_nat (n div 10)) = CHR ''0''" by simp
    with less.IH [of "n div 10"] False have l: "length (show_nat (n div 10)) = 1" by simp
    then obtain d where d: "show_nat (n div 10) = [d]" by (cases "show_nat (n div 10)") auto
    with h have "digits_val 10 0 (show_nat (n div 10)) = Some 0" by (simp add: digit_val_def byte_def)
    then have "n div 10 = 0" using digits_val_show_base [of 10 "n div 10"] by (simp add: show_nat_def)
    with False show ?thesis by simp
  qed
qed

lemma length_show_octet:
  assumes "n < 256"
  shows "length (show_nat n) \<le> 3"
proof -
  have "n div 10 div 10 < 10" using assms by simp
  then show ?thesis
    by (simp add: show_nat_def show_base.simps [of 10 n] show_base.simps [of 10 "n div 10"]
        show_base.simps [of 10 "n div 10 div 10"])
qed

lemma read_number_show_nat:
  assumes "n < bound" "case limit of Some m \<Rightarrow> length (show_nat n) \<le> m | None \<Rightarrow> True"
  shows "read_number 10 limit zeros bound (show_nat n) = Some (n, [])"
    and "\<not> is_digit c \<Longrightarrow> read_number 10 limit zeros bound (show_nat n @ c # r) = Some (n, c # r)"
proof -
  have nd: "\<not> is_digit (CHR '':'')" by (simp add: is_digit_def byte_def)
  have v: "digits_val 10 0 (show_nat n) = Some n" using digits_val_show_base [of 10 n] by (simp add: show_nat_def)
  show "read_number 10 limit zeros bound (show_nat n) = Some (n, [])"
    using assms digits_of_show_nat(1) [OF nd, of n] show_nat_no_leading_zero [of n] v
    by (auto simp: read_number_def Let_def split: option.splits)
  show "read_number 10 limit zeros bound (show_nat n @ c # r) = Some (n, c # r)" if "\<not> is_digit c"
    using assms digits_of_show_nat(2) [OF that, of n] show_nat_no_leading_zero [of n] v
    by (auto simp: read_number_def Let_def split: option.splits)
qed

lemma read_octet_show:
  "n < 256 \<Longrightarrow> \<not> is_digit c \<Longrightarrow> read_octet (show_nat n @ c # r) = Some (n, c # r)"
  unfolding read_octet_def using read_number_show_nat(2) length_show_octet by simp

lemma read_ipv4_show:
  assumes "\<forall>n\<in>set [a, b, c, d]. n < 256" "\<not> is_digit x"
  shows "read_ipv4 (show_ipv4 [a, b, c, d] @ x # r) = Some ([a, b, c, d], x # r)"
proof -
  have dot: "\<not> is_digit (CHR ''.'')" by (simp add: is_digit_def byte_def)
  show ?thesis
    using assms by (simp add: read_ipv4_def show_ipv4_def read_octet_show dot read_separator_def read_char_def)
qed

lemma parse_show_v4:
  assumes "\<forall>n\<in>set [a, b, c, d]. n < 256" "p < 65536"
  shows "parse_socket_addr (show_ipv4 [a, b, c, d] @ '':'' @ show_nat p) = Some (V4 [a, b, c, d] p)"
proof -
  have nd: "\<not> is_digit (CHR '':'')" by (simp add: is_digit_def byte_def)
  show ?thesis
    using read_ipv4_show [OF assms(1) nd, of "show_nat p"] read_number_show_nat(1) [of p 65536 None] assms(2)
    by (simp add: parse_socket_addr_def read_socket_v4_def read_port_def read_char_def)
qed

text \<open>What does not begin with a digit or a bracket is no socket address.\<close>

lemma parse_other_host:
  assumes "\<not> is_digit c" "c \<noteq> CHR ''[''"
  shows "parse_socket_addr (c # s) = None"
proof -
  have "digit_val 10 c = None" using assms(1) by (auto simp: digit_val_def is_digit_def Let_def split: if_splits)
  with assms(2) show ?thesis
    by (simp add: parse_socket_addr_def read_socket_v4_def read_socket_v6_def read_ipv4_def read_octet_def
        read_number_def digits_of_def read_char_def)
qed

end
