(* ===== verification/Tls.thy ===== *)
theory Tls
  imports Cli Scandir Net_Addr
begin

section \<open>TLS (src/server/tls.rs)\<close>

text \<open>
  Loading the certificate and the key, and the listener that accepts TLS connections. The code of
  rustls, rustls_pemfile and sha2 is a parameter: the items of a PEM file (of the node that was
  opened, since a directory opens but cannot be read), the private key in it, the digest of a
  certificate, and the configuration for a chain and a key. The log lines with the fingerprints
  are an output.
\<close>

datatype private_key = Pkcs8 string | Sec1 string | Pkcs1 string | Other_Key string

record 'c tls_externals =
  tx_certs :: "node \<Rightarrow> (string + string) list"
  tx_sha256 :: "string \<Rightarrow> string"
  tx_private_key :: "node \<Rightarrow> string + private_key option"
  tx_single_cert :: "string list \<Rightarrow> private_key \<Rightarrow> string + 'c"

datatype tls_error = Io io_error | Invalid_Data string

record 'c rustls_config =
  rc_config :: 'c
  rc_alpn :: "string list"

subsection \<open>Fingerprints\<close>

definition upper_hex2 :: "char \<Rightarrow> string" where
  "upper_hex2 b = pad0 2 (to_ascii_uppercase (show_hex (byte b)))"

fun hex_loop :: "nat \<Rightarrow> string \<Rightarrow> string \<Rightarrow> string" where
  "hex_loop j hex [] = hex"
| "hex_loop j hex (b # bs) = hex_loop (Suc j) ((if 0 < j then hex @ '':'' else hex) @ upper_hex2 b) bs"

definition fingerprint_hex :: "string \<Rightarrow> string" where
  "fingerprint_hex fingerprint = hex_loop 0 [] fingerprint"

subsection \<open>Loading\<close>

definition open_node :: "fs \<Rightarrow> pathbuf \<Rightarrow> io_error + node" where
  "open_node f p = map_sum id (\<lambda>q. the (fs_lookup f q)) (open_dir f p)"

fun load_certs ::
  "'c tls_externals \<Rightarrow> nat \<Rightarrow> string list \<Rightarrow> (nat \<times> string) list \<Rightarrow> (string + string) list \<Rightarrow>
     (tls_error + string list) \<times> (nat \<times> string) list" where
  "load_certs tx i certs log [] = (Inr certs, log)"
| "load_certs tx i certs log (Inl e # rs) = (Inl (Invalid_Data e), log)"
| "load_certs tx i certs log (Inr cert # rs) =
     load_certs tx (Suc i) (certs @ [cert]) (log @ [(i, fingerprint_hex (tx_sha256 tx cert))]) rs"

definition load_key :: "'c tls_externals \<Rightarrow> fs \<Rightarrow> pathbuf \<Rightarrow> tls_error + private_key" where
  "load_key tx f p =
     (case open_node f p of
        Inl e \<Rightarrow> Inl (Io e)
      | Inr key_file \<Rightarrow>
          (case tx_private_key tx key_file of
             Inr (Some k) \<Rightarrow>
               (case k of Other_Key _ \<Rightarrow> Inl (Invalid_Data ''unsupported private key format'') | _ \<Rightarrow> Inr k)
           | Inr None \<Rightarrow> Inl (Invalid_Data ''no private key found'')
           | Inl e \<Rightarrow> Inl (Invalid_Data e)))"

definition tls_load ::
  "'c tls_externals \<Rightarrow> fs \<Rightarrow> tls_config \<Rightarrow> (tls_error + 'c rustls_config) \<times> (nat \<times> string) list" where
  "tls_load tx f c =
     (case open_node f (tls_cert_path c) of
        Inl e \<Rightarrow> (Inl (Io e), [])
      | Inr cert_file \<Rightarrow>
          (case load_certs tx 0 [] [] (tx_certs tx cert_file) of
             (Inl e, log) \<Rightarrow> (Inl e, log)
           | (Inr certs, log) \<Rightarrow>
               if certs = [] then (Inl (Invalid_Data ''no certificates found''), log)
               else (case load_key tx f (tls_key_path c) of
                       Inl e \<Rightarrow> (Inl e, log)
                     | Inr key \<Rightarrow>
                         (case tx_single_cert tx certs key of
                            Inr config \<Rightarrow> (Inr \<lparr>rc_config = config, rc_alpn = [''h2'', ''http/1.1'']\<rparr>, log)
                          | Inl e \<Rightarrow> (Inl (Invalid_Data e), log)))))"

subsection \<open>The listener\<close>

text \<open>
  The loop of \<open>TlsListener::accept\<close>. What the TCP listener returns is numbered in the order of
  arrival; a handshake ends one way or the other, or the peer stops sending and it never ends.
  The loop counts the connections it took and the time it slept after accept errors; \<open>None\<close> says
  that it does not return.
\<close>

datatype 't handshake = Established 't | Failed | Stalled

partial_function (option) tls_accept ::
  "(nat \<Rightarrow> io_error + 's \<times> socket_addr) \<Rightarrow> ('s \<Rightarrow> 't handshake) \<Rightarrow> nat \<Rightarrow> duration \<Rightarrow>
     ('t \<times> socket_addr \<times> nat \<times> duration) option" where
  "tls_accept tcp acceptor n slept =
     (case tcp n of
        Inl e \<Rightarrow> tls_accept tcp acceptor (Suc n) (slept + from_secs 1)
      | Inr (stream, addr) \<Rightarrow>
          (case acceptor stream of
             Established tls_stream \<Rightarrow> Some (tls_stream, addr, Suc n, slept)
           | Failed \<Rightarrow> tls_accept tcp acceptor (Suc n) slept
           | Stalled \<Rightarrow> None))"

subsection \<open>What is loaded\<close>

lemma load_certs_all:
  "load_certs tx i certs log (map Inr ders) =
     (Inr (certs @ ders), log @ enumerate i (map (fingerprint_hex \<circ> tx_sha256 tx) ders))"
  by (induction ders arbitrary: i certs log) auto

lemma load_certs_bad:
  "\<exists>log'. load_certs tx i certs log (map Inr ders @ Inl e # rs) = (Inl (Invalid_Data e), log')"
  by (induction ders arbitrary: i certs log) auto

lemma load_certs_cases:
  obtains (all) ders where "rs = map Inr ders" "load_certs tx 0 [] [] rs = (Inr ders, enumerate 0 (map (fingerprint_hex \<circ> tx_sha256 tx) ders))"
  | (bad) e log where "\<nexists>ders. rs = map Inr ders" "load_certs tx 0 [] [] rs = (Inl (Invalid_Data e), log)"
proof (cases "\<exists>ders. rs = map Inr ders")
  case True
  then obtain ders where "rs = map Inr ders" by blast
  with load_certs_all [of tx 0 "[]" "[]" ders] show thesis by (intro all) simp_all
next
  case False
  have "\<exists>ders e rs'. rs = map Inr ders @ Inl e # rs'"
    using False
  proof (induction rs)
    case (Cons r rs)
    show ?case
    proof (cases r)
      case (Inl e)
      then show ?thesis by (metis append_Nil list.simps(8))
    next
      case (Inr d)
      with Cons.prems have "\<nexists>ders. rs = map Inr ders" by (metis list.simps(9))
      with Cons.IH obtain ders e rs' where "rs = map Inr ders @ Inl e # rs'" by blast
      with Inr show ?thesis by (metis append_Cons list.simps(9))
    qed
  qed simp
  then obtain ders e rs' where "rs = map Inr ders @ Inl e # rs'" by blast
  with load_certs_bad [of tx 0 "[]" "[]" ders e rs'] False show thesis by (metis bad)
qed

lemma hex_loop_join: "hex_loop (Suc j) hex bs = hex @ concat (map (\<lambda>b. '':'' @ upper_hex2 b) bs)"
  by (induction bs arbitrary: j hex) auto

lemma fingerprint_join: "fingerprint_hex bs = join_with '':'' (map upper_hex2 bs)"
proof (cases bs)
  case (Cons b r)
  have "concat (map (\<lambda>b. '':'' @ upper_hex2 b) r) = (if r = [] then [] else '':'' @ join_with '':'' (map upper_hex2 r))"
    by (induction r) (auto simp: neq_Nil_conv)
  then show ?thesis using Cons by (cases r) (auto simp: fingerprint_hex_def hex_loop_join)
qed (simp add: fingerprint_hex_def)

lemma upper_hex_digit:
  assumes "d < 16"
  shows "digit_val 16 (to_upper (digit_char d)) = Some d \<and> to_upper (digit_char d) \<notin> {CHR '':'', CHR ''+''}"
proof -
  have v: "digit_val 16 (to_upper (digit_char d)) = Some d"
    using assms by (auto simp: digit_val_def to_upper_def digit_char_def byte_of_nat Let_def)
  moreover have "digit_val 16 (CHR '':'') = None" "digit_val 16 (CHR ''+'') = None"
    by (simp_all add: digit_val_def byte_def)
  ultimately show ?thesis by auto
qed

lemma upper_hex2_digits:
  "upper_hex2 b = [to_upper (digit_char (byte b div 16)), to_upper (digit_char (byte b mod 16))]"
proof -
  have "byte b < 256" by (simp add: byte_def)
  then have "byte b div 16 < 16" by (simp add: less_mult_imp_div_less)
  then have "show_hex (byte b) = (if byte b < 16 then [digit_char (byte b)] else [digit_char (byte b div 16), digit_char (byte b mod 16)])"
    by (simp add: show_hex_def show_base.simps [of 16 "byte b"] show_base.simps [of 16 "byte b div 16"])
  moreover have "CHR ''0'' = to_upper (digit_char 0)" by (simp add: to_upper_def digit_char_def byte_of_nat eq_commute [of "CHR ''0''"] char_of_eq_iff)
  ultimately show ?thesis by (simp add: upper_hex2_def pad0_def to_ascii_uppercase_def)
qed

lemma upper_hex2_value: "from_str_radix 8 16 (upper_hex2 b) = Some (byte b) \<and> CHR '':'' \<notin> set (upper_hex2 b)"
proof -
  have b: "byte b < 256" by (simp add: byte_def)
  then have "byte b div 16 < 16" "byte b mod 16 < 16" by (simp_all add: less_mult_imp_div_less)
  with b upper_hex_digit [of "byte b div 16"] upper_hex_digit [of "byte b mod 16"] show ?thesis
    by (auto simp: upper_hex2_digits from_str_radix_def)
qed

text \<open>The fingerprint in a log line can be read back: pairs of hexadecimal digits between colons.\<close>

definition read_fingerprint :: "string \<Rightarrow> nat option list" where
  "read_fingerprint s = map (from_str_radix 8 16) (split_on (CHR '':'') s)"

lemma read_fingerprint_hex: "bs \<noteq> [] \<Longrightarrow> read_fingerprint (fingerprint_hex bs) = map (Some \<circ> byte) bs"
  using split_on_join [of "map upper_hex2 bs" "CHR '':''"] upper_hex2_value
  by (simp add: read_fingerprint_def fingerprint_join)

lemma load_key_Inr:
  "load_key tx f p = Inr key \<longleftrightarrow>
     (\<exists>key_file. open_node f p = Inr key_file \<and> tx_private_key tx key_file = Inr (Some key)) \<and> (\<forall>k. key \<noteq> Other_Key k)"
  by (auto simp: load_key_def split: sum.splits option.splits private_key.splits)

lemma tls_load_cases:
  "tls_load tx f c = (Inr config, log) \<longleftrightarrow>
     (\<exists>cert_file ders key. open_node f (tls_cert_path c) = Inr cert_file \<and> tx_certs tx cert_file = map Inr ders \<and>
        ders \<noteq> [] \<and> load_key tx f (tls_key_path c) = Inr key \<and> tx_single_cert tx ders key = Inr (rc_config config) \<and>
        rc_alpn config = [''h2'', ''http/1.1''] \<and> log = enumerate 0 (map (fingerprint_hex \<circ> tx_sha256 tx) ders))"
proof (cases "open_node f (tls_cert_path c)")
  case (Inr cert_file)
  have inj: "map Inr a = map Inr b \<longleftrightarrow> a = b" for a b :: "string list" by (simp add: inj_map_eq_map)
  show ?thesis
  proof (cases rule: load_certs_cases [of "tx_certs tx cert_file" tx])
    case (all ders)
    with Inr inj show ?thesis
      by (auto simp: tls_load_def split: sum.splits)
  next
    case bad
    with Inr show ?thesis by (auto simp: tls_load_def)
  qed
qed (auto simp: tls_load_def)

text \<open>
  C23: TLS is set up with exactly what the two files hold, or not at all. Loading succeeds just when
  the certificate file opens, every item of it is a certificate and there is at least one, the
  key file opens and holds a key in one of the three formats, and rustls accepts the whole
  chain, in the order of the file, with this key; HTTP/2 and HTTP/1.1 are then offered. The log
  numbers the certificates in this order, and the digest of each can be read off its line.
\<close>

theorem tls_load_exact:
  assumes "\<And>d. tx_sha256 tx d \<noteq> []"
  shows "tls_load tx f c = (Inr config, log) \<longleftrightarrow>
     (\<exists>cert_file ders key_file key. open_node f (tls_cert_path c) = Inr cert_file \<and>
        tx_certs tx cert_file = map Inr ders \<and> ders \<noteq> [] \<and>
        open_node f (tls_key_path c) = Inr key_file \<and> tx_private_key tx key_file = Inr (Some key) \<and>
        (\<forall>k. key \<noteq> Other_Key k) \<and> tx_single_cert tx ders key = Inr (rc_config config) \<and>
        rc_alpn config = [''h2'', ''http/1.1''] \<and>
        log = enumerate 0 (map (fingerprint_hex \<circ> tx_sha256 tx) ders) \<and>
        map (read_fingerprint \<circ> snd) log = map (map (Some \<circ> byte) \<circ> tx_sha256 tx) ders)"
proof -
  have "map (read_fingerprint \<circ> snd) (enumerate 0 (map (fingerprint_hex \<circ> tx_sha256 tx) ders)) =
      map (map (Some \<circ> byte) \<circ> tx_sha256 tx) ders" for ders
    using read_fingerprint_hex [OF assms] by (simp add: map_map [symmetric] del: map_map) (simp add: comp_def)
  then show ?thesis unfolding tls_load_cases load_key_Inr by fastforce
qed

definition demo_tls :: "nat tls_externals" where
  "demo_tls =
     \<lparr>tx_certs = (\<lambda>n. case n of File c \<Rightarrow> [Inr c] | _ \<Rightarrow> [Inl ''not a file'']),
      tx_sha256 = (\<lambda>d. d @ [CHR 0xAB]),
      tx_private_key = (\<lambda>n. case n of File k \<Rightarrow> Inr (Some (Pkcs8 k)) | _ \<Rightarrow> Inr None),
      tx_single_cert = (\<lambda>cs k. Inr (length cs))\<rparr>"

definition demo_tls_fs :: fs where
  "demo_tls_fs = \<lparr>fs_nodes = [([''c''], File ''C''), ([''k''], File ''K'')], fs_cwd = [], fs_deny = \<lambda>_ _. False\<rparr>"

definition demo_tls_config :: tls_config where
  "demo_tls_config = \<lparr>tls_cert_path = ''/c'', tls_key_path = ''/k''\<rparr>"

theorem tls_load_exact_witness:
  "tls_load demo_tls demo_tls_fs demo_tls_config =
     (Inr \<lparr>rc_config = 1, rc_alpn = [''h2'', ''http/1.1'']\<rparr>, [(0, ''43:AB'')])"
proof -
  have s: "tx_sha256 demo_tls d \<noteq> []" for d by (simp add: demo_tls_def)
  have o: "open_node demo_tls_fs ''/c'' = Inr (File ''C'')" "open_node demo_tls_fs ''/k'' = Inr (File ''K'')"
    by (simp_all add: open_node_def open_dir_def resolve_def start_dir_def starts_with_def fs_lookup_def demo_tls_fs_def)
  have h: "fingerprint_hex [CHR ''C'', CHR 0xAB] = ''43:AB''" by code_simp
  show ?thesis
    unfolding tls_load_exact [OF s]
    by (rule exI [of _ "File ''C''"], rule exI [of _ "[''C'']"], rule exI [of _ "File ''K''"], rule exI [of _ "Pkcs8 ''K''"])
      (use h read_fingerprint_hex [of "[CHR ''C'', CHR 0xAB]"] in \<open>simp add: demo_tls_config_def o demo_tls_def\<close>)
qed

subsection \<open>Which connection is accepted\<close>

definition passed_over :: "('s \<Rightarrow> 't handshake) \<Rightarrow> io_error + 's \<times> socket_addr \<Rightarrow> bool" where
  "passed_over acceptor r = (case r of Inl _ \<Rightarrow> True | Inr (s, _) \<Rightarrow> (case acceptor s of Failed \<Rightarrow> True | _ \<Rightarrow> False))"

definition accept_errors :: "(nat \<Rightarrow> io_error + 'x) \<Rightarrow> nat \<Rightarrow> nat \<Rightarrow> nat" where
  "accept_errors tcp n k = length (filter (\<lambda>i. isl (tcp i)) [n..<k])"

lemma tls_accept_step:
  "passed_over acceptor (tcp n) \<Longrightarrow>
     tls_accept tcp acceptor n slept = tls_accept tcp acceptor (Suc n) (slept + (if isl (tcp n) then from_secs 1 else 0))"
  by (subst tls_accept.simps) (auto simp: passed_over_def split: sum.splits handshake.splits)

lemma tls_accept_skip:
  assumes "\<And>i. n \<le> i \<Longrightarrow> i < n + k \<Longrightarrow> passed_over acceptor (tcp i)"
  shows "tls_accept tcp acceptor n slept = tls_accept tcp acceptor (n + k) (slept + accept_errors tcp n (n + k) * from_secs 1)"
  using assms
proof (induction k arbitrary: n slept)
  case (Suc k)
  have "tls_accept tcp acceptor n slept =
      tls_accept tcp acceptor (Suc n) (slept + (if isl (tcp n) then from_secs 1 else 0))"
    by (rule tls_accept_step) (use Suc.prems in simp)
  also have "\<dots> = tls_accept tcp acceptor (Suc n + k)
      (slept + (if isl (tcp n) then from_secs 1 else 0) + accept_errors tcp (Suc n) (Suc n + k) * from_secs 1)"
    by (rule Suc.IH) (use Suc.prems in simp)
  also have "slept + (if isl (tcp n) then from_secs 1 else 0) + accept_errors tcp (Suc n) (Suc n + k) * from_secs 1 =
      slept + accept_errors tcp n (n + Suc k) * from_secs 1"
    by (simp add: accept_errors_def upt_conv_Cons [of n "Suc (n + k)"] del: upt_Suc)
  finally show ?case by simp
qed (simp add: accept_errors_def)

lemma tls_accept_cases:
  assumes "tls_accept tcp acceptor n slept = Some res"
  shows "\<exists>k s. fst (snd (snd res)) = Suc (n + k) \<and> (\<forall>i. n \<le> i \<and> i < n + k \<longrightarrow> passed_over acceptor (tcp i)) \<and>
     tcp (n + k) = Inr (s, fst (snd res)) \<and> acceptor s = Established (fst res)" (is "\<exists>k s. ?P tcp acceptor n res k s")
proof (rule tls_accept.raw_induct [OF _ assms])
  fix accept tcp n slept res and acceptor :: "'b \<Rightarrow> 'a handshake"
  assume IH: "\<And>tcp acceptor n slept res. accept tcp acceptor n slept = Some res \<Longrightarrow> \<exists>k s. ?P tcp acceptor n res k s"
    and step: "(case tcp n of
        Inl e \<Rightarrow> accept tcp acceptor (Suc n) (slept + from_secs 1)
      | Inr (stream, addr) \<Rightarrow>
          (case acceptor stream of
             Established tls_stream \<Rightarrow> Some (tls_stream, addr, Suc n, slept)
           | Failed \<Rightarrow> accept tcp acceptor (Suc n) slept
           | Stalled \<Rightarrow> None)) = Some res"
  show "\<exists>k s. ?P tcp acceptor n res k s"
  proof (cases "passed_over acceptor (tcp n)")
    case True
    with step have "\<exists>slept. accept tcp acceptor (Suc n) slept = Some res"
      by (auto simp: passed_over_def split: sum.splits prod.splits handshake.splits)
    with IH obtain k s where ks: "?P tcp acceptor (Suc n) res k s" by blast
    have "passed_over acceptor (tcp i)" if "n \<le> i" "i < n + Suc k" for i
      using ks True that by (cases "i = n") auto
    with ks show ?thesis by (intro exI [of _ "Suc k"] exI [of _ s]) simp
  next
    case False
    with step obtain s where "?P tcp acceptor n res 0 s"
      by (auto simp: passed_over_def split: sum.splits prod.splits handshake.splits)
    then show ?thesis by blast
  qed
qed

text \<open>
  C24: the listener hands out the first connection whose handshake succeeds, and a client that starts
  a handshake and never ends it keeps everyone else out. The loop returns exactly when some
  connection completes its handshake and every one before it failed to be accepted or failed
  its handshake, having slept one second for each failed accept; when a connection among these
  stalls, it never returns, whatever connections come after.
\<close>

theorem tls_accept_first_completed:
  "(tls_accept tcp acceptor n slept = Some (t, a, m, tot) \<longleftrightarrow>
      (\<exists>k s. m = Suc (n + k) \<and> (\<forall>i\<in>{n..<n + k}. passed_over acceptor (tcp i)) \<and>
         tcp (n + k) = Inr (s, a) \<and> acceptor s = Established t \<and>
         tot = slept + accept_errors tcp n (n + k) * from_secs 1)) \<and>
   ((\<forall>i\<in>{n..<n + j}. passed_over acceptor (tcp i)) \<and> tcp (n + j) = Inr (s', a') \<and> acceptor s' = Stalled \<longrightarrow>
      tls_accept tcp acceptor n slept = None)"
proof -
  have now: "tls_accept tcp acceptor (n + k) d = Some (t, b, Suc (n + k), d)"
    if "tcp (n + k) = Inr (s, b)" "acceptor s = Established t" for k s b d t
    using that by (subst tls_accept.simps) simp
  have skip: "tls_accept tcp acceptor n slept =
      tls_accept tcp acceptor (n + k) (slept + accept_errors tcp n (n + k) * from_secs 1)"
    if "\<forall>i\<in>{n..<n + k}. passed_over acceptor (tcp i)" for k
    using tls_accept_skip [of n k acceptor tcp slept] that by auto
  have "\<exists>k s. m = Suc (n + k) \<and> (\<forall>i\<in>{n..<n + k}. passed_over acceptor (tcp i)) \<and>
         tcp (n + k) = Inr (s, a) \<and> acceptor s = Established t \<and>
         tot = slept + accept_errors tcp n (n + k) * from_secs 1"
    if r: "tls_accept tcp acceptor n slept = Some (t, a, m, tot)"
  proof -
    obtain k s where ks: "m = Suc (n + k)" "\<forall>i\<in>{n..<n + k}. passed_over acceptor (tcp i)"
        "tcp (n + k) = Inr (s, a)" "acceptor s = Established t"
      using tls_accept_cases [OF r] by auto
    with skip now r show ?thesis by fastforce
  qed
  moreover have "tls_accept tcp acceptor (n + j) d = None" if "tcp (n + j) = Inr (s', a')" "acceptor s' = Stalled" for d
    using that by (subst tls_accept.simps) simp
  ultimately show ?thesis using skip now by (intro conjI iffI impI) (blast, force, metis)
qed

theorem tls_accept_first_completed_witness:
  "tls_accept (\<lambda>i. if i = 0 then Inl OtherError else Inr (i, V4 [10, 0, 0, i] 443))
     (\<lambda>i. if i = 3 then Established i else if i < 3 then Failed else Stalled) 0 0 =
     Some (3, V4 [10, 0, 0, 3] 443, 4, from_secs 1) \<and>
   tls_accept (\<lambda>i. if i = 0 then Inl OtherError else Inr (i, V4 [10, 0, 0, i] 443))
     (\<lambda>i. if i = 2 then Stalled else if i < 2 then Failed else Established i) 0 0 = None"
proof -
  let ?tcp = "\<lambda>i. if i = 0 then Inl OtherError else Inr (i, V4 [10, 0, 0, i] 443)"
  let ?a = "\<lambda>i :: nat. if i = 3 then Established i else if i < 3 then Failed else Stalled"
  let ?b = "\<lambda>i :: nat. if i = 2 then Stalled else if i < 2 then Failed else Established i"
  have "tls_accept ?tcp ?a 0 0 = Some (3, V4 [10, 0, 0, 3] 443, 4, from_secs 1)"
    by (rule iffD2 [OF conjunct1 [OF tls_accept_first_completed]])
      (intro exI [of _ 3] exI [of _ "3 :: nat"], simp add: passed_over_def accept_errors_def upt_conv_Cons del: upt_Suc)
  moreover have "tls_accept ?tcp ?b 0 0 = None"
    using tls_accept_first_completed [of ?tcp ?b 0 0 _ _ _ _ 2 2 "V4 [10, 0, 0, 2] 443"]
    by (simp add: passed_over_def)
  ultimately show ?thesis by blast
qed

end
