(* ===== verification/Lifecycle.thy ===== *)
theory Lifecycle
  imports Tls Auth_Safety Dav_Tree
begin

section \<open>The life of the server (src/server/mod.rs, cleanup.rs, shutdown.rs, src/main.rs)\<close>

text \<open>
  \<open>start_server\<close> from the address to the end of \<open>serve\<close>. Starting is a function: it parses the
  address, makes the state, loads the TLS files and binds the socket. The life of a started server
  is a sequence of events: requests that arrive and are handled, signals, rounds and the end of the
  cleanup task, and the two steps of \<open>start_server\<close> after \<open>serve\<close>. Requests run as concurrent
  tasks: the middlewares decide on a request when it arrives, its handler runs later, and other
  events come between the two. \<open>life_step\<close> gives the state after an event, or none when it cannot
  happen. What the sockets, signals and timers do is in the choice of the events: \<open>Served\<close> is
  \<open>serve\<close> returning, which it does after a signal once no request is in flight.
\<close>

subsection \<open>The cleanup task\<close>

datatype cleanup_event = Elapsed system_time instant bool | Notified

fun cleanup_task ::
  "cleanup_event list \<Rightarrow> lock_store \<times> auth_cache \<Rightarrow> (lock_store \<times> auth_cache) \<times> bool" where
  \<comment> \<open>what \<open>select\<close> gave, in order; the value says whether the task has ended\<close>
  "cleanup_task [] stores = (stores, False)"
| "cleanup_task (Elapsed now inow poisoned # es) stores = cleanup_task es (cleanup_round now inow poisoned stores)"
| "cleanup_task (Notified # es) stores = (stores, True)"

subsection \<open>Signals\<close>

datatype os_signal = SIGINT | SIGTERM | SIGHUP | SIGCHLD

fun shutdown_signal :: "os_signal list \<Rightarrow> bool" where
  \<comment> \<open>whether the future is ready after these signals: either of its two branches is\<close>
  "shutdown_signal sigs \<longleftrightarrow> list_ex (\<lambda>s. s = SIGTERM) sigs \<or> list_ex (\<lambda>s. s = SIGINT) sigs"

declare shutdown_signal.simps [simp del]

subsection \<open>Starting\<close>

record 'c startup =
  su_tls :: "'c tls_externals"
  su_bind :: "socket_addr \<Rightarrow> io_error option"

datatype start_error = Invalid_Input | Tls_Error tls_error | Bind_Error io_error

datatype phase = Serving | Draining | Joining | Stopped

record 'c running =
  run_server :: server
  run_addr :: socket_addr
  run_tls :: "'c rustls_config option"
  run_phase :: phase
  run_signals :: "os_signal list"
  run_pending :: "request list"
  run_cleanup :: bool
  run_notified :: bool

definition bind_address :: "server_config \<Rightarrow> socket_addr option" where
  "bind_address config = parse_socket_addr (sc_host config @ '':'' @ show_nat (unat (sc_port config)))"

definition start_server :: "'c startup \<Rightarrow> fs \<Rightarrow> server_config \<Rightarrow> start_error + 'c running" where
  "start_server su f config =
     (case bind_address config of
        None \<Rightarrow> Inl Invalid_Input
      | Some addr \<Rightarrow>
          (let started = (\<lambda>tls. case su_bind su addr of
                 Some e \<Rightarrow> Inl (Bind_Error e)
               | None \<Rightarrow>
                   Inr \<lparr>run_server = start_state f config, run_addr = addr, run_tls = tls, run_phase = Serving,
                        run_signals = [], run_pending = [], run_cleanup = True, run_notified = False\<rparr>)
           in case sc_tls config of
                Some tls_config \<Rightarrow>
                  (case fst (tls_load (su_tls su) f tls_config) of
                     Inl e \<Rightarrow> Inl (Tls_Error e)
                   | Inr rc \<Rightarrow> started (Some rc))
              | None \<Rightarrow> started None))"

definition main :: "'c startup \<Rightarrow> auth_externals \<Rightarrow> fs \<Rightarrow> cli \<Rightarrow> start_error + 'c running" where
  "main su ax f c = (case server_config_of ax f c of (config, f1) \<Rightarrow> start_server su f1 config)"

subsection \<open>Admission\<close>

text \<open>
  The middlewares in front of \<open>dispatch\<close>, one after the other: the answer of the first that
  refuses, or none, with the state when the handler is called.
\<close>

definition and_then ::
  "(environment \<Rightarrow> request \<Rightarrow> server \<Rightarrow> reply option \<times> server) \<Rightarrow>
     (environment \<Rightarrow> request \<Rightarrow> server \<Rightarrow> reply option \<times> server) \<Rightarrow>
     environment \<Rightarrow> request \<Rightarrow> server \<Rightarrow> reply option \<times> server" where
  "and_then v w env req s =
     (case v env req s of (Some r, s1) \<Rightarrow> (Some r, s1) | (None, s1) \<Rightarrow> w env req s1)"

definition admit :: "environment \<Rightarrow> request \<Rightarrow> server \<Rightarrow> reply option \<times> server" where
  "admit = and_then health_verdict (and_then tailscale_verdict (and_then auth_verdict lock_verdict))"

lemma gate_weaken: "gate mw v (=) \<Longrightarrow> gate mw v same_but_cache"
  by (auto simp: gate_def)

lemma gate_and_then:
  assumes "gate mw1 v same_but_cache" "gate mw2 w same_but_cache"
  shows "gate (\<lambda>nx. mw1 (mw2 nx)) (and_then v w) same_but_cache"
proof unfold_locales
  fix env req s v2 s2 nx
  assume r: "and_then v w env req s = (v2, s2)"
  obtain v1 s1 where v1: "v env req s = (v1, s1)" by fastforce
  note d1 = gate.decides [OF assms(1) v1, of "mw2 nx"] and h1 = gate.harmless_verdict [OF assms(1) v1]
  show "same_but_cache (srv_app s) (srv_app s2)"
    using r v1 h1 gate.harmless_verdict [OF assms(2)] same_but_cache_trans
    by (cases v1) (fastforce simp: and_then_def)+
  show "resp_status (into_response (fst (mw1 (mw2 nx) env req s))) =
        (case v2 of Some r \<Rightarrow> resp_status (into_response r)
                  | None \<Rightarrow> resp_status (into_response (fst (nx env req s2)))) \<and>
      srv_app (snd (mw1 (mw2 nx) env req s)) =
        (case v2 of Some r \<Rightarrow> srv_app s2 | None \<Rightarrow> srv_app (snd (nx env req s2)))"
    using r v1 d1 gate.decides [OF assms(2), of env req s1 v2 s2 nx] by (cases v1) (auto simp: and_then_def)
qed

text \<open>The four middlewares are one gate, and the router is this gate in front of \<open>dispatch\<close>.\<close>

interpretation admission: gate "\<lambda>nx. health_check (tailscale_auth_middleware (auth_middleware (lock_layer nx)))"
  admit same_but_cache
  unfolding admit_def
  by (intro gate_and_then gate_weaken health_gate.gate_axioms tailscale_gate.gate_axioms auth_gate.gate_axioms
      lock_gate.gate_axioms)

lemma router_admits:
  assumes "admit env req s = (v, s1)"
  shows "resp_status (into_response (fst (make_router env req s))) =
        (case v of Some r \<Rightarrow> resp_status (into_response r)
                 | None \<Rightarrow> resp_status (into_response (fst (dispatch env req s1)))) \<and>
      srv_app (snd (make_router env req s)) =
        (case v of Some r \<Rightarrow> srv_app s1 | None \<Rightarrow> srv_app (snd (dispatch env req s1)))"
  using admission.decides [OF assms, of dispatch] by (simp add: make_router_def)

subsection \<open>Running\<close>

datatype life_event =
    Arrive environment request | Handle nat environment | Signal os_signal | Round environment
  | Served | Task_Ends | Joined

fun life_step :: "life_event \<Rightarrow> 'c running \<Rightarrow> 'c running option" where
  "life_step (Arrive env req) r =
     (if run_phase r \<in> {Serving, Draining}
      then (case admit env req (run_server r) of
              (Some reply, s1) \<Rightarrow> Some (r\<lparr>run_server := s1\<rparr>)
            | (None, s1) \<Rightarrow> Some (r\<lparr>run_server := s1, run_pending := run_pending r @ [req]\<rparr>))
      else None)"
| "life_step (Handle i env) r =
     (if i < length (run_pending r)
      then Some (r\<lparr>run_server := snd (dispatch env (run_pending r ! i) (run_server r)),
                   run_pending := take i (run_pending r) @ drop (Suc i) (run_pending r)\<rparr>)
      else None)"
| "life_step (Signal s) r =
     (let sigs = run_signals r @ [s]
      in Some (r\<lparr>run_signals := sigs,
                 run_phase := if run_phase r = Serving \<and> shutdown_signal sigs then Draining else run_phase r\<rparr>))"
| "life_step (Round env) r =
     (if run_cleanup r then Some (r\<lparr>run_server := cleanup_server env (run_server r)\<rparr>) else None)"
| "life_step Served r =
     (if run_phase r = Draining \<and> run_pending r = [] then Some (r\<lparr>run_phase := Joining, run_notified := True\<rparr>) else None)"
| "life_step Task_Ends r =
     (if run_cleanup r \<and> run_notified r then Some (r\<lparr>run_cleanup := False, run_notified := False\<rparr>) else None)"
| "life_step Joined r =
     (if run_phase r = Joining \<and> \<not> run_cleanup r then Some (r\<lparr>run_phase := Stopped\<rparr>) else None)"

fun life_run :: "life_event list \<Rightarrow> 'c running \<Rightarrow> 'c running option" where
  "life_run [] r = Some r"
| "life_run (e # es) r = Option.bind (life_step e r) (life_run es)"

lemma life_run_append: "life_run (es @ es') r = Option.bind (life_run es r) (life_run es')"
  by (induction es arbitrary: r) (auto split: bind_splits)

lemma cleanup_server_task:
  "cleanup_server env s =
     (case fst (cleanup_task [Elapsed (env_now env) (env_instant env) False] (st_locks (srv_app s), au_cache (srv_auth s))) of
        (locks, cache) \<Rightarrow>
          s\<lparr>srv_app := (srv_app s)\<lparr>st_locks := locks\<rparr>, srv_auth := (srv_auth s)\<lparr>au_cache := cache\<rparr>\<rparr>)"
  by (simp add: cleanup_server_def)

subsection \<open>The state throughout\<close>

lemma cleanup_server_step:
  assumes "app_ok rn (srv_app s)"
  shows "app_step rn (srv_app s) (srv_app (cleanup_server env s))"
  using app_step_locks [OF app_step_refl [OF assms] store_ok_prune [OF app_ok_store [OF assms]]]
  by (simp add: cleanup_server_def cleanup_round_def split: prod.splits)

lemma life_run_induct [consumes 1, case_names start step]:
  assumes "life_run es r0 = Some r" "P [] r0"
    and "\<And>es e r r'. life_run es r0 = Some r \<Longrightarrow> P es r \<Longrightarrow> life_step e r = Some r' \<Longrightarrow> P (es @ [e]) r'"
  shows "P es r"
  using assms(1)
proof (induction es arbitrary: r rule: rev_induct)
  case (snoc e es)
  then obtain r1 where r1: "life_run es r0 = Some r1" "life_step e r1 = Some r"
    by (auto simp: life_run_append split: bind_splits)
  show ?case by (rule assms(3) [OF r1(1) snoc.IH [OF r1(1)] r1(2)])
qed (use assms(2) in simp)

lemma life_run_app:
  assumes "life_run es r0 = Some r" "app_ok rn (srv_app (run_server r0))"
  shows "app_step rn (srv_app (run_server r0)) (srv_app (run_server r))"
  using assms(1)
proof (induction rule: life_run_induct)
  case start
  show ?case by (rule app_step_refl [OF assms(2)])
next
  case (step es e r r')
  note ok = app_step_ok [OF step.IH]
  have "app_step rn (srv_app (run_server r)) (srv_app (run_server r'))"
    using step.hyps(2) dispatch_step [OF app_step_refl [OF ok]] cleanup_server_step [OF ok] app_step_refl [OF ok]
      app_step_harmless [OF app_step_refl [OF ok] admission.harmless_verdict]
    by (cases e) (auto simp: Let_def split: if_splits prod.splits option.splits)
  then show ?case by (rule app_step_trans [OF step.IH])
qed

lemma start_server_Inr:
  assumes "start_server su f config = Inr r"
  shows "run_server r = start_state f config" "run_phase r = Serving" "run_cleanup r" "\<not> run_notified r"
    "run_signals r = []" "run_pending r = []" "bind_address config = Some (run_addr r)" "su_bind su (run_addr r) = None"
    "map_option (\<lambda>t. fst (tls_load (su_tls su) f t)) (sc_tls config) = map_option Inr (run_tls r)"
  using assms by (auto simp: start_server_def Let_def split: option.splits sum.splits)

subsection \<open>Where the server listens\<close>

lemma read_ipv4_dot:
  assumes "read_ipv4 s = Some x"
  shows "CHR ''.'' \<in> set s" "is_digit (hd s)"
proof -
  obtain a s1 where a: "read_octet s = Some (a, s1)" and b: "read_separator (CHR ''.'') 1 read_octet s1 \<noteq> None"
    using assms by (auto simp: read_ipv4_def split: bind_splits)
  then have s1: "s1 = drop (length (digits_of 10 s)) s" and d: "digits_of 10 s \<noteq> []"
    by (auto simp: read_octet_def read_number_def Let_def split: if_splits option.splits)
  have "CHR ''.'' \<in> set s1" using b by (cases s1) (auto simp: read_separator_def read_char_def split: if_splits)
  then show "CHR ''.'' \<in> set s" unfolding s1 by (rule in_set_dropD)
  have "digit_val 10 (hd s) \<noteq> None" using d by (cases s) (auto simp: digits_of_def split: if_splits)
  then show "is_digit (hd s)" by (auto simp: digit_val_def is_digit_def Let_def split: if_splits)
qed

lemma parse_bare_host:
  assumes "\<not> starts_with host ''[''" "CHR ''.'' \<notin> set host \<or> \<not> is_digit (hd host)"
  shows "parse_socket_addr (host @ '':'' @ show_nat p) = None"
proof -
  let ?s = "host @ '':'' @ show_nat p"
  have c: "\<not> is_digit (CHR '':'')" and p: "CHR ''.'' \<notin> set (show_nat p)"
    by (simp add: is_digit_def byte_def) (rule not_digit, simp add: byte_def)
  have "CHR ''.'' \<notin> set ?s \<or> \<not> is_digit (hd ?s)" using assms(2) p c by (cases host) auto
  then have "read_ipv4 ?s = None" using read_ipv4_dot [of ?s] by (cases "read_ipv4 ?s") auto
  moreover have "read_char (CHR ''['') ?s = None" using assms(1) by (cases host) (auto simp: read_char_def starts_with_def)
  ultimately show ?thesis by (simp add: parse_socket_addr_def read_socket_v4_def read_socket_v6_def)
qed

text \<open>
  The server listens where \<open>--host\<close> and \<open>--port\<close> say, and only IP addresses are understood. With an
  IPv4 address as host it binds this address and port. A host name is refused, and so is an IPv6
  address that is not put in brackets, whatever the port: such a host is glued to the port with a
  colon and the text is no socket address.
\<close>

theorem start_server_address:
  "(sc_host config = show_ipv4 [a, b, c, d] \<and> (\<forall>n\<in>set [a, b, c, d]. n < 256) \<longrightarrow>
      bind_address config = Some (V4 [a, b, c, d] (unat (sc_port config)))) \<and>
   (\<not> starts_with (sc_host config) ''['' \<and>
      (CHR ''.'' \<notin> set (sc_host config) \<or> \<not> is_digit (hd (sc_host config))) \<longrightarrow>
      start_server su f config = Inl Invalid_Input)"
proof -
  have "unat (sc_port config) < 65536" using unsigned_less [of "sc_port config"] by simp
  with parse_show_v4 [of a b c d "unat (sc_port config)"] parse_bare_host [of "sc_host config" "unat (sc_port config)"]
  show ?thesis by (auto simp: bind_address_def start_server_def)
qed

definition lone_cli :: cli where
  "lone_cli =
     \<lparr>cli_root_dir = ''/srv'', cli_host = ''127.0.0.1'', cli_port = None, cli_tls_cert = None, cli_tls_key = None,
      cli_users = [], cli_shadow_file = None, cli_shadow_write = False, cli_auth_cache_ttl = 60,
      cli_accept_tailscale = None, cli_tailscale_users_file = None, cli_lock_timeout = 300,
      cli_verbose = 0, cli_quiet = False\<rparr>"

definition demo_config :: "string \<Rightarrow> server_config" where
  "demo_config host = (fst (server_config_of demo_ax plain_fs lone_cli))\<lparr>sc_host := host\<rparr>"

definition demo_startup :: "nat startup" where
  "demo_startup = \<lparr>su_tls = demo_tls, su_bind = (\<lambda>_. None)\<rparr>"

theorem start_server_address_witness:
  "bind_address (demo_config ''127.0.0.1'') = Some (V4 [127, 0, 0, 1] 8080) \<and>
   start_server demo_startup plain_fs (demo_config ''::1'') = Inl Invalid_Input \<and>
   start_server demo_startup plain_fs (demo_config ''localhost'') = Inl Invalid_Input"
proof -
  have p: "sc_port (demo_config host) = 8080" for host
    by (simp add: demo_config_def server_config_of_def lone_cli_def effective_port_def split: prod.split)
  have h: "sc_host (demo_config host) = host" for host by (simp add: demo_config_def)
  have "show_ipv4 [127, 0, 0, 1] = ''127.0.0.1''" by code_simp
  with conjunct1 [OF start_server_address [of "demo_config ''127.0.0.1''" 127 0 0 1 demo_startup plain_fs]]
  have "bind_address (demo_config ''127.0.0.1'') = Some (V4 [127, 0, 0, 1] 8080)" by (simp add: p h)
  with conjunct2 [OF start_server_address [of "demo_config ''::1''" 0 0 0 0 demo_startup plain_fs]]
    conjunct2 [OF start_server_address [of "demo_config ''localhost''" 0 0 0 0 demo_startup plain_fs]]
  show ?thesis by (simp add: h starts_with_def)
qed

subsection \<open>Shutting down\<close>

definition life_ok :: "'c running \<Rightarrow> bool" where
  "life_ok r \<longleftrightarrow>
     (run_phase r = Serving \<longleftrightarrow> \<not> shutdown_signal (run_signals r)) \<and>
     (case run_phase r of
        Serving \<Rightarrow> run_cleanup r \<and> \<not> run_notified r
      | Draining \<Rightarrow> run_cleanup r \<and> \<not> run_notified r
      | Joining \<Rightarrow> run_pending r = [] \<and> run_notified r = run_cleanup r
      | Stopped \<Rightarrow> run_pending r = [] \<and> \<not> run_notified r \<and> \<not> run_cleanup r)"

lemma shutdown_signal_append: "shutdown_signal (sigs @ [s]) \<longleftrightarrow> shutdown_signal sigs \<or> s \<in> {SIGINT, SIGTERM}"
  by (auto simp: shutdown_signal.simps)

lemma life_step_ok: "life_ok r \<Longrightarrow> life_step e r = Some r' \<Longrightarrow> life_ok r'"
  by (cases e) (auto simp: life_ok_def Let_def shutdown_signal_append split: if_splits prod.splits option.splits phase.splits)

lemma start_server_ok: "start_server su f config = Inr r \<Longrightarrow> life_ok r"
  using start_server_Inr [of su f config r] by (simp add: life_ok_def shutdown_signal.simps)

lemma life_run_ok:
  assumes "life_run es r0 = Some r" "life_ok r0"
  shows "life_ok r"
  using assms(1) by (induction rule: life_run_induct) (auto intro: assms(2) life_step_ok)

lemma life_run_signals:
  assumes "life_run es r0 = Some r"
  shows "shutdown_signal (run_signals r) \<longleftrightarrow>
     shutdown_signal (run_signals r0) \<or> Signal SIGINT \<in> set es \<or> Signal SIGTERM \<in> set es"
  using assms
proof (induction rule: life_run_induct)
  case (step es e r r')
  then show ?case by (cases e) (auto simp: Let_def shutdown_signal_append split: if_splits prod.splits option.splits)
qed simp

text \<open>The events that end a server: what is in flight is handled, then the task is stopped and joined.\<close>

definition ending :: "environment \<Rightarrow> 'c running \<Rightarrow> life_event list" where
  "ending env r =
     replicate (length (run_pending r)) (Handle 0 env) @
     (if run_phase r = Stopped then []
      else (if run_phase r = Joining then [] else [Served]) @
           (if run_phase r = Joining \<and> \<not> run_cleanup r then [] else [Task_Ends]) @ [Joined])"

lemma ending_stops:
  assumes "life_ok r" "run_phase r \<noteq> Serving"
  shows "\<exists>r'. life_run (ending env r) r = Some r' \<and> run_phase r' = Stopped"
  using assms
proof (induction "length (run_pending r)" arbitrary: r)
  case 0
  then show ?case by (cases "run_phase r") (auto simp: ending_def life_ok_def)
next
  case (Suc n)
  then obtain q qs where q: "run_pending r = q # qs" by (cases "run_pending r") auto
  obtain r1 where r1: "life_step (Handle 0 env) r = Some r1" "run_pending r1 = qs" "run_phase r1 = run_phase r"
      "run_cleanup r1 = run_cleanup r"
    using q by auto
  then have "ending env r = Handle 0 env # ending env r1" by (simp add: ending_def q)
  with Suc.hyps(1) [of r1] Suc.hyps(2) q r1 life_step_ok [OF Suc.prems(1) r1(1)] Suc.prems(2) show ?case by simp
qed

lemma stopped_final: "life_ok r \<Longrightarrow> run_phase r = Stopped \<Longrightarrow> life_step e r = Some r' \<Longrightarrow> run_server r' = run_server r"
  by (cases e) (auto simp: life_ok_def Let_def split: if_splits)


subsection \<open>From the command line on\<close>

lemma start_state_ok:
  assumes "tree_ok rn f" "canonicalize f (sc_root_dir config) = Inr (abs_path rn)"
  shows "app_ok rn (srv_app (start_state f config))"
proof -
  have rn: "\<forall>w\<in>set rn. valid_name w"
    using tree_okD(1,2) [OF assms(1)] fs_wf_lookup(1) by blast
  then show ?thesis
    using assms tree_okD(1) [OF assms(1)] unfolding tree_ok_def
    by (simp add: app_ok_def tree_ok_def state_ok_def start_state_def with_tailscale_auth_def app_state_new_def store_ok_def)
qed

text \<open>
  From the command line to the end, nothing outside the root directory is touched. The root
  directory exists and has no symbolic links below it when the state is made, after the shadow
  file was set up. Then after every sequence of events, with requests that are admitted and
  handled in any interleaving, signals and cleanup rounds, the state is well formed and every node
  outside the root directory, the root itself included, is as it was at the start.
\<close>

theorem server_life_keeps_root:
  assumes "main su ax f c = Inr r0" and "server_config_of ax f c = (config, f1)"
    and "tree_ok rn f1" and "canonicalize f1 (cli_root_dir c) = Inr (abs_path rn)"
    and "life_run es r0 = Some r"
  shows "app_ok rn (srv_app (run_server r)) \<and> same_outside rn f1 (st_fs (srv_app (run_server r)))"
proof -
  have s: "start_server su f1 config = Inr r0" using assms(1,2) by (simp add: main_def)
  have "sc_root_dir config = cli_root_dir c"
    using assms(2) by (auto simp: server_config_of_def split: prod.splits)
  with start_state_ok [OF assms(3)] assms(4) start_server_Inr(1) [OF s]
  have "app_ok rn (srv_app (run_server r0))" by simp
  moreover have "st_fs (srv_app (run_server r0)) = f1"
    using start_server_Inr(1) [OF s] by (simp add: start_state_def with_tailscale_auth_def app_state_new_def)
  ultimately show ?thesis using life_run_app [OF assms(5)] by (simp add: app_step_def)
qed

lemma demo_main:
  obtains r0 where "main demo_startup demo_ax plain_fs lone_cli = Inr r0"
    "snd (server_config_of demo_ax plain_fs lone_cli) = plain_fs"
proof -
  let ?config = "fst (server_config_of demo_ax plain_fs lone_cli)"
  have ip: "show_ipv4 [127, 0, 0, Suc 0] = ''127.0.0.1''" by code_simp
  have c: "snd (server_config_of demo_ax plain_fs lone_cli) = plain_fs" "sc_tls ?config = None"
      "sc_host ?config = show_ipv4 [127, 0, 0, 1]" "sc_port ?config = 8080"
    by (simp_all add: server_config_of_def lone_cli_def build_auth_state_def to_shadow_file_arg_def to_tls_config_def
        effective_port_def ip)
  have "bind_address ?config = Some (V4 [127, 0, 0, 1] 8080)"
    using parse_show_v4 [of 127 0 0 1 8080] by (simp add: bind_address_def c)
  then obtain r0 where "start_server demo_startup plain_fs ?config = Inr r0"
    by (simp add: start_server_def c demo_startup_def)
  then have "main demo_startup demo_ax plain_fs lone_cli = Inr r0" by (simp add: main_def case_prod_beta c(1))
  from that [OF this c(1)] show thesis .
qed

theorem server_life_keeps_root_witness:
  "\<exists>r0 r. main demo_startup demo_ax plain_fs lone_cli = Inr r0 \<and>
     life_run [Arrive demo_env (demo_req ''DELETE'' ''/../etc'' []), Signal SIGTERM, Round demo_env] r0 = Some r \<and>
     fs_lookup (st_fs (srv_app (run_server r))) [''etc''] = Some Dir"
proof -
  let ?es = "[Arrive demo_env (demo_req ''DELETE'' ''/../etc'' []), Signal SIGTERM, Round demo_env]"
  obtain r0 where r0: "main demo_startup demo_ax plain_fs lone_cli = Inr r0"
      "snd (server_config_of demo_ax plain_fs lone_cli) = plain_fs" by (rule demo_main)
  obtain config f1 where c: "server_config_of demo_ax plain_fs lone_cli = (config, f1)" by fastforce
  have f1: "f1 = plain_fs" using r0(2) c by simp
  have "start_server demo_startup f1 config = Inr r0" using r0(1) c by (simp add: main_def)
  note r0s = start_server_Inr [OF this]
  obtain v s1 where "admit demo_env (demo_req ''DELETE'' ''/../etc'' []) (run_server r0) = (v, s1)" by fastforce
  then obtain r where r: "life_run ?es r0 = Some r" using r0s(2,3) by (cases v) (auto simp: Let_def)
  have "canonicalize plain_fs (cli_root_dir lone_cli) = Inr (abs_path [''srv''])"
    by (simp add: canonicalize_def resolve_def start_dir_def starts_with_def plain_fs_def fs_lookup_def lone_cli_def)
  from server_life_keeps_root [OF r0(1) c _ _ r, of "[''srv'']"] plain_tree this f1
  have "same_outside [''srv''] plain_fs (st_fs (srv_app (run_server r)))" by simp
  then have "fs_lookup (st_fs (srv_app (run_server r))) [''etc''] = fs_lookup plain_fs [''etc'']"
    unfolding same_outside_def by simp
  with r0(1) r show ?thesis by (auto simp: plain_fs_def fs_lookup_def)
qed


end
