(* ===== verification/Locked_Tree.thy ===== *)
theory Locked_Tree
  imports Lifecycle
begin

section \<open>Locks and the served tree\<close>

text \<open>
  The lock enforcement in front of the handlers, on the abstract tree: which requests change it and
  which are refused because of a lock; a lock that does not protect its resource from the deletion
  of its collection; and the time between the check of the locks and the handler, in which a lock
  that is granted has no effect on a request that was already admitted.
\<close>

subsection \<open>Locked requests do nothing, others do what the tree says\<close>

lemma guard_ready:
  assumes "ready rn st" "state_resolve_and_guard x st rp = (g, st1)"
  shows "ready rn st1"
proof -
  have "app_ok rn st1" using guard_step(1) [OF _ assms(2)] readyD(1) [OF assms(1)] app_step_ok by blast
  then show ?thesis using assms guard_frame_fields [OF assms(2)] by (simp add: ready_def root_at_def)
qed

lemma reply_status_run_next:
  "reply_status (fst (run_next h x now req st)) = reply_status (fst (h x now req st))"
  "snd (run_next h x now req st) = snd (h x now req st)"
  by (cases "fst (h x now req st)"; simp add: run_next_def case_prod_beta)+

lemma enforced_tree_step:
  assumes "ready rn st" and "fresh_cache st"
    and "from_http_method (req_method req) = Some m" and "m \<in> {PUT, MKCOL, DELETE}"
    and "names_path x (req_path req) ns" and "trim_end_matches sep (req_path req) = req_path req"
    and "req_stream req = (c, True)" and "\<not> has_body (req_headers req)"
    and "parse_if_header (req_headers req) = ls" and "ls = [] \<or> list_ex has_lock_token ls"
    and "lock_enforce dispatch_handler x now req st = (r, st')"
  shows "(reply_status r, served_tree rn st') =
     (if served_tree rn st (butlast ns) \<noteq> None \<and>
         is_path_locked now (st_locks st) (abs_path (rn @ ns)) ls (abs_path rn) (req_path req)
      then (LOCKED, served_tree rn st) else dav_step m c ns (served_tree rn st))"
proof -
  obtain g st1 where g: "state_resolve_and_guard x st (req_path req) = (g, st1)" by fastforce
  note gn = guard_named [OF assms(1,5,2) g]
  note st1 = guard_frame_fields [OF g]
  have t: "served_tree rn st1 = served_tree rn st" by (rule served_tree_same_fs [OF st1(1)])
  have m: "m \<in> {PUT, DELETE, MKCOL, PROPPATCH}" using assms(4) by auto
  have n: "names_path x (target_path m req) ns" using assms(5,6) by (simp add: target_path_def)
  have pass: "(reply_status r, served_tree rn st') = dav_step m c ns (served_tree rn st)"
    if "lock_enforce dispatch_handler x now req st = run_next dispatch_handler x now req st1"
  proof -
    obtain r2 st2 where d: "dispatch_handler x now req st1 = (r2, st2)" by fastforce
    have n1: "run_next dispatch_handler x now req st1 = (r, st')" using that assms(11) by simp
    have "reply_status r = reply_status r2" "st' = st2"
      using reply_status_run_next [of dispatch_handler x now req st1, unfolded n1 d] by simp_all
    with dav_tree_refinement [OF guard_ready [OF assms(1) g] gn(3) assms(3,4) n assms(7,8) d] t show ?thesis by simp
  qed
  have ls: "parse_if_header (req_headers req) = [] \<or> list_ex has_lock_token (parse_if_header (req_headers req)) \<or>
      contains_key (req_headers req) ''lock-token''" using assms(9,10) by blast
  note le = lock_enforce_simple [OF assms(3) m ls, of dispatch_handler x now st, unfolded assms(6,9)]
  show ?thesis
  proof (cases "served_tree rn st (butlast ns)")
    case None
    with gn(1) obtain e where "g = Inl (ParentCanonicalizeFailed e)" by (auto simp: served_tree_def)
    then have "lock_enforce dispatch_handler x now req st = run_next dispatch_handler x now req st1"
      using le g by (simp add: check_locked_def)
    with pass None show ?thesis by simp
  next
    case (Some n)
    with gn(2) have "g = Inr (abs_path (rn @ ns))" by (auto simp: served_tree_def)
    then have c: "check_locked x now ls (req_path req) st =
        (is_path_locked now (st_locks st) (abs_path (rn @ ns)) ls (abs_path rn) (req_path req), st1)"
      using g st1(2,4) readyD(6) [OF assms(1)] by (simp add: check_locked_def)
    show ?thesis
    proof (cases "is_path_locked now (st_locks st) (abs_path (rn @ ns)) ls (abs_path rn) (req_path req)")
      case True
      with c le assms(11) t Some show ?thesis by auto
    next
      case False
      with c le pass show ?thesis by simp
    qed
  qed
qed

lemma locked_tree_step:
  assumes "ready rn st" and "fresh_cache st"
    and "from_http_method (req_method req) = Some m" and "m \<in> {PUT, MKCOL, DELETE}"
    and "names_path x (req_path req) ns" and "trim_end_matches sep (req_path req) = req_path req"
    and "req_stream req = (c, True)" and "\<not> has_body (req_headers req)"
    and "header_str (req_headers req) ''if'' = None"
    and "lock_enforce dispatch_handler x now req st = (r, st')"
  shows "(reply_status r, served_tree rn st') =
     (if served_tree rn st (butlast ns) \<noteq> None \<and> locked_at now (st_locks st) rn ns
      then (LOCKED, served_tree rn st) else dav_step m c ns (served_tree rn st))"
proof -
  have safe: "\<forall>w\<in>set (rn @ ns). safe_name w" using readyD(8) [OF assms(1)] names_pathD(3) [OF assms(5)] by auto
  show ?thesis
    using enforced_tree_step [OF assms(1-8) parse_if_none [OF assms(9)] _ assms(10)]
      is_path_locked_no_header [OF state_okD(7) [OF readyD(9) [OF assms(1)]] safe] by simp
qed


lemma plain_locked_ready:
  assumes "ns \<noteq> []" "\<forall>w\<in>set ns. safe_name w"
  shows "ready [''srv''] (plain_state\<lparr>st_locks := [(abs_path (''srv'' # ns), e)]\<rparr>)"
    "fresh_cache (plain_state\<lparr>st_locks := [(abs_path (''srv'' # ns), e)]\<rparr>)"
proof -
  have "store_ok [''srv''] [(abs_path (''srv'' # ns), e)]"
    unfolding store_ok_below below_def
    using assms by (auto intro!: exI [of _ ns] simp: hm_inv_def safe_name_def split: if_splits)
  with plain_ready(1) show "ready [''srv''] (plain_state\<lparr>st_locks := [(abs_path (''srv'' # ns), e)]\<rparr>)"
    by (auto simp: ready_def app_ok_def state_ok_def root_at_def)
  show "fresh_cache (plain_state\<lparr>st_locks := [(abs_path (''srv'' # ns), e)]\<rparr>)"
    using plain_ready(2) by (simp add: fresh_cache_def)
qed

lemma plain_request:
  "names_path plain_externals (req_path (demo_req m ''/a'' [])) [''a'']"
  "names_path plain_externals (req_path (demo_req m ''/a/f'' [])) [''a'', ''f'']"
  "trim_end_matches sep (req_path (demo_req m ''/a'' [])) = req_path (demo_req m ''/a'' [])"
  "trim_end_matches sep (req_path (demo_req m ''/a/f'' [])) = req_path (demo_req m ''/a/f'' [])"
  "req_stream (demo_req m p []) = ([], True)" "\<not> has_body (req_headers (demo_req m p []))"
  "header_str (req_headers (demo_req m p [])) ''if'' = None"
  by (simp_all add: names_path_def demo_req_def plain_externals_def valid_name_def safe_name_def
      trim_start_matches_def trim_end_matches_def has_body_def header_str_def)

lemma plain_tree_nodes:
  "served_tree [''srv''] (plain_state\<lparr>st_locks := L\<rparr>) [] = Some Dir"
  "served_tree [''srv''] (plain_state\<lparr>st_locks := L\<rparr>) [''a''] = Some Dir"
  "served_tree [''srv''] (plain_state\<lparr>st_locks := L\<rparr>) [''a'', ''f''] = Some (File ''data'')"
  by (simp_all add: served_tree_def plain_state_def app_state_new_def plain_fs_def fs_lookup_def)

lemma demo_locked:
  "locked_at 10 (st_locks (plain_state\<lparr>st_locks := [(abs_path (''srv'' # ns), [demo_lock Exclusive ''t'' d])]\<rparr>)) [''srv''] ns"
  unfolding locked_at_def
  by (rule disjI1) (simp add: entry_of_def is_expired_def elapsed_def demo_lock_def)


subsection \<open>A lock on a member does not protect it from the deletion of its collection\<close>

text \<open>
  C37: deleting a collection deletes its locked members. A member of an unlocked collection has an
  active lock, which another client holds. A DELETE of the collection, without any token, is
  answered 204 and removes the member, and the lock stays in the store, on a path that no longer
  exists: the enforcement looks at the locks of the target and of its ancestors only.
\<close>

theorem delete_collection_removes_locked_member:
  assumes "ready rn st" and "fresh_cache st" and "names_path x (req_path req) ns"
    and "req_method req = ''DELETE''" and "trim_end_matches sep (req_path req) = req_path req"
    and "req_stream req = (c, True)" and "\<not> has_body (req_headers req)"
    and "header_str (req_headers req) ''if'' = None"
    and "\<not> locked_at now (st_locks st) rn ns"
    and "served_tree rn st (ns @ w # ws) \<noteq> None" and "locked_at now (st_locks st) rn (ns @ w # ws)"
    and "lock_enforce dispatch_handler x now req st = (r, st')"
  shows "reply_status r = NO_CONTENT \<and> served_tree rn st' (ns @ w # ws) = None \<and>
     locked_at now (st_locks st') rn (ns @ w # ws)"
proof -
  have m: "from_http_method (req_method req) = Some DELETE" using assms(4) by (simp add: from_http_method_def)
  have "served_tree rn st ns \<noteq> None"
    using fs_wf_prefix_dir [OF readyD(3) [OF assms(1)], of "rn @ ns" "w # ws"] assms(10) by (auto simp: served_tree_def)
  with locked_tree_step [OF assms(1,2) m _ assms(3,5,6,7,8,12)] assms(9)
  have "reply_status r = NO_CONTENT" "served_tree rn st' (ns @ w # ws) = None"
    by (auto simp: dav_step_def dav_delete_def split: if_splits)
  moreover have "st_locks st' = st_locks st"
  proof -
    have mm: "DELETE \<in> {PUT, DELETE, MKCOL, PROPPATCH}" by simp
    have hd: "st_locks (snd (handle_delete x now req s)) = st_locks s" for s
      by (auto simp: handle_delete_def split: sum.splits prod.splits if_splits)
    obtain b st1 where c: "check_locked x now [] (req_path req) st = (b, st1)" by fastforce
    have "same_but_cache st st1" by (rule check_locked_harmless [OF c])
    then have "st_locks st1 = st_locks st" by (metis app_state.select_convs(5) app_state.surjective app_state.update_convs(6) same_but_cache_def)
    with lock_enforce_simple [OF m mm, of dispatch_handler x now st] parse_if_none [OF assms(8)] assms(5,12) c hd
      reply_status_run_next(2) [of dispatch_handler x now req st1] m
    show ?thesis by (cases b) (auto simp: dispatch_handler_def dest: sym [of "(r, st')"])
  qed
  ultimately show ?thesis using assms(11) by simp
qed

theorem delete_collection_removes_locked_member_witness:
  "reply_status (fst (lock_enforce dispatch_handler plain_externals 10 (demo_req ''DELETE'' ''/a'' [])
      (plain_state\<lparr>st_locks := [(abs_path [''srv'', ''a'', ''f''], [demo_lock Exclusive ''t'' Zero])]\<rparr>))) = NO_CONTENT"
proof -
  let ?st = "plain_state\<lparr>st_locks := [(abs_path [''srv'', ''a'', ''f''], [demo_lock Exclusive ''t'' Zero])]\<rparr>"
  let ?req = "demo_req ''DELETE'' ''/a'' []"
  have r: "ready [''srv''] ?st" "fresh_cache ?st"
    using plain_locked_ready [of "[''a'', ''f'']"] by (simp_all add: safe_name_def)
  have m: "req_method ?req = ''DELETE''" by (simp add: demo_req_def)
  have "abs_path [''srv'', ''a'', ''f''] \<noteq> abs_path [''srv'', ''a'']" "abs_path [''srv'', ''a'', ''f''] \<noteq> abs_path [''srv'']"
    by (simp_all add: abs_path_def)
  then have u: "\<not> locked_at 10 (st_locks ?st) [''srv''] [''a'']"
    by (auto simp: locked_at_def entry_of_def strict_prefix_def prefix_Cons)
  obtain r' st' where h: "lock_enforce dispatch_handler plain_externals 10 ?req ?st = (r', st')" by fastforce
  from delete_collection_removes_locked_member [OF r plain_request(1) m plain_request(3,5,6,7) u _ _ h, of "''f''" "[]"]
    demo_locked [of "[''a'', ''f'']" Zero] plain_tree_nodes h
  show ?thesis by simp
qed

subsection \<open>Between the check and the handler\<close>

lemma guard_with_locks:
  "state_resolve_and_guard x (st\<lparr>st_locks := L\<rparr>) rp =
     (case state_resolve_and_guard x st rp of (r, s) \<Rightarrow> (r, s\<lparr>st_locks := L\<rparr>))"
  by (simp add: state_resolve_and_guard_def split: prod.split)

lemma existing_with_locks:
  "state_resolve_existing x (st\<lparr>st_locks := L\<rparr>) rp = state_resolve_existing x st rp"
  "state_resolve_write_target x (st\<lparr>st_locks := L\<rparr>) rp = state_resolve_write_target x st rp"
  by (simp_all add: state_resolve_existing_def state_resolve_write_target_def)

lemma transfer_with_locks:
  "transfer x mv ow d s t (st\<lparr>st_locks := L\<rparr>) = (case transfer x mv ow d s t st of (r, st') \<Rightarrow> (r, st'\<lparr>st_locks := L\<rparr>))"
  by (auto simp: transfer_def Let_def split: sum.split prod.split option.split)

definition with_locks :: "lock_store \<Rightarrow> 'c running \<Rightarrow> 'c running" where
  "with_locks L r = r\<lparr>run_server := (run_server r)\<lparr>srv_app := (srv_app (run_server r))\<lparr>st_locks := L\<rparr>\<rparr>\<rparr>"

lemmas handler_defs = handle_get_head_def handle_put_def handle_delete_def handle_options_def handle_mkcol_def
  handle_proppatch_def handle_copy_def handle_move_def do_move_or_copy_def

lemma dispatch_with_locks:
  assumes "from_http_method (req_method req) = Some m" "m \<notin> {PROPFIND, LOCK, UNLOCK}"
  shows "dispatch_handler x now req (st\<lparr>st_locks := L\<rparr>) =
     (case dispatch_handler x now req st of (r, st') \<Rightarrow> (r, st'\<lparr>st_locks := L\<rparr>))"
proof -
  note simps = dispatch_handler_def guard_with_locks existing_with_locks transfer_with_locks
  show ?thesis
    using assms by (cases m) (auto simp: simps handler_defs Let_def split: sum.split prod.split)
qed

text \<open>
  A lock that is granted between the check and the handler does not stop the handler. Once a
  request other than PROPFIND, LOCK and UNLOCK has been admitted, its handler has the same answer
  and the same effect whatever has happened to the locks since: handlers do not look at them. A
  write that was admitted before another client got its exclusive lock is thus done afterwards.
\<close>

theorem admitted_request_ignores_locks:
  assumes "i < length (run_pending r)" and "from_http_method (req_method (run_pending r ! i)) = Some m"
    and "m \<notin> {PROPFIND, LOCK, UNLOCK}"
  shows "life_step (Handle i env) (with_locks L r) = map_option (with_locks L) (life_step (Handle i env) r) \<and>
     fst (dispatch env (run_pending r ! i) (run_server (with_locks L r))) =
       fst (dispatch env (run_pending r ! i) (run_server r))"
  using assms(1) dispatch_with_locks [OF assms(2,3), where x = "env_x env" and now = "env_now env"
      and st = "srv_app (run_server r)" and L = L]
  by (simp add: with_locks_def dispatch_def lift_handler_def split: prod.splits)

definition demo_running :: "request list \<Rightarrow> app_state \<Rightarrow> nat running" where
  "demo_running reqs st =
     \<lparr>run_server = \<lparr>srv_app = st, srv_auth = auth_state_new, srv_tailscale = Disabled\<rparr>, run_addr = V4 [] 0, run_tls = None,
      run_phase = Serving, run_signals = [], run_pending = reqs, run_cleanup = True, run_notified = False\<rparr>"

lemma served_tree_with_locks: "served_tree rn (srv_app (run_server (with_locks L r))) = served_tree rn (srv_app (run_server r))"
  by (simp add: with_locks_def served_tree_def fun_eq_iff)

theorem admitted_request_ignores_locks_witness:
  "\<exists>r1 r2. life_run [Arrive (demo_env\<lparr>env_x := plain_externals, env_now := 10\<rparr>) (demo_req ''DELETE'' ''/a/f'' [])]
        (demo_running [] plain_state) = Some r1 \<and>
     life_step (Handle 0 (demo_env\<lparr>env_x := plain_externals, env_now := 10\<rparr>))
        (with_locks [(abs_path [''srv'', ''a'', ''f''], [demo_lock Exclusive ''t'' Zero])] r1) = Some r2 \<and>
     served_tree [''srv''] (srv_app (run_server r2)) [''a'', ''f''] = None"
proof -
  let ?req = "demo_req ''DELETE'' ''/a/f'' []" and ?env = "demo_env\<lparr>env_x := plain_externals, env_now := 10\<rparr>"
  let ?s = "run_server (demo_running [] plain_state)"
  let ?L = "[(abs_path [''srv'', ''a'', ''f''], [demo_lock Exclusive ''t'' Zero])]"
  have m: "from_http_method (req_method ?req) = Some DELETE" by (simp add: demo_req_def from_http_method_def)
  obtain g st1 where g: "state_resolve_and_guard plain_externals plain_state (req_path ?req) = (g, st1)" by fastforce
  note gn = guard_named [OF plain_ready(1) plain_request(2) plain_ready(2) g]
  have "fs_lookup (st_fs plain_state) ([''srv''] @ butlast [''a'', ''f'']) = Some Dir"
    by (simp add: plain_state_def app_state_new_def plain_fs_def fs_lookup_def)
  with gn(2) g plain_request(4)
  have gr: "state_resolve_and_guard plain_externals plain_state (trim_end_matches sep (req_path ?req)) =
      (Inr (abs_path ([''srv''] @ [''a'', ''f''])), st1)" by simp
  have mm: "DELETE \<in> {PUT, DELETE, MKCOL, PROPPATCH}" by simp
  have "\<forall>w\<in>set ([''srv''] @ [''a'', ''f'']). safe_name w" by (simp add: safe_name_def)
  from lock_enforce_decides [OF readyD(9) [OF plain_ready(1)] this m mm plain_request(7) gr, of probe 10]
  have "lock_enforce probe plain_externals 10 ?req plain_state = run_next probe plain_externals 10 ?req st1"
    by (simp add: locked_at_def entry_of_def plain_state_def app_state_new_def)
  then have "admit ?env ?req ?s = (None, ?s\<lparr>srv_app := st1\<rparr>)"
    by (simp add: admit_def and_then_def health_verdict_def tailscale_verdict_def auth_verdict_def lock_verdict_def
        demo_running_def is_health_check_def header_bytes_def demo_req_def auth_is_empty_def
        auth_state_new_def run_next_def probe_def)
  then obtain r1 where r1: "life_run [Arrive ?env ?req] (demo_running [] plain_state) = Some r1"
      "run_pending r1 = [?req]" "run_server r1 = ?s\<lparr>srv_app := st1\<rparr>"
    by (simp add: demo_running_def)
  obtain r2 where r2: "life_step (Handle 0 ?env) r1 = Some r2" "run_server r2 = snd (dispatch ?env ?req (run_server r1))"
    using r1(2) by simp
  obtain rep st2 where d: "dispatch_handler plain_externals 10 ?req st1 = (rep, st2)" by fastforce
  have old: "served_tree [''srv''] st1 = served_tree [''srv''] plain_state"
    by (rule served_tree_same_fs [OF guard_frame_fields(1) [OF g]])
  have n: "names_path plain_externals (target_path DELETE ?req) [''a'', ''f'']"
    using plain_request(2) by (simp add: target_path_def)
  have "served_tree [''srv''] plain_state [''a'', ''f''] = Some (File ''data'')"
    by (simp add: served_tree_def plain_state_def app_state_new_def plain_fs_def fs_lookup_def)
  with dav_tree_refinement [OF guard_ready [OF plain_ready(1) g] gn(3) m _ n plain_request(5,6) d] old
  have "served_tree [''srv''] st2 [''a'', ''f''] = None" by (simp add: dav_step_def dav_delete_def)
  then have gone: "served_tree [''srv''] (srv_app (run_server r2)) [''a'', ''f''] = None"
    using r2(2) r1(3) d by (simp add: dispatch_def lift_handler_def)
  have "life_step (Handle 0 ?env) (with_locks ?L r1) = Some (with_locks ?L r2)"
    using admitted_request_ignores_locks [of 0 r1 DELETE ?env ?L] r1(2) m r2(1) by simp
  with r1(1) gone show ?thesis by (metis served_tree_with_locks)
qed

end
