(* ===== verification/Lock_Use.thy ===== *)
theory Lock_Use
  imports Locked_Tree
begin

section \<open>Using a lock\<close>

text \<open>
  What LOCK, the \<open>If\<close> header and UNLOCK give a client together: a granted lock keeps writes without
  its token away from the resource, lets those with the token through, and is gone after UNLOCK.
  And a lock that the server grants although the resource is covered by another client's lock.
\<close>

subsection \<open>A request that presents one token\<close>

definition holds_token :: "system_time \<Rightarrow> lock_store \<Rightarrow> string \<Rightarrow> string list \<Rightarrow> bool" where
  "holds_token now locks t p \<longleftrightarrow> (\<exists>l\<in>set (entry_of locks (abs_path p)). \<not> is_expired now l \<and> lk_token l = t)"

definition refused_with :: "system_time \<Rightarrow> lock_store \<Rightarrow> string \<Rightarrow> string list \<Rightarrow> string list \<Rightarrow> bool" where
  "refused_with now locks t rn ns \<longleftrightarrow>
     \<not> holds_token now locks t (rn @ ns) \<or>
     (\<exists>ms l. strict_prefix ms ns \<and> l \<in> set (entry_of locks (abs_path (rn @ ms))) \<and>
             \<not> is_expired now l \<and> lk_depth l = Infinity \<and> \<not> holds_token now locks t (rn @ ms))"

definition one_token :: "string \<Rightarrow> if_list list" where
  "one_token t = [\<lparr>resource_tag = None, conditions = [StateToken t]\<rparr>]"

lemma parse_one_token:
  assumes "plain_token t" "header_str hs ''if'' = Some (''(<'' @ t @ ''>)'')"
  shows "parse_if_header hs = one_token t"
proof -
  have "read_conditions (CHR ''<'' # t @ CHR ''>'' # '')'') = ([StateToken t], [])"
    using assms(1) by (simp add: read_conditions.simps [of "CHR ''<'' # _"] read_conditions.simps [of "'')''"])
  then have "parse_if_value (''(<'' @ t @ ''>)'') = one_token t"
    by (simp add: parse_if_value.simps [of "CHR ''('' # _"] parse_if_value.simps [of "[]"] read_list_def one_token_def)
  then show ?thesis using assms(2) by (simp add: parse_if_header_def)
qed

lemma is_path_locked_token:
  assumes "store_ok rn locks" "\<forall>w\<in>set (rn @ ns). safe_name w" "t \<noteq> ''DAV:no-lock''"
  shows "is_path_locked now locks (abs_path (rn @ ns)) (one_token t) (abs_path rn) rp \<longleftrightarrow> refused_with now locks t rn ns"
proof -
  let ?f = "\<lambda>infos. list_ex (\<lambda>l. lk_depth l = Infinity) (active_slice now infos) \<and> \<not> eval_if now (one_token t) infos rp"
  have e: "eval_if now (one_token t) infos rp \<longleftrightarrow> (\<exists>l\<in>set infos. \<not> is_expired now l \<and> lk_token l = t)" for infos
    using eval_if_token [OF assms(3)] by (simp add: one_token_def)
  have "\<forall>infos. ?f infos \<longrightarrow> list_ex (\<lambda>l. lk_depth l = Infinity) infos"
    by (auto simp: active_slice_def list_ex_iff)
  note w = walk_locked_iff [OF assms(1,2) this]
  have "(\<exists>ms infos. strict_prefix ms ns \<and> map_of locks (abs_path (rn @ ms)) = Some infos \<and> ?f infos) \<longleftrightarrow>
     (\<exists>ms l. strict_prefix ms ns \<and> l \<in> set (entry_of locks (abs_path (rn @ ms))) \<and>
             \<not> is_expired now l \<and> lk_depth l = Infinity \<and> \<not> holds_token now locks t (rn @ ms))"
    by (fastforce simp: e holds_token_def entry_of_mem active_slice_def list_ex_iff)
  then show ?thesis
    unfolding is_path_locked_def Let_def entry_of_case refused_with_def w by (auto simp: e holds_token_def)
qed

subsection \<open>Requests on one resource\<close>

text \<open>A PUT, MKCOL or DELETE of the resource, with the content it would put.\<close>

definition writes_to :: "externals \<Rightarrow> request \<Rightarrow> http_method \<Rightarrow> string \<Rightarrow> string list \<Rightarrow> bool" where
  "writes_to x req m c ns \<longleftrightarrow>
     from_http_method (req_method req) = Some m \<and> m \<in> {PUT, MKCOL, DELETE} \<and> names_path x (req_path req) ns \<and>
     trim_end_matches sep (req_path req) = req_path req \<and> req_stream req = (c, True) \<and> \<not> has_body (req_headers req)"

definition outcome :: "string list \<Rightarrow> reply \<times> app_state \<Rightarrow> status \<times> dav_tree" where
  "outcome rn res = (reply_status (fst res), served_tree rn (snd res))"

lemma write_without_token:
  assumes "ready rn st" "fresh_cache st" "writes_to x req m c ns" "header_str (req_headers req) ''if'' = None"
  shows "outcome rn (lock_enforce dispatch_handler x now req st) =
     (if served_tree rn st (butlast ns) \<noteq> None \<and> locked_at now (st_locks st) rn ns
      then (LOCKED, served_tree rn st) else dav_step m c ns (served_tree rn st))"
  using locked_tree_step [OF assms(1,2), of req m x ns c now] assms(3,4)
  by (simp add: writes_to_def outcome_def)

lemma write_with_token:
  assumes "ready rn st" "fresh_cache st" "writes_to x req m c ns"
    and "header_str (req_headers req) ''if'' = Some (''(<'' @ t @ ''>)'')" "plain_token t" "t \<noteq> ''DAV:no-lock''"
  shows "outcome rn (lock_enforce dispatch_handler x now req st) =
     (if served_tree rn st (butlast ns) \<noteq> None \<and> refused_with now (st_locks st) t rn ns
      then (LOCKED, served_tree rn st) else dav_step m c ns (served_tree rn st))"
proof -
  have n: "names_path x (req_path req) ns" using assms(3) by (simp add: writes_to_def)
  have safe: "\<forall>w\<in>set (rn @ ns). safe_name w" using readyD(8) [OF assms(1)] names_pathD(3) [OF n] by auto
  have "list_ex has_lock_token (one_token t)" using assms(6) by (simp add: one_token_def has_lock_token_def)
  then show ?thesis
    using enforced_tree_step [OF assms(1,2) _ _ n _ _ _ parse_one_token [OF assms(5,4)], of m c now]
      is_path_locked_token [OF state_okD(7) [OF readyD(9) [OF assms(1)]] safe assms(6)] assms(3)
    by (simp add: writes_to_def outcome_def)
qed

subsection \<open>A lock is granted\<close>

text \<open>A LOCK of the resource without an \<open>If\<close> header, whose body can be read.\<close>

definition locks_it :: "externals \<Rightarrow> request \<Rightarrow> string list \<Rightarrow> bool" where
  "locks_it x req ns \<longleftrightarrow>
     req_method req = ''LOCK'' \<and> names_path x (req_path req) ns \<and> trim_end_matches sep (req_path req) = req_path req \<and>
     header_str (req_headers req) ''if'' = None \<and> req_bytes req \<noteq> None"

definition granted_for :: "request \<Rightarrow> app_state \<Rightarrow> duration option" where
  "granted_for req st =
     (case parse_timeout (req_headers req) of Some t \<Rightarrow> Some t
      | None \<Rightarrow> if st_lock_timeout st = 0 then None else Some (st_lock_timeout st))"

lemma prepare_named:
  assumes "locks_it x req ns" "state_resolve_and_guard x st (req_path req) = (Inr target, st1)"
  obtains lr where "prepare_lock x req st = (Inr lr, st1)" "lr_target lr = target" "lr_tokens lr = []"
    "lr_timeout lr = granted_for req st1"
proof -
  obtain b where b: "req_bytes req = Some b" using assms(1) by (auto simp: locks_it_def)
  obtain own sc where body: "parse_lock_body (ext_reader x) b = (own, sc)" by fastforce
  show thesis
    using that [of "\<lparr>lr_target = target, lr_owner = own, lr_scope = sc,
        lr_timeout = granted_for req st1, lr_depth = parse_depth (req_headers req), lr_tokens = []\<rparr>"]
      assms b body parse_if_none [of "req_headers req"]
    by (simp add: locks_it_def prepare_lock_def Let_def granted_for_def)
qed

lemma decision_unlocked: "lock_decision x now lr [] = (Inr NeedsLockNull, [])"
  by (simp add: lock_decision_def check_existing_exclusive_def active_slice_def try_new_exclusive_def
      try_new_shared_def split: lock_scope.split)

lemma entry_of_update: "entry_of (AList.update p e locks) q = (if q = p then e else entry_of locks q)"
  by (simp add: entry_of_def hm_simps)

lemma entry_of_or_default: "entry_of (entry_or_default p [] locks) q = entry_of locks q"
  by (simp add: entry_of_def hm_simps split: option.splits)

lemma phase1_unlocked:
  assumes "lr_tokens lr = []" "entry_of locks (lr_target lr) = []"
  obtains locks1 where "lock_phase1 x now lr locks = (None, locks1)" "\<And>p. entry_of locks1 p = entry_of locks p"
proof -
  have "lock_phase1 x now lr locks = (None, AList.update (lr_target lr) [] (entry_or_default (lr_target lr) [] locks))"
    unfolding phase1_no_tokens [OF assms(1)] Let_def entry_of_default assms(2) decision_unlocked by simp
  then show thesis by (rule that) (use assms(2) in \<open>simp add: entry_of_update entry_of_or_default\<close>)
qed

lemma phase2_unlocked:
  assumes "entry_of locks (lr_target lr) = []"
  shows "\<exists>locks2. lock_phase2 x now lr created locks =
      (lock_response (generate_lock_token (ext_hash x) now)
         (build_lock_response (new_lock lr (generate_lock_token (ext_hash x) now) now)) (if created then CREATED else OK), locks2) \<and>
    (\<forall>p. entry_of locks2 p =
       (if p = lr_target lr then [new_lock lr (generate_lock_token (ext_hash x) now) now] else entry_of locks p))"
  using assms by (simp add: lock_phase2_def Let_def entry_of_update entry_of_or_default)

lemma ensure_named:
  assumes "ready rn st" "fs_lookup (st_fs st) (rn @ ms) = Some Dir" "valid_name w"
  shows "ensure_lock_null_resource (abs_path (rn @ ms @ [w])) (st_fs st) =
     (if fs_lookup (st_fs st) (rn @ ms @ [w]) = None then (Inr True, fs_set (rn @ ms @ [w]) (File []) (st_fs st))
      else (Inr False, st_fs st))"
  using locate_child [OF readyD(3) [OF assms(1)] assms(2) _ assms(3)] readyD(4) [OF assms(1)]
  by (auto simp: ensure_lock_null_resource_def file_create_new_def undisturbed_def split: option.split)

lemma lock_granted:
  assumes "ready rn st" and "fresh_cache st" and "locks_it x req ns"
    and "served_tree rn st (butlast ns) = Some Dir" and "entry_of (st_locks st) (abs_path (rn @ ns)) = []"
    and "dispatch_handler x now req st = (r, st')"
  shows "\<exists>l. r = lock_response (lk_token l) (build_lock_response l) (if served_tree rn st ns = None then CREATED else OK) \<and>
     lk_token l = generate_lock_token (ext_hash x) now \<and> lk_created l = now \<and> lk_timeout l = granted_for req st \<and>
     (\<forall>p. entry_of (st_locks st') p = (if p = abs_path (rn @ ns) then [l] else entry_of (st_locks st) p)) \<and>
     served_tree rn st' = (if served_tree rn st ns = None then (served_tree rn st)(ns \<mapsto> File []) else served_tree rn st) \<and>
     (served_tree rn st ns \<noteq> None \<longrightarrow> ready rn st' \<and> fresh_cache st')"
proof -
  have n: "names_path x (req_path req) ns" using assms(3) by (simp add: locks_it_def)
  obtain ms w where ns: "ns = ms @ [w]" "\<forall>v\<in>set (ms @ [w]). valid_name v" by (rule names_snoc [OF n])
  obtain g st1 where g: "state_resolve_and_guard x st (req_path req) = (g, st1)" by fastforce
  note gn = guard_named [OF assms(1) n assms(2) g]
  note st1 = guard_frame_fields [OF g]
  note r1 = guard_ready [OF assms(1) g]
  have "g = Inr (abs_path (rn @ ns))" using gn(2) assms(4) by (simp add: served_tree_def)
  then obtain lr where lr: "prepare_lock x req st = (Inr lr, st1)" "lr_target lr = abs_path (rn @ ns)" "lr_tokens lr = []"
      "lr_timeout lr = granted_for req st1"
    using prepare_named [OF assms(3)] g by blast
  let ?tok = "generate_lock_token (ext_hash x) now" and ?created = "fs_lookup (st_fs st) (rn @ ns) = None"
  obtain locks1 where p1: "lock_phase1 x now lr (st_locks st1) = (None, locks1)" "\<And>p. entry_of locks1 p = entry_of (st_locks st) p"
    using phase1_unlocked [OF lr(3), of "st_locks st1" x now] lr(2) assms(5) st1(2) by auto
  obtain f where e: "ensure_lock_null_resource (lr_target lr) (st_fs st1) = (Inr ?created, f)"
      "f = (if ?created then fs_set (rn @ ns) (File []) (st_fs st) else st_fs st)"
    using ensure_named [OF r1, of ms w] ns assms(4) st1(1) lr(2) by (auto simp: served_tree_def)
  obtain locks2 where p2: "lock_phase2 x now lr ?created locks1 =
        (lock_response ?tok (build_lock_response (new_lock lr ?tok now)) (if ?created then CREATED else OK), locks2)"
      "\<forall>p. entry_of locks2 p = (if p = lr_target lr then [new_lock lr ?tok now] else entry_of locks1 p)"
    using phase2_unlocked [of locks1 lr x now ?created] p1(2) lr(2) assms(5) by auto
  have "dispatch_handler x now req st = handle_lock x now req st"
    using assms(3) by (simp add: dispatch_handler_def from_http_method_def locks_it_def)
  then have h: "r = lock_response ?tok (build_lock_response (new_lock lr ?tok now)) (if ?created then CREATED else OK)"
      "st' = st1\<lparr>st_locks := locks2, st_fs := f\<rparr>"
    using assms(6) lr(1) p1(1) e(1) p2(1) by (simp_all add: handle_lock_def)
  have t: "served_tree rn st' = (if served_tree rn st ns = None then (served_tree rn st)(ns \<mapsto> File []) else served_tree rn st)"
    using h(2) e(2) ns(1) by (auto simp: served_tree_def fun_eq_iff fs_lookup_set)
  have "ready rn st' \<and> fresh_cache st'" if "served_tree rn st ns \<noteq> None"
  proof
    have "f = st_fs st1" using e(2) that st1(1) by (auto simp: served_tree_def)
    then have same: "st' = st1\<lparr>st_locks := locks2\<rparr>" using h(2) by (cases st1) simp
    show "fresh_cache st'" using gn(3) same by (simp add: fresh_cache_def)
    have "app_ok rn st'"
      using app_step_ok [OF lock_handler.handler_step [OF readyD(1) [OF assms(1)], of x now req]]
        assms(6) \<open>dispatch_handler x now req st = handle_lock x now req st\<close> by simp
    then show "ready rn st'" using r1 same by (simp add: ready_def root_at_def)
  qed
  moreover have "st_locks st' = locks2" using h(2) by simp
  moreover have "lk_token (new_lock lr ?tok now) = ?tok" "lk_created (new_lock lr ?tok now) = now"
      "lk_timeout (new_lock lr ?tok now) = granted_for req st"
    using lr(4) st1(6) by (simp_all add: new_lock_def granted_for_def split: option.split)
  ultimately show ?thesis
    using h(1) p1(2) p2(2) lr(2) t by (intro exI [of _ "new_lock lr ?tok now"]) (simp add: served_tree_def)
qed

subsection \<open>The tokens of the server\<close>

lemma digit_char_byte: "d < 16 \<Longrightarrow> 48 \<le> byte (digit_char d) \<and> byte (digit_char d) \<le> 102 \<and> byte (digit_char d) \<noteq> 62 \<and> byte (digit_char d) \<noteq> 60"
  by (simp add: digit_char_def byte_of_nat)

lemma token_chars:
  assumes "c \<in> set (generate_lock_token h now)"
  shows "32 < byte c \<and> byte c < 127 \<and> byte c \<noteq> 60 \<and> byte c \<noteq> 62"
proof -
  have "32 < byte d \<and> byte d < 127 \<and> byte d \<noteq> 60 \<and> byte d \<noteq> 62" if "d \<in> set (show_hex k)" for d k
    using that show_base_digits [of 16 d k] digit_char_byte by (fastforce simp: show_hex_def)
  with assms show ?thesis by (auto simp: generate_lock_token_def pad0_def byte_def)
qed

lemma token_plain: "plain_token (generate_lock_token h now)" "generate_lock_token h now \<noteq> ''DAV:no-lock''"
proof -
  have "\<forall>c\<in>set (generate_lock_token h now). byte c < 128" using token_chars by fastforce
  moreover have "CHR ''>'' \<notin> set (generate_lock_token h now)" using token_chars [of "CHR ''>''"] by (auto simp: byte_def)
  ultimately show "plain_token (generate_lock_token h now)" by (simp add: plain_token_def valid_utf8_ascii)
  show "generate_lock_token h now \<noteq> ''DAV:no-lock''" by (simp add: generate_lock_token_def)
qed

lemma token_header:
  assumes "header_str hs ''lock-token'' = Some (''<'' @ generate_lock_token h now @ ''>'')"
  shows "parse_lock_token_header hs = Some (generate_lock_token h now)"
proof -
  let ?t = "generate_lock_token h now"
  obtain u where u: "?t = CHR ''o'' # u" by (simp add: generate_lock_token_def)
  obtain v b where v: "?t = v @ [b]" by (cases ?t rule: rev_cases) (simp_all add: u)
  have b: "32 < byte b" "byte b < 127" "byte b \<noteq> 60" "byte b \<noteq> 62" using token_chars [of b h now] v by auto
  have ne: "b \<noteq> CHR ''<''" "b \<noteq> CHR ''>''" using b(3,4) by (auto simp: byte_def)
  have "trim_matches (CHR ''<'') (''<'' @ ?t @ ''>'') = ?t @ ''>''"
    unfolding trim_matches_def trim_start_matches_def trim_end_matches_def by (simp add: u)
  moreover have "trim_matches (CHR ''>'') (?t @ ''>'') = ?t"
    unfolding trim_matches_def trim_start_matches_def trim_end_matches_def using u v ne by (cases v) auto
  moreover have "trim ?t = ?t" by (rule trim_ascii [OF u v]) (use b in \<open>simp_all add: byte_def\<close>)
  ultimately show ?thesis using assms by (simp add: parse_lock_token_header_def)
qed

subsection \<open>From LOCK to UNLOCK\<close>

definition unlocks_it :: "externals \<Rightarrow> request \<Rightarrow> string \<Rightarrow> string list \<Rightarrow> bool" where
  "unlocks_it x req t ns \<longleftrightarrow>
     req_method req = ''UNLOCK'' \<and> names_path x (req_path req) ns \<and>
     header_str (req_headers req) ''lock-token'' = Some (''<'' @ t @ ''>'')"

lemma unlock_named:
  assumes "ready rn st" "fresh_cache st" "served_tree rn st ns \<noteq> None" "t = generate_lock_token h k"
    and "unlocks_it x req t ns" "entry_of (st_locks st) (abs_path (rn @ ns)) = [l]" "lk_token l = t"
    and "dispatch_handler x now req st = (r, st')"
  shows "reply_status r = NO_CONTENT \<and> ready rn st' \<and> fresh_cache st' \<and> served_tree rn st' = served_tree rn st \<and>
     (\<forall>p. entry_of (st_locks st') p = (if p = abs_path (rn @ ns) then [] else entry_of (st_locks st) p))"
proof -
  let ?p = "abs_path (rn @ ns)"
  have n: "names_path x (req_path req) ns" using assms(5) by (simp add: unlocks_it_def)
  have "state_resolve_existing x st (req_path req) = Some ?p"
    using resolve_existing_named [OF assms(1) n] assms(3) by (simp add: served_tree_def)
  moreover have "parse_lock_token_header (req_headers req) = Some t"
    using token_header assms(4,5) by (simp add: unlocks_it_def)
  moreover have "map_of (st_locks st) ?p = Some [l]" using assms(6) by (simp add: entry_of_def split: option.splits)
  then have "unlock_store ?p t (st_locks st) = (True, AList.update ?p [] (st_locks st))"
    using assms(7) by (simp add: unlock_store_def)
  moreover have d: "dispatch_handler x now req st = handle_unlock x now req st"
    using assms(5) by (simp add: dispatch_handler_def from_http_method_def unlocks_it_def)
  ultimately have h: "r = empty_reply NO_CONTENT" "st' = st\<lparr>st_locks := AList.update ?p [] (st_locks st)\<rparr>"
    using assms(8) by (simp_all add: handle_unlock_def)
  have "app_ok rn st'"
    using app_step_ok [OF unlock_handler.handler_step [OF readyD(1) [OF assms(1)], of x now req]] assms(8) d by simp
  then show ?thesis
    using h assms(1,2) by (simp add: ready_def root_at_def fresh_cache_def entry_of_update served_tree_def fun_eq_iff)
qed

text \<open>
  C5: a lock works as a client expects. An existing resource has no locks, and no collection above it has
  a lock of depth infinity. A LOCK without conditions is granted, with the token in the answer, and
  leaves the tree alone. As long as the lock lasts, a PUT, MKCOL or DELETE of the resource without
  an \<open>If\<close> header is answered 423 and does nothing, and one that presents the token does what it
  would do without any lock. After an UNLOCK with the token, which is answered 204, writes need no
  token.
\<close>

theorem lock_write_unlock:
  assumes "ready rn st" and "fresh_cache st" and "locks_it x lreq ns"
    and "served_tree rn st ns \<noteq> None" and "entry_of (st_locks st) (abs_path (rn @ ns)) = []"
    and "\<And>ms l. strict_prefix ms ns \<Longrightarrow> l \<in> set (entry_of (st_locks st) (abs_path (rn @ ms))) \<Longrightarrow> lk_depth l \<noteq> Infinity"
    and "dispatch_handler x now lreq st = (r, st1)"
  shows "\<exists>l. r = lock_response (lk_token l) (build_lock_response l) OK \<and> served_tree rn st1 = served_tree rn st \<and>
     lk_created l = now \<and> lk_timeout l = granted_for lreq st \<and>
     (\<forall>now2 req m c. \<not> is_expired now2 l \<longrightarrow> writes_to x req m c ns \<longrightarrow>
        (header_str (req_headers req) ''if'' = None \<longrightarrow>
           outcome rn (lock_enforce dispatch_handler x now2 req st1) = (LOCKED, served_tree rn st)) \<and>
        (header_str (req_headers req) ''if'' = Some (''(<'' @ lk_token l @ ''>)'') \<longrightarrow>
           outcome rn (lock_enforce dispatch_handler x now2 req st1) = dav_step m c ns (served_tree rn st))) \<and>
     (\<forall>ureq now2 r2 st2. unlocks_it x ureq (lk_token l) ns \<longrightarrow> dispatch_handler x now2 ureq st1 = (r2, st2) \<longrightarrow>
        reply_status r2 = NO_CONTENT \<and> served_tree rn st2 = served_tree rn st \<and>
        (\<forall>now3 req m c. writes_to x req m c ns \<longrightarrow> header_str (req_headers req) ''if'' = None \<longrightarrow>
           outcome rn (lock_enforce dispatch_handler x now3 req st2) = dav_step m c ns (served_tree rn st)))"
proof -
  have "ns \<noteq> []" using assms(3) names_pathD(1) by (auto simp: locks_it_def)
  then have par: "served_tree rn st (butlast ns) = Some Dir"
    using fs_wf_prefix_dir [OF readyD(3) [OF assms(1)], of "rn @ butlast ns" "[last ns]"] assms(4)
    by (auto simp: served_tree_def)
  obtain l where l: "r = lock_response (lk_token l) (build_lock_response l) OK"
      "lk_token l = generate_lock_token (ext_hash x) now"
      "\<forall>p. entry_of (st_locks st1) p = (if p = abs_path (rn @ ns) then [l] else entry_of (st_locks st) p)"
      "served_tree rn st1 = served_tree rn st" "ready rn st1" "fresh_cache st1"
      "lk_created l = now" "lk_timeout l = granted_for lreq st"
    using lock_granted [OF assms(1-3) par assms(5,7)] assms(4) by auto
  have inj: "abs_path (rn @ ms) \<noteq> abs_path (rn @ ns)" if "strict_prefix ms ns" for ms
  proof -
    have "\<forall>w\<in>set ns. safe_name w" using assms(3) names_pathD(3) by (auto simp: locks_it_def)
    then have "\<forall>w\<in>set (rn @ ns). safe_name w" "\<forall>w\<in>set (rn @ ms). safe_name w"
      using readyD(8) [OF assms(1)] set_mono_prefix [OF prefix_order.less_imp_le [OF that]] by auto
    then show ?thesis using abs_path_inject [of "rn @ ms" "rn @ ns"] that by auto
  qed
  have held: "locked_at now2 (st_locks st1) rn ns" "\<not> refused_with now2 (st_locks st1) (lk_token l) rn ns"
    if "\<not> is_expired now2 l" for now2
    using that l(3) inj assms(6) by (auto simp: locked_at_def refused_with_def holds_token_def)
  have free: "\<not> locked_at now3 (st_locks st2) rn ns"
    if "\<forall>p. entry_of (st_locks st2) p = (if p = abs_path (rn @ ns) then [] else entry_of (st_locks st1) p)" for now3 st2
    using that l(3) inj assms(6) by (auto simp: locked_at_def)
  note un = unlock_named [OF l(5,6) _ l(2), of ns x, unfolded l(4), OF assms(4)]
  show ?thesis
  proof (intro exI [of _ l] conjI allI impI)
    fix now2 req m c
    assume e: "\<not> is_expired now2 l" and w: "writes_to x req m c ns"
    show "outcome rn (lock_enforce dispatch_handler x now2 req st1) = (LOCKED, served_tree rn st)"
      if "header_str (req_headers req) ''if'' = None"
      using write_without_token [OF l(5,6) w that, of now2] held(1) [OF e] par l(4) by simp
    show "outcome rn (lock_enforce dispatch_handler x now2 req st1) = dav_step m c ns (served_tree rn st)"
      if "header_str (req_headers req) ''if'' = Some (''(<'' @ lk_token l @ ''>)'')"
      using write_with_token [OF l(5,6) w that, of now2] token_plain held(2) [OF e] l(2,4) by simp
  next
    fix ureq now2 r2 st2
    assume u: "unlocks_it x ureq (lk_token l) ns" and d: "dispatch_handler x now2 ureq st1 = (r2, st2)"
    have "entry_of (st_locks st1) (abs_path (rn @ ns)) = [l]" using l(3) by simp
    note v = un [OF u this refl d]
    show "reply_status r2 = NO_CONTENT" "served_tree rn st2 = served_tree rn st" using v by simp_all
    show "outcome rn (lock_enforce dispatch_handler x now3 req st2) = dav_step m c ns (served_tree rn st)"
      if "writes_to x req m c ns" "header_str (req_headers req) ''if'' = None" for now3 req m c
      using write_without_token [OF _ _ that, of rn st2 now3] v free [of st2 now3] by simp
  qed (use l in simp_all)
qed

theorem lock_write_unlock_witness:
  "\<exists>tok xml st1. dispatch_handler plain_externals 5 (demo_req ''LOCK'' ''/a/f'' []) plain_state = (lock_response tok xml OK, st1) \<and>
     reply_status (fst (lock_enforce dispatch_handler plain_externals 10 (demo_req ''DELETE'' ''/a/f'' []) st1)) = LOCKED \<and>
     reply_status (fst (lock_enforce dispatch_handler plain_externals 10
       (demo_req ''DELETE'' ''/a/f'' [(''if'', Str (''(<'' @ tok @ ''>)''))]) st1)) = NO_CONTENT"
proof -
  let ?lreq = "demo_req ''LOCK'' ''/a/f'' []"
  obtain r st1 where d: "dispatch_handler plain_externals 5 ?lreq plain_state = (r, st1)" by fastforce
  have lk: "locks_it plain_externals ?lreq [''a'', ''f'']"
    using plain_request(2,4) by (simp add: locks_it_def demo_req_def header_str_def)
  have t: "served_tree [''srv''] plain_state [''a'', ''f''] = Some (File ''data'')"
    by (simp add: served_tree_def plain_state_def app_state_new_def plain_fs_def fs_lookup_def)
  have none: "entry_of (st_locks plain_state) p = []" for p
    by (simp add: plain_state_def app_state_new_def entry_of_def)
  have w: "writes_to plain_externals (demo_req ''DELETE'' ''/a/f'' hs) DELETE [] [''a'', ''f'']" if "\<not> has_body hs" for hs
    using that plain_request(2,4) by (simp add: writes_to_def demo_req_def from_http_method_def)
  from lock_write_unlock [OF plain_ready lk _ none _ d] t none
  obtain l where l: "r = lock_response (lk_token l) (build_lock_response l) OK" "lk_timeout l = granted_for ?lreq plain_state"
      "\<And>now2 req m c. \<not> is_expired now2 l \<Longrightarrow> writes_to plain_externals req m c [''a'', ''f''] \<Longrightarrow>
        (header_str (req_headers req) ''if'' = None \<longrightarrow>
           outcome [''srv''] (lock_enforce dispatch_handler plain_externals now2 req st1) = (LOCKED, served_tree [''srv''] plain_state)) \<and>
        (header_str (req_headers req) ''if'' = Some (''(<'' @ lk_token l @ ''>)'') \<longrightarrow>
           outcome [''srv''] (lock_enforce dispatch_handler plain_externals now2 req st1) =
             dav_step m c [''a'', ''f''] (served_tree [''srv''] plain_state))"
    by auto
  have "\<not> is_expired 10 l"
    using l(2) by (simp add: is_expired_def granted_for_def parse_timeout_def demo_req_def header_str_def plain_state_def app_state_new_def)
  note ww = l(3) [OF this w]
  have b: "\<not> has_body []" "\<not> has_body [(''if'', Str s)]" for s by (simp_all add: has_body_def header_str_def)
  have h: "header_str [] ''if'' = None" "header_str [(''if'', Str s)] ''if'' = Some s" for s by (simp_all add: header_str_def)
  have q: "req_headers (demo_req m p hs) = hs" for m p hs by (simp add: demo_req_def)
  from ww [OF b(1)] ww [OF b(2), of "''(<'' @ lk_token l @ ''>)''"] t d l(1) show ?thesis
    unfolding q h by (auto simp: outcome_def dav_step_def dav_delete_def)
qed

subsection \<open>A lock below a lock\<close>

text \<open>
  LOCK looks at the locks of its own target only. The resource has no lock of its own, but is covered
  by a lock of depth infinity on a collection above it, exclusive or not: a LOCK of it by another
  client, without any token, is granted all the same.
\<close>

theorem lock_below_lock_granted:
  assumes "ready rn st" and "fresh_cache st" and "locks_it x lreq ns" and "served_tree rn st ns \<noteq> None"
    and "entry_of (st_locks st) (abs_path (rn @ ns)) = []" and "locked_at now (st_locks st) rn ns"
    and "dispatch_handler x now lreq st = (r, st1)"
  shows "reply_status r = OK \<and> (\<exists>l. entry_of (st_locks st1) (abs_path (rn @ ns)) = [l])"
proof -
  have "ns \<noteq> []" using assms(3) names_pathD(1) by (auto simp: locks_it_def)
  then have "served_tree rn st (butlast ns) = Some Dir"
    using fs_wf_prefix_dir [OF readyD(3) [OF assms(1)], of "rn @ butlast ns" "[last ns]"] assms(4)
    by (auto simp: served_tree_def)
  from lock_granted [OF assms(1-3) this assms(5,7)] assms(4) show ?thesis
    by (auto simp: lock_response_def)
qed

end
