(* ===== verification/Overwrite.thy ===== *)
theory Overwrite
  imports Copy_Exact
begin

section \<open>COPY and MOVE onto what exists\<close>

text \<open>
  What COPY and MOVE do to a target that exists already: a file replaces a file, collections are
  merged, and two cases in which data is lost: a target that is an ancestor of the source, and a
  target that is the source itself. Also what becomes of the dead properties.
\<close>

definition named_transfer ::
  "externals \<Rightarrow> string list \<Rightarrow> app_state \<Rightarrow> request \<Rightarrow> string list \<Rightarrow> string list \<Rightarrow> bool" where
  "named_transfer x rn st req s d \<longleftrightarrow>
     ready rn st \<and> fresh_cache st \<and> names_path x (req_path req) s \<and>
     (\<exists>dest. parse_destination (ext_pct x) (req_headers req) = Some dest \<and> names_path x dest d) \<and>
     served_tree rn st s \<noteq> None \<and> served_tree rn st (butlast d) = Some Dir"

lemma fresh_named: "fresh_transfer x rn st req s d \<Longrightarrow> named_transfer x rn st req s d"
  by (auto simp: fresh_transfer_def named_transfer_def)

lemma named_transferE:
  assumes "named_transfer x rn st req s d" "do_move_or_copy is_move x now req st = (r, st')"
    and "s \<noteq> d \<or> \<not> starts_with (st_root_dir st) ''/''"
  obtains st1 n dd w where "st_fs st1 = st_fs st" "st_dead_props st1 = st_dead_props st" "ready rn st"
    "fs_lookup (st_fs st) (rn @ s) = Some n" "d = dd @ [w]" "valid_name w"
    "fs_lookup (st_fs st) (rn @ dd) = Some Dir" "\<forall>v\<in>set (rn @ d). safe_name v"
    "(r, st') = transfer x is_move (parse_overwrite (req_headers req)) (parse_depth (req_headers req))
       (abs_path (rn @ s)) (abs_path (rn @ d)) st1"
proof -
  obtain dest where rdy: "ready rn st" and fr: "fresh_cache st" and ns: "names_path x (req_path req) s"
    and dest: "parse_destination (ext_pct x) (req_headers req) = Some dest" "names_path x dest d"
    and t: "served_tree rn st s \<noteq> None" "served_tree rn st (butlast d) = Some Dir"
    using assms(1) unfolding named_transfer_def by blast
  note rd = readyD [OF rdy]
  obtain n where n: "fs_lookup (st_fs st) (rn @ s) = Some n" using t(1) by (auto simp: served_tree_def)
  obtain dd w where d: "d = dd @ [w]" "\<forall>v\<in>set (dd @ [w]). valid_name v" by (rule names_snoc [OF dest(2)])
  obtain g st1 where g: "state_resolve_and_guard x st dest = (g, st1)" by fastforce
  have gi: "g = Inr (abs_path (rn @ d))"
    using guard_named(2) [OF rdy dest(2) fr g] t(2) by (simp add: served_tree_def)
  have vs: "\<forall>w\<in>set (rn @ s). valid_name w" using fs_wf_lookup(1) [OF rd(3) n] .
  have "\<not> path_eq (abs_path (rn @ s)) (path_join (st_root_dir st) (join_with ''/'' d))"
  proof
    let ?p = "path_join (st_root_dir st) (join_with ''/'' d)"
    assume eq: "path_eq (abs_path (rn @ s)) ?p"
    then have "s = d" by (rule join_components [OF rd(2,5) dest(2) vs])
    with assms(3) have "\<not> starts_with (st_root_dir st) ''/''" by simp
    moreover have "st_root_dir st \<noteq> []" using rd(5) by (auto simp: resolve_def)
    moreover have "\<not> starts_with (join_with ''/'' d) ''/''"
    proof -
      obtain v vs where v: "d = v # vs" using names_pathD(1) [OF dest(2)] by (cases d) auto
      with names_pathD(3) [OF dest(2)] have "v \<noteq> []" "sep \<notin> set v" by (auto simp: safe_name_def)
      with hd_join_with [of v vs] v show ?thesis by (metis hd_in_set)
    qed
    ultimately have "\<not> starts_with ?p ''/''"
      by (cases "st_root_dir st") (auto simp: path_join_def starts_with_def)
    moreover have "components ?p = RootDir # map Normal (rn @ s)"
      using eq components_abs_path [OF valid_safe_list [OF vs]] by (simp add: path_eq_def)
    ultimately have "RootDir \<in> set (List.map_filter seg_component (split_on sep ?p))"
      by (auto simp: components_def Let_def split: if_splits)
    then show False using no_root_dir by blast
  qed
  then have "(r, st') = transfer x is_move (parse_overwrite (req_headers req)) (parse_depth (req_headers req))
       (abs_path (rn @ s)) (abs_path (rn @ d)) st1"
    using assms(2) resolve_existing_named [OF rdy ns] n write_target_named [OF rdy dest(2)] dest(1) g gi
    by (simp add: do_move_or_copy_def opt_or_status_def Let_def)
  moreover have "\<forall>v\<in>set (rn @ d). safe_name v" using rd(8) names_pathD(3) [OF dest(2)] by auto
  ultimately show thesis
    using that n d t rdy guard_frame_fields [OF g] by (simp add: served_tree_def)
qed

subsection \<open>A target above the source\<close>

lemma copy_content_missing:
  assumes "tree_ok rn f" "\<forall>v\<in>set (rn @ s). safe_name v" "fs_lookup f (rn @ s) = None"
  shows "\<exists>e. copy_content f (abs_path (rn @ s)) p = (Inl e, f)"
  using resolve_below [OF assms(1,2)] assms(3)
  by (cases "resolve f (abs_path (rn @ s))") (auto simp: copy_content_def)

text \<open>
  C32: COPY or MOVE of a file onto a collection above it destroys the collection and the file. The
  target exists and the request may overwrite (the default), so that the collection, which is no
  file, is removed with all its members before the file in it is opened: the answer is 500, nothing
  was copied, and everything from the target on down is gone.
\<close>

theorem copy_onto_ancestor_destroys:
  assumes "named_transfer x rn st req s d" and "strict_prefix d s" and "served_tree rn st s = Some (File c)"
    and "req_method req \<in> {''COPY'', ''MOVE''}" and "parse_overwrite (req_headers req)"
    and "dispatch_handler x now req st = (r, st')"
  shows "reply_status r = INTERNAL_SERVER_ERROR \<and>
     served_tree rn st' = (\<lambda>q. if prefix d q then None else served_tree rn st q)"
proof -
  let ?f = "st_fs st"
  obtain mv where h: "do_move_or_copy mv x now req st = (r, st')"
    using assms(4,6) by (auto simp: dispatch_handler_def from_http_method_def handle_copy_def handle_move_def)
  have ne: "s \<noteq> d \<or> \<not> starts_with (st_root_dir st) ''/''" using assms(2) by auto
  obtain st1 n dd w where st1: "st_fs st1 = ?f" and rdy: "ready rn st" and n: "fs_lookup ?f (rn @ s) = Some n"
    and d: "d = dd @ [w]" and safe: "\<forall>v\<in>set (rn @ d). safe_name v"
    and tr: "(r, st') = transfer x mv (parse_overwrite (req_headers req)) (parse_depth (req_headers req))
       (abs_path (rn @ s)) (abs_path (rn @ d)) st1"
    by (rule named_transferE [OF assms(1) h ne])
  note rd = readyD [OF rdy]
  obtain u where u: "s = d @ u" "u \<noteq> []" using assms(2) by (auto elim: strict_prefixE')
  have dir: "fs_lookup ?f (rn @ d) = Some Dir"
    using fs_wf_prefix_dir [OF rd(3), of "rn @ d" u] n u by simp
  have n': "n = File c" using assms(3) n by (simp add: served_tree_def)
  have D: "rn @ d = (rn @ dd) @ [w]" using d by simp
  let ?f1 = "fs_remove (rn @ d) ?f"
  have rm: "remove_dir_all ?f (abs_path (rn @ d)) = (Inr (), ?f1)"
    using removal_child(1) [OF rd(3,4), of "rn @ dd" w Dir] dir D by simp
  have meta: "stat_path x ?f (abs_path (rn @ s)) = Inr (node_meta x (rn @ s) (File c))"
      "stat_path x ?f (abs_path (rn @ d)) = Inr (node_meta x (rn @ d) Dir)" "path_exists ?f (abs_path (rn @ d))"
    using metadata_abs(2) [OF rd(3,4) n, of x] metadata_abs(2,3) [OF rd(3,4) dir] n' by simp_all
  have cl: "clear_target x ?f (node_meta x (rn @ s) (File c)) (abs_path (rn @ d)) True True = (False, ?f1)"
    using meta rm by (simp add: clear_target_def node_meta_def)
  have "below rn (abs_path (rn @ d))" unfolding below_def using safe d by (intro exI [of _ d]) simp
  then have t1: "tree_ok rn ?f1" using fs_step_tree [OF clear_target_step [OF rd(2) _ cl]] by simp
  have gone: "fs_lookup ?f1 (rn @ s) = None" using u d by (simp add: fs_lookup_remove)
  have "\<forall>v\<in>set (rn @ s). safe_name v" by (rule valid_safe_list [OF fs_wf_lookup(1) [OF rd(3) n]])
  then obtain e where "copy_content ?f1 (abs_path (rn @ s)) (abs_path (rn @ d)) = (Inl e, ?f1)"
    using copy_content_missing [OF t1 _ gone] by blast
  then have "r = Inl INTERNAL_SERVER_ERROR" "st_fs st' = ?f1"
    using tr meta cl st1 assms(5)
    by (simp_all add: transfer_def Let_def or_status_def copy_resource_def copy_file_def node_meta_def)
  then show ?thesis using d by (auto simp: served_tree_def fs_lookup_remove fun_eq_iff)
qed

subsection \<open>A target that is the source\<close>

lemma copy_content_onto:
  assumes "fs_wf f" "undisturbed f" "fs_lookup f s = Some (File c)" "fs_lookup f d = Some Dir" "valid_name w"
    and "fs_lookup f (d @ [w]) = Some (File b)"
  shows "copy_content f (abs_path s) (abs_path (d @ [w])) =
     (Inr (), fs_set (d @ [w]) (File (if d @ [w] = s then [] else c)) f)"
  using open_target_child [OF assms(1,4,5)] resolve_abs_path [OF assms(1,3)] assms(2,3,6)
  by (auto simp: copy_content_def)

lemma transfer_file_onto_file:
  assumes "tree_ok rn f" "undisturbed f" "st_fs st1 = f" "fs_lookup f (rn @ s) = Some (File c)" "d = dd @ [w]" "valid_name w"
    and "fs_lookup f (rn @ dd) = Some Dir" "fs_lookup f (rn @ d) = Some (File b)"
    and tr: "(r, st') = transfer x is_move True depth (abs_path (rn @ s)) (abs_path (rn @ d)) st1"
  shows "r = empty_reply NO_CONTENT" and "st_fs st' =
     finish_move (fs_set (rn @ d) (File (if d = s then [] else c)) f) is_move False (abs_path (rn @ s)) (abs_path (rn @ d))"
proof -
  note wf = tree_okD(1) [OF assms(1)]
  have "stat_path x f (abs_path (rn @ s)) = Inr (node_meta x (rn @ s) (File c))"
      "stat_path x f (abs_path (rn @ d)) = Inr (node_meta x (rn @ d) (File b))" "path_exists f (abs_path (rn @ d))"
    using metadata_abs(2) [OF wf assms(2,4), of x] metadata_abs(2,3) [OF wf assms(2,8)] by simp_all
  moreover have "copy_content f (abs_path (rn @ s)) (abs_path (rn @ d)) =
      (Inr (), fs_set (rn @ d) (File (if d = s then [] else c)) f)"
    using copy_content_onto [OF wf assms(2,4,7,6), of b] assms(5,8) by simp
  ultimately show "r = empty_reply NO_CONTENT" "st_fs st' =
     finish_move (fs_set (rn @ d) (File (if d = s then [] else c)) f) is_move False (abs_path (rn @ s)) (abs_path (rn @ d))"
    using tr assms(3)
    by (simp_all add: transfer_def Let_def or_status_def clear_target_def copy_resource_def copy_file_def node_meta_def)
qed

text \<open>
  C33: COPY or MOVE of a file onto itself empties it when the root directory was given as a relative
  path, as it is by default. The handler compares the canonical source with the target below the
  root as given, finds them different, and copies the file onto itself, which truncates it: the
  answer is 204, the file is there with no content, and nothing else has changed.
\<close>

theorem copy_onto_itself_empties:
  assumes "named_transfer x rn st req s s" and "served_tree rn st s = Some (File c)"
    and "\<not> starts_with (st_root_dir st) ''/''"
    and "req_method req \<in> {''COPY'', ''MOVE''}" and "parse_overwrite (req_headers req)"
    and "dispatch_handler x now req st = (r, st')"
  shows "reply_status r = NO_CONTENT \<and> served_tree rn st' = (served_tree rn st)(s \<mapsto> File [])"
proof -
  let ?f = "st_fs st"
  obtain mv where h: "do_move_or_copy mv x now req st = (r, st')"
    using assms(4,6) by (auto simp: dispatch_handler_def from_http_method_def handle_copy_def handle_move_def)
  have ne: "s \<noteq> s \<or> \<not> starts_with (st_root_dir st) ''/''" using assms(3) by simp
  obtain st1 n dd w where st1: "st_fs st1 = ?f" and rdy: "ready rn st"
    and d: "s = dd @ [w]" "valid_name w" "fs_lookup ?f (rn @ dd) = Some Dir"
    and tr: "(r, st') = transfer x mv (parse_overwrite (req_headers req)) (parse_depth (req_headers req))
       (abs_path (rn @ s)) (abs_path (rn @ s)) st1"
    by (rule named_transferE [OF assms(1) h ne])
  note rd = readyD [OF rdy]
  have f: "fs_lookup ?f (rn @ s) = Some (File c)" using assms(2) by (simp add: served_tree_def)
  have tr': "(r, st') = transfer x mv True (parse_depth (req_headers req)) (abs_path (rn @ s)) (abs_path (rn @ s)) st1"
    using tr assms(5) by simp
  note t = transfer_file_onto_file [OF rd(2,4) st1 f d f tr']
  let ?f1 = "fs_set (rn @ s) (File []) ?f"
  have "finish_move ?f1 mv False (abs_path (rn @ s)) (abs_path (rn @ s)) = ?f1"
  proof (cases mv)
    case True
    have D: "rn @ s = (rn @ dd) @ [w]" using d by simp
    have f1: "fs_wf ?f1" "fs_lookup ?f1 (rn @ dd) = Some Dir" "fs_lookup ?f1 (rn @ s) = Some (File [])"
        "\<not> fs_deny ?f1 Op_rename (abs_path (rn @ s))"
      using fs_wf_set [OF rd(3) d(3,2), of "File []"] f d(3) rd(4) D
      by (auto simp: fs_lookup_set undisturbed_def)
    have "locate ?f1 (abs_path (rn @ s)) = Inr (rn @ dd, w)"
      using locate_child [OF f1(1,2) _ d(2)] D by simp
    with f1(3,4) D True show ?thesis by (simp add: finish_move_def rename_def)
  qed (simp add: finish_move_def)
  with t show ?thesis by (auto simp: served_tree_def fs_lookup_set fun_eq_iff d)
qed

subsection \<open>Files replace files\<close>

lemma move_file_onto_file:
  assumes "fs_wf f" "undisturbed f" "fs_lookup f S = Some (File c)" "S = ss @ [v]" "D = dd @ [w]" "valid_name w"
    and "fs_lookup f dd = Some Dir" "fs_lookup f D = Some (File b)" "S \<noteq> D"
  shows "fs_lookup (finish_move (fs_set D (File c) f) True False (abs_path S) (abs_path D)) q =
     (if q = D then Some (File c) else if q = S then None else fs_lookup f q)"
proof -
  let ?f1 = "fs_set D (File c) f"
  have np: "\<not> prefix S D" "\<not> prefix D S"
    using fs_wf_prefix_dir [OF assms(1), of S] fs_wf_prefix_dir [OF assms(1), of D] assms(3,8,9)
    by (auto elim!: prefixE)
  have f1: "fs_wf ?f1" "fs_lookup ?f1 dd = Some Dir" "fs_lookup ?f1 S = Some (File c)" "fs_lookup ?f1 D = Some (File c)"
      "\<not> fs_deny ?f1 Op_rename (abs_path S)"
    using fs_wf_set [OF assms(1,7,6), of "File c"] assms np by (auto simp: fs_lookup_set undisturbed_def)
  have S: "fs_lookup ?f1 ss = Some Dir" "valid_name v" using fs_wf_lookup [OF f1(1,3)] assms(4) by simp_all
  have l: "locate ?f1 (abs_path S) = Inr (ss, v)" "locate ?f1 (abs_path D) = Inr (dd, w)"
    using locate_child [OF f1(1) S(1) _ S(2)] locate_child [OF f1(1,2) _ assms(6)] assms(4,5) by simp_all
  let ?f2 = "fs_remove D ?f1"
  have "finish_move ?f1 True False (abs_path S) (abs_path D) = fs_move S D ?f2"
    using l f1(3,4,5) assms(4,5,9) by (auto simp: finish_move_def rename_def Let_def)
  moreover have w2: "fs_wf ?f2" by (rule fs_wf_remove) (use f1(1) assms(5) in simp_all)
  moreover have "fs_lookup (fs_move S D ?f2) q =
      (if prefix D q then fs_lookup ?f2 (S @ drop (length D) q) else if prefix S q then None else fs_lookup ?f2 q)"
    by (rule fs_lookup_move [OF w2]) (use np assms(4,5) in \<open>auto simp: fs_lookup_remove\<close>)
  moreover have sub: "fs_lookup ?f2 (S @ u) = (if u = [] then Some (File c) else None)" for u
  proof -
    have "\<not> prefix D (S @ u)"
      using np by (metis prefix_same_cases prefixI)
    then have "fs_lookup ?f2 (S @ u) = fs_lookup ?f1 (S @ u)" using assms(5) by (simp add: fs_lookup_remove)
    then show ?thesis using f1(3) fs_wf_prefix_dir [OF f1(1), of S u] by (cases "fs_lookup ?f1 (S @ u)") auto
  qed
  moreover have "fs_lookup ?f2 q = fs_lookup f q" if "\<not> prefix D q"
    using that assms(5) by (auto simp: fs_lookup_remove fs_lookup_set)
  moreover have "fs_lookup f q = None" if "prefix D q" "q \<noteq> D"
    using that fs_wf_prefix_dir [OF assms(1), of D] assms(8) by (cases "fs_lookup f q") (auto elim!: prefixE)
  moreover have "fs_lookup f q = None" if "prefix S q" "q \<noteq> S"
    using that fs_wf_prefix_dir [OF assms(1), of S] assms(3) by (cases "fs_lookup f q") (auto elim!: prefixE)
  ultimately show ?thesis using assms(9) sub [of "[]"] by (auto elim!: prefixE)
qed

text \<open>
  C18: the \<open>Overwrite\<close> header is respected. With \<open>F\<close> a COPY or MOVE to another target that exists is
  answered 412, and neither the tree nor the dead properties change. Otherwise a file replaces a
  file: the answer is 204, the target has the content of the source, and the source stays with
  COPY and is gone with MOVE; nothing else changes in the tree.
\<close>

theorem overwrite_header_respected:
  assumes "named_transfer x rn st req s d" and "s \<noteq> d" and "served_tree rn st d \<noteq> None"
    and "req_method req = (if is_move then ''MOVE'' else ''COPY'')"
    and "dispatch_handler x now req st = (r, st')"
  shows "(\<not> parse_overwrite (req_headers req) \<longrightarrow>
       reply_status r = PRECONDITION_FAILED \<and> served_tree rn st' = served_tree rn st \<and> st_dead_props st' = st_dead_props st) \<and>
    (parse_overwrite (req_headers req) \<and> served_tree rn st s = Some (File c) \<and> served_tree rn st d = Some (File b) \<longrightarrow>
       reply_status r = NO_CONTENT \<and>
       served_tree rn st' = (if is_move then (served_tree rn st)(s := None, d \<mapsto> File c) else (served_tree rn st)(d \<mapsto> File c)))"
proof -
  let ?f = "st_fs st"
  have h: "do_move_or_copy is_move x now req st = (r, st')"
    using assms(4,5) by (auto simp: dispatch_handler_def from_http_method_def handle_copy_def handle_move_def split: if_splits)
  obtain st1 n dd w where st1: "st_fs st1 = ?f" "st_dead_props st1 = st_dead_props st" and rdy: "ready rn st"
    and n: "fs_lookup ?f (rn @ s) = Some n"
    and d: "d = dd @ [w]" "valid_name w" "fs_lookup ?f (rn @ dd) = Some Dir"
    and tr: "(r, st') = transfer x is_move (parse_overwrite (req_headers req)) (parse_depth (req_headers req))
       (abs_path (rn @ s)) (abs_path (rn @ d)) st1"
    by (rule named_transferE [OF assms(1) h disjI1 [OF assms(2)]])
  note rd = readyD [OF rdy]
  obtain b' where b': "fs_lookup ?f (rn @ d) = Some b'" "\<forall>t. b' \<noteq> Symlink t"
    using assms(3) no_link [OF rdy] by (auto simp: served_tree_def)
  show ?thesis
  proof (intro conjI impI; (elim conjE)?)
    assume "\<not> parse_overwrite (req_headers req)"
    with tr metadata_abs(3) [OF rd(3,4) b'] st1 have r: "r = Inl PRECONDITION_FAILED" "st' = st1"
      by (simp_all add: transfer_def Let_def)
    show "reply_status r = PRECONDITION_FAILED" "served_tree rn st' = served_tree rn st"
      "st_dead_props st' = st_dead_props st"
      using r st1 served_tree_same_fs [of st1 st rn] by simp_all
  next
    assume ow: "parse_overwrite (req_headers req)" and sf: "served_tree rn st s = Some (File c)"
      and df: "served_tree rn st d = Some (File b)"
    have f: "fs_lookup ?f (rn @ s) = Some (File c)" "fs_lookup ?f (rn @ d) = Some (File b)"
      using sf df by (simp_all add: served_tree_def)
    have tr': "(r, st') = transfer x is_move True (parse_depth (req_headers req)) (abs_path (rn @ s)) (abs_path (rn @ d)) st1"
      using tr ow by simp
    note t = transfer_file_onto_file [OF rd(2,4) st1(1) f(1) d f(2) tr']
    show "reply_status r = NO_CONTENT" using t(1) by simp
    obtain ms v where s: "s = ms @ [v]" using assms(1) unfolding named_transfer_def by (metis names_snoc)
    have S: "rn @ s = (rn @ ms) @ [v]" and D: "rn @ d = (rn @ dd) @ [w]" using s d by simp_all
    have ne: "rn @ s \<noteq> rn @ d" using assms(2) by simp
    show "served_tree rn st' = (if is_move then (served_tree rn st)(s := None, d \<mapsto> File c) else (served_tree rn st)(d \<mapsto> File c))"
    proof (cases is_move)
      case True
      have "fs_lookup (st_fs st') q = (if q = rn @ d then Some (File c) else if q = rn @ s then None else fs_lookup ?f q)" for q
        using move_file_onto_file [OF rd(3,4) f(1) S D d(2,3) f(2) ne, of q] t(2) True assms(2) by simp
      then show ?thesis using True by (auto simp: served_tree_def fun_eq_iff)
    next
      case False
      then show ?thesis using t(2) assms(2) d(1) by (auto simp: served_tree_def fun_eq_iff finish_move_def fs_lookup_set)
    qed
  qed
qed

subsection \<open>Collections are merged\<close>

lemma copy_listing_keeps: "copy_listing sd dd listing stack f = (r, f') \<Longrightarrow> keeps_nodes f f'"
proof (induction sd dd listing stack f rule: copy_listing.induct)
  case (2 sd dd entry rest stack f)
  obtain r1 f1 where e: "copy_entry sd dd entry f = (r1, f1)" by fastforce
  show ?case
  proof (cases r1)
    case (Inr pushed)
    with 2 e have "keeps_nodes f1 f'" by simp
    with copy_entry_keeps [OF e] show ?thesis by (rule keeps_nodes_trans)
  qed (use 2 e copy_entry_keeps [OF e] in simp)
qed simp

lemma copy_loop_keeps: "copy_loop stack f = Some res \<Longrightarrow> keeps_nodes f (snd res)"
proof (induction rule: copy_loop_induct)
  case (again s d rest f stack1 f1 res)
  then have "keeps_nodes f f1" by (auto simp: copy_step_def split: sum.splits dest: copy_listing_keeps)
  then show ?case using again keeps_nodes_trans by blast
qed (auto simp: copy_step_def split: sum.splits dest: copy_listing_keeps)

text \<open>
  C19: a COPY of a collection onto a collection takes nothing away, also with \<open>Overwrite: T\<close>. Whatever
  the answer, every node of the tree is there afterwards, collections as collections: the members
  that the target had and the source has not are still below the target after a copy with answer
  204, where the target should have become a copy of the source.
\<close>

theorem copy_merges_collections:
  assumes "named_transfer x rn st req s d" and "s \<noteq> d"
    and "served_tree rn st s = Some Dir" and "served_tree rn st d = Some Dir"
    and "req_method req = ''COPY''" and "dispatch_handler x now req st = (r, st')"
    and "served_tree rn st q = Some n"
  shows "\<exists>m. served_tree rn st' q = Some m \<and> (m = Dir \<longleftrightarrow> n = Dir)"
proof -
  let ?f = "st_fs st"
  have h: "do_move_or_copy False x now req st = (r, st')"
    using assms(5,6) by (simp add: dispatch_handler_def from_http_method_def handle_copy_def)
  obtain st1 where st1: "st_fs st1 = ?f" and rdy: "ready rn st"
    and tr: "(r, st') = transfer x False (parse_overwrite (req_headers req)) (parse_depth (req_headers req))
       (abs_path (rn @ s)) (abs_path (rn @ d)) st1"
    by (rule named_transferE [OF assms(1) h disjI1 [OF assms(2)]])
  note rd = readyD [OF rdy]
  have "fs_lookup ?f (rn @ s) = Some Dir" "fs_lookup ?f (rn @ d) = Some Dir"
    using assms(3,4) by (simp_all add: served_tree_def)
  note m = metadata_abs(2) [OF rd(3,4) this(1), of x] metadata_abs(2) [OF rd(3,4) this(2), of x]
    metadata_abs(3) [OF rd(3,4) this(2)]
  have "keeps_nodes ?f (st_fs st')"
    using tr m st1 copy_loop_keeps [of _ ?f]
    by (fastforce simp: transfer_def Let_def or_status_def clear_target_def node_meta_def copy_resource_def copy_dir_def
        finish_move_def split: if_splits option.splits sum.splits)
  with assms(7) show ?thesis by (auto simp: keeps_nodes_def served_tree_def)
qed

subsection \<open>Dead properties of what was moved\<close>

lemma migrate_get:
  "map_of (migrate_dead_props mv p q dead) k =
     (case map_of dead p of
        None \<Rightarrow> map_of dead k
      | Some v \<Rightarrow> if k = q then Some v else if k = p \<and> mv then None else map_of dead k)"
  by (auto simp: migrate_dead_props_def Let_def update_conv' delete_conv' split: option.splits)

text \<open>
  Only the properties of the resource itself follow a COPY or MOVE. After a transfer to a new
  place that was answered 201, the target has the dead properties of the source, if it has any, and
  whatever the store held for its path before, otherwise. Every other entry of the store is as it
  was, the one of the source is removed by MOVE: the members of a moved collection are at their new
  paths without their properties, which stay in the store under the old ones.
\<close>

theorem dead_props_follow_target_only:
  assumes "fresh_transfer x rn st req s d"
    and "req_method req = (if is_move then ''MOVE'' else ''COPY'')"
    and "is_move \<or> parse_depth (req_headers req) \<noteq> Zero \<or> served_tree rn st s \<noteq> Some Dir"
    and "dispatch_handler x now req st = (r, st')"
  shows "reply_status r = CREATED \<and>
    map_of (st_dead_props st') p =
      (case map_of (st_dead_props st) (abs_path (rn @ s)) of
         None \<Rightarrow> map_of (st_dead_props st) p
       | Some props \<Rightarrow>
           if p = abs_path (rn @ d) then Some props
           else if p = abs_path (rn @ s) \<and> is_move then None
           else map_of (st_dead_props st) p)"
proof -
  have h: "do_move_or_copy is_move x now req st = (r, st')"
    using assms(2,4) by (auto simp: dispatch_handler_def from_http_method_def handle_copy_def handle_move_def split: if_splits)
  have fr: "fs_lookup (st_fs st) (rn @ d) = None" "\<not> prefix s d" "s \<noteq> d"
    using assms(1) by (auto simp: fresh_transfer_def served_tree_def)
  obtain st1 n dd w where st1: "st_fs st1 = st_fs st" "st_dead_props st1 = st_dead_props st" and rdy: "ready rn st"
    and n: "fs_lookup (st_fs st) (rn @ s) = Some n"
    and d: "d = dd @ [w]" "valid_name w" "fs_lookup (st_fs st) (rn @ dd) = Some Dir"
    and tr: "(r, st') = transfer x is_move (parse_overwrite (req_headers req)) (parse_depth (req_headers req))
       (abs_path (rn @ s)) (abs_path (rn @ d)) st1"
    by (rule named_transferE [OF fresh_named [OF assms(1)] h disjI1 [OF fr(3)]])
  have dep: "is_move \<or> parse_depth (req_headers req) \<noteq> Zero \<or> n \<noteq> Dir"
    using assms(3) n by (auto simp: served_tree_def)
  obtain f2 where "r = empty_reply CREATED"
    "st_dead_props st' = migrate_dead_props is_move (abs_path (rn @ s)) (abs_path (rn @ d)) (st_dead_props st1)"
    by (rule transfer_fresh [OF readyD(2,4) [OF rdy] st1(1) n d fr(1,2) dep tr])
  then show ?thesis using st1(2) by (simp add: migrate_get)
qed

subsection \<open>On a small tree\<close>

text \<open>\<open>/srv/a\<close> is a collection with the file \<open>f\<close>, and \<open>/srv/c\<close> and \<open>/srv/g\<close> stand beside it.\<close>

definition wide_fs :: fs where
  "wide_fs =
     \<lparr>fs_nodes =
        [([''srv''], Dir), ([''srv'', ''a''], Dir), ([''srv'', ''a'', ''f''], File ''data''), ([''srv'', ''c''], Dir),
         ([''srv'', ''c'', ''k''], File ''kept''), ([''srv'', ''g''], File ''old'')],
      fs_cwd = [], fs_deny = (\<lambda>_ _. False)\<rparr>"

definition wide_state :: app_state where
  "wide_state = app_state_new wide_fs ''./srv/'' 0"

lemma wide_ready: "ready [''srv''] wide_state" "fresh_cache wide_state" "\<not> starts_with (st_root_dir wide_state) ''/''"
proof -
  have "tree_ok [''srv''] wide_fs"
    unfolding tree_ok_def
    by (simp add: fs_wf_def real_node_def wide_fs_def fs_lookup_def valid_name_def safe_name_def)
  moreover have "resolve wide_fs ''./srv/'' = Inr [''srv'']" by code_simp
  moreover have "undisturbed wide_fs" by (simp add: undisturbed_def wide_fs_def)
  ultimately show "ready [''srv''] wide_state"
    by (auto simp: ready_def app_ok_def state_ok_def root_at_def wide_state_def app_state_new_def
        canonicalize_def tree_ok_def store_ok_def valid_name_def safe_name_def)
  show "fresh_cache wide_state" "\<not> starts_with (st_root_dir wide_state) ''/''"
    by (simp_all add: fresh_cache_def wide_state_def app_state_new_def starts_with_def)
qed

lemma wide_nodes:
  "served_tree [''srv''] wide_state [] = Some Dir" "served_tree [''srv''] wide_state [''a''] = Some Dir"
  "served_tree [''srv''] wide_state [''a'', ''f''] = Some (File ''data'')"
  "served_tree [''srv''] wide_state [''b''] = None"
  "served_tree [''srv''] wide_state [''c''] = Some Dir" "served_tree [''srv''] wide_state [''c'', ''k''] = Some (File ''kept'')"
  "served_tree [''srv''] wide_state [''g''] = Some (File ''old'')"
  by (simp_all add: served_tree_def wide_state_def app_state_new_def wide_fs_def fs_lookup_def)

lemma wide_paths:
  "names_path plain_externals ''/a'' [''a'']" "names_path plain_externals ''/a/f'' [''a'', ''f'']"
  "names_path plain_externals ''/b'' [''b'']" "names_path plain_externals ''/c'' [''c'']"
  "names_path plain_externals ''/g'' [''g'']"
  by (simp_all add: names_path_def plain_externals_def valid_name_def safe_name_def trim_start_matches_def)

lemma wide_destinations:
  "parse_destination (ext_pct plain_externals) [(''destination'', Str ''http://h/a'')] = Some ''/a''"
  "parse_destination (ext_pct plain_externals) [(''destination'', Str ''http://h/b'')] = Some ''/b''"
  "parse_destination (ext_pct plain_externals) [(''destination'', Str ''http://h/c'')] = Some ''/c''"
  "parse_destination (ext_pct plain_externals) [(''destination'', Str ''http://h/g'')] = Some ''/g''"
  "parse_destination (ext_pct plain_externals) [(''overwrite'', Str ''f''), (''destination'', Str ''http://h/g'')] = Some ''/g''"
  by (simp_all add: plain_externals_def) code_simp+

lemma wide_transfer:
  assumes "names_path plain_externals p s" "parse_destination (ext_pct plain_externals) hs = Some dp"
    "names_path plain_externals dp d" "served_tree [''srv''] wide_state s \<noteq> None"
    "served_tree [''srv''] wide_state (butlast d) = Some Dir"
  shows "named_transfer plain_externals [''srv''] wide_state (demo_req m p hs) s d"
  using assms wide_ready by (auto simp: named_transfer_def demo_req_def)

theorem copy_onto_ancestor_destroys_witness:
  "reply_status (fst (dispatch_handler plain_externals 0
      (demo_req ''COPY'' ''/a/f'' [(''destination'', Str ''http://h/a'')]) wide_state)) = INTERNAL_SERVER_ERROR \<and>
   served_tree [''srv''] (snd (dispatch_handler plain_externals 0
      (demo_req ''COPY'' ''/a/f'' [(''destination'', Str ''http://h/a'')]) wide_state)) [''a'', ''f''] = None"
proof -
  let ?req = "demo_req ''COPY'' ''/a/f'' [(''destination'', Str ''http://h/a'')]"
  have t: "named_transfer plain_externals [''srv''] wide_state ?req [''a'', ''f''] [''a'']"
    by (rule wide_transfer [OF wide_paths(2) wide_destinations(1) wide_paths(1)]) (simp_all add: wide_nodes)
  obtain r st' where h: "dispatch_handler plain_externals 0 ?req wide_state = (r, st')" by fastforce
  have "strict_prefix [''a''] [''a'', ''f'']" "parse_overwrite (req_headers ?req)" "req_method ?req \<in> {''COPY'', ''MOVE''}"
    by (simp_all add: strict_prefix_def parse_overwrite_def header_str_def demo_req_def to_ascii_uppercase_def to_upper_def byte_def)
  from copy_onto_ancestor_destroys [OF t this(1) wide_nodes(3) this(3,2) h] h show ?thesis by simp
qed

theorem copy_onto_itself_empties_witness:
  "reply_status (fst (dispatch_handler plain_externals 0
      (demo_req ''MOVE'' ''/g'' [(''destination'', Str ''http://h/g'')]) wide_state)) = NO_CONTENT \<and>
   served_tree [''srv''] (snd (dispatch_handler plain_externals 0
      (demo_req ''MOVE'' ''/g'' [(''destination'', Str ''http://h/g'')]) wide_state)) [''g''] = Some (File [])"
proof -
  let ?req = "demo_req ''MOVE'' ''/g'' [(''destination'', Str ''http://h/g'')]"
  have t: "named_transfer plain_externals [''srv''] wide_state ?req [''g''] [''g'']"
    by (rule wide_transfer [OF wide_paths(5) wide_destinations(4) wide_paths(5)]) (simp_all add: wide_nodes)
  obtain r st' where h: "dispatch_handler plain_externals 0 ?req wide_state = (r, st')" by fastforce
  have "parse_overwrite (req_headers ?req)" "req_method ?req \<in> {''COPY'', ''MOVE''}"
    by (simp_all add: parse_overwrite_def header_str_def demo_req_def to_ascii_uppercase_def to_upper_def byte_def)
  from copy_onto_itself_empties [OF t wide_nodes(7) wide_ready(3) this(2,1) h] h show ?thesis by simp
qed

theorem overwrite_header_respected_witness:
  "reply_status (fst (dispatch_handler plain_externals 0
      (demo_req ''MOVE'' ''/a/f'' [(''overwrite'', Str ''f''), (''destination'', Str ''http://h/g'')]) wide_state)) = PRECONDITION_FAILED \<and>
   served_tree [''srv''] (snd (dispatch_handler plain_externals 0
      (demo_req ''MOVE'' ''/a/f'' [(''destination'', Str ''http://h/g'')]) wide_state)) [''g''] = Some (File ''data'')"
proof -
  let ?no = "demo_req ''MOVE'' ''/a/f'' [(''overwrite'', Str ''f''), (''destination'', Str ''http://h/g'')]"
  let ?yes = "demo_req ''MOVE'' ''/a/f'' [(''destination'', Str ''http://h/g'')]"
  have t: "named_transfer plain_externals [''srv''] wide_state ?no [''a'', ''f''] [''g'']"
    "named_transfer plain_externals [''srv''] wide_state ?yes [''a'', ''f''] [''g'']"
    by (rule wide_transfer [OF wide_paths(2) wide_destinations(5) wide_paths(5)], simp_all add: wide_nodes)
      (rule wide_transfer [OF wide_paths(2) wide_destinations(4) wide_paths(5)], simp_all add: wide_nodes)
  have ow: "\<not> parse_overwrite (req_headers ?no)" "parse_overwrite (req_headers ?yes)"
    by (simp_all add: parse_overwrite_def header_str_def demo_req_def to_ascii_uppercase_def to_upper_def byte_def char_of_eq_iff)
  have ne: "[''a'', ''f''] \<noteq> [''g'']" "served_tree [''srv''] wide_state [''g''] \<noteq> None" by (simp_all add: wide_nodes)
  have m: "req_method ?no = (if True then ''MOVE'' else ''COPY'')" "req_method ?yes = (if True then ''MOVE'' else ''COPY'')"
    by (simp_all add: demo_req_def)
  obtain r st' where h: "dispatch_handler plain_externals 0 ?no wide_state = (r, st')" by fastforce
  obtain r2 st2 where h2: "dispatch_handler plain_externals 0 ?yes wide_state = (r2, st2)" by fastforce
  from overwrite_header_respected [OF t(1) ne m(1) h] ow(1) h
    overwrite_header_respected [OF t(2) ne m(2) h2, of "''data''" "''old''"] ow(2) h2 wide_nodes
  show ?thesis by simp
qed

theorem copy_merges_collections_witness:
  "served_tree [''srv''] (snd (dispatch_handler plain_externals 0
      (demo_req ''COPY'' ''/a'' [(''destination'', Str ''http://h/c'')]) wide_state)) [''c'', ''k''] \<noteq> None"
proof -
  let ?req = "demo_req ''COPY'' ''/a'' [(''destination'', Str ''http://h/c'')]"
  have t: "named_transfer plain_externals [''srv''] wide_state ?req [''a''] [''c'']"
    by (rule wide_transfer [OF wide_paths(1) wide_destinations(3) wide_paths(4)]) (simp_all add: wide_nodes)
  obtain r st' where h: "dispatch_handler plain_externals 0 ?req wide_state = (r, st')" by fastforce
  have m: "req_method ?req = ''COPY''" by (simp add: demo_req_def)
  from copy_merges_collections [OF t _ wide_nodes(2,5) m h wide_nodes(6)] h show ?thesis by auto
qed

theorem dead_props_follow_target_only_witness:
  "map_of (st_dead_props (snd (dispatch_handler plain_externals 0
      (demo_req ''MOVE'' ''/a'' [(''destination'', Str ''http://h/b'')])
      (wide_state\<lparr>st_dead_props := [(abs_path [''srv'', ''a''], [(''n'', ''v'')]), (abs_path [''srv'', ''a'', ''f''], [(''n'', ''w'')])]\<rparr>))))
     (abs_path [''srv'', ''a'', ''f'']) = Some [(''n'', ''w'')]"
proof -
  let ?req = "demo_req ''MOVE'' ''/a'' [(''destination'', Str ''http://h/b'')]"
  let ?dead = "[(abs_path [''srv'', ''a''], [(''n'', ''v'')]), (abs_path [''srv'', ''a'', ''f''], [(''n'', ''w'')])]"
  let ?st = "wide_state\<lparr>st_dead_props := ?dead\<rparr>"
  have t: "fresh_transfer plain_externals [''srv''] ?st ?req [''a''] [''b'']"
    using wide_ready(1,2) wide_paths(1,3) wide_destinations(2) wide_nodes(1,2,4)
    by (auto simp: fresh_transfer_def ready_def app_ok_def state_ok_def root_at_def fresh_cache_def served_tree_def demo_req_def)
  have m: "req_method ?req = (if True then ''MOVE'' else ''COPY'')" by (simp add: demo_req_def)
  obtain r st' where h: "dispatch_handler plain_externals 0 ?req ?st = (r, st')" by fastforce
  have "abs_path [''srv'', ''a'', ''f''] \<noteq> abs_path [''srv'', ''a'']" "abs_path [''srv'', ''a'', ''f''] \<noteq> abs_path [''srv'', ''b'']"
    by (simp_all add: abs_path_def)
  with dead_props_follow_target_only [OF t m _ h, of "abs_path [''srv'', ''a'', ''f'']"] h show ?thesis by simp
qed

end
