(* ===== verification/Hrefs.thy ===== *)
theory Hrefs
  imports Dav_Tree Tls
begin

section \<open>The hrefs of a listing\<close>

text \<open>
  What a client does with a PROPFIND response: it requests the hrefs it was given. Each leads back
  to the resource it stands for, provided percent coding keeps the two laws that
  \<open>pct_laws\<close> states: decoding does not reach across a slash, and undoes the encoding of a UTF-8
  name. Names that are no UTF-8 are given with replacement characters and lead nowhere.
\<close>

definition pct_laws :: "externals \<Rightarrow> bool" where
  "pct_laws x \<longleftrightarrow>
     (\<forall>h. ext_pct x (h @ ''/'') = ext_pct x h @ ''/'') \<and>
     (\<forall>h c. valid_utf8 c \<longrightarrow> ext_pct x (h @ ''/'' @ ext_encode x c) = ext_pct x h @ ''/'' @ c)"

lemma rel_href_decodes:
  assumes "pct_laws x" "\<forall>c\<in>set r. valid_utf8 c" "r \<noteq> []"
  shows "ext_pct x (h @ ''/'' @ rel_href (href_name x) r) = ext_pct x h @ ''/'' @ join_with ''/'' r"
  using assms(2,3)
proof (induction r arbitrary: h rule: induct_list012)
  case (2 c)
  then show ?case using assms(1) by (simp add: pct_laws_def href_name_def valid_utf8_lossy)
next
  case (3 c d r)
  have "ext_pct x ((h @ ''/'' @ href_name x c) @ ''/'' @ rel_href (href_name x) (d # r)) =
      ext_pct x (h @ ''/'' @ href_name x c) @ ''/'' @ join_with ''/'' (d # r)"
    by (rule "3.IH"(2)) (use "3.prems" in simp_all)
  moreover have "ext_pct x (h @ ''/'' @ href_name x c) = ext_pct x h @ ''/'' @ c"
    using assms(1) "3.prems"(1) by (simp add: pct_laws_def href_name_def valid_utf8_lossy)
  ultimately show ?case by simp
qed simp

lemma join_with_append: "ns \<noteq> [] \<Longrightarrow> r \<noteq> [] \<Longrightarrow> join_with s (ns @ r) = join_with s ns @ s @ join_with s r"
proof (induction ns rule: induct_list012)
  case (2 c)
  then show ?case by (cases r) simp_all
qed simp_all

lemma trim_start_append:
  "trim_start_matches sep a \<noteq> [] \<Longrightarrow> trim_start_matches sep (a @ b) = trim_start_matches sep a @ b"
  "trim_start_matches sep a = [] \<Longrightarrow> trim_start_matches sep (a @ b) = trim_start_matches sep b"
  by (auto simp: trim_start_matches_def dropWhile_append1 dropWhile_eq_Nil_conv dropWhile_append)

text \<open>A request path that names the collection with these names below the root, the root itself included.\<close>

definition names_collection :: "externals \<Rightarrow> string \<Rightarrow> string list \<Rightarrow> bool" where
  "names_collection x rp ns \<longleftrightarrow>
     (\<forall>w\<in>set ns. valid_name w) \<and>
     (\<exists>h. normalize_href rp True = h @ ''/'' \<and> trim_start_matches sep (ext_pct x h) = join_with ''/'' ns)"

lemma href_names:
  assumes "pct_laws x" "names_collection x rp ns" "\<forall>c\<in>set r. valid_name c \<and> valid_utf8 c" "r \<noteq> []"
  shows "names_path x (normalize_href rp True @ rel_href (href_name x) r) (ns @ r)"
proof -
  obtain h where h: "normalize_href rp True = h @ ''/''" "trim_start_matches sep (ext_pct x h) = join_with ''/'' ns"
    using assms(2) by (auto simp: names_collection_def)
  have d: "ext_pct x (normalize_href rp True @ rel_href (href_name x) r) = ext_pct x h @ ''/'' @ join_with ''/'' r"
    using rel_href_decodes [OF assms(1) _ assms(4), of h] assms(3) h(1) by simp
  obtain c r' where r: "r = c # r'" using assms(4) by (cases r) auto
  with assms(3) have c: "c \<noteq> []" "hd c \<noteq> sep" by (cases c; auto simp: valid_name_def safe_name_def)+
  with hd_join_with [of c r'] r have "hd (join_with ''/'' r) \<noteq> sep" "join_with ''/'' r \<noteq> []"
    by (cases r'; cases c; auto simp: starts_with_def)+
  then have j: "trim_start_matches sep (''/'' @ join_with ''/'' r) = join_with ''/'' r"
    by (cases "join_with ''/'' r") (simp_all add: trim_start_matches_def)
  have "trim_start_matches sep (ext_pct x h @ ''/'' @ join_with ''/'' r) = join_with ''/'' (ns @ r)"
  proof (cases "ns = []")
    case True
    then show ?thesis using trim_start_append(2) [of "ext_pct x h"] h(2) j by simp
  next
    case False
    have "join_with ''/'' ns \<noteq> []"
    proof -
      have "v \<noteq> []" if "v \<in> set ns" for v
        using assms(2) that by (auto simp: names_collection_def valid_name_def safe_name_def)
      then show ?thesis using False by (cases ns; cases "tl ns") auto
    qed
    then show ?thesis
      using trim_start_append(1) [of "ext_pct x h"] h(2) join_with_append [OF False assms(4)] by simp
  qed
  then show ?thesis using d assms(2-4) by (simp add: names_path_def names_collection_def ball_Un)
qed

lemma decorate_href [simp]: "pe_href (decorate_entry now dead locks e) = pe_href e"
  by (simp add: decorate_entry_def Let_def split: option.split)

text \<open>
  C13: every resource is listed once, under an href that leads to it. A PROPFIND with depth infinity
  on a collection of a tree with UTF-8 names, whose calls do not fail, gives the entry of the
  collection and one for each resource below it at any depth: resolving the hrefs of these
  entries, as a later request does, gives the canonical paths of all these resources, each with
  multiplicity one.
\<close>

theorem propfind_hrefs_resolve:
  assumes "ready rn st" and "fair_reads x (st_fs st)" and "pct_laws x" and "names_collection x rp ns"
    and "served_tree rn st ns = Some Dir"
    and "\<And>q. served_tree rn st q \<noteq> None \<Longrightarrow> \<forall>c\<in>set q. valid_utf8 c"
  shows "\<exists>base res. propfind_entries x now st (abs_path (rn @ ns)) rp Infinity = Some (base # res) \<and>
     image_mset (\<lambda>e. state_resolve_existing x st (pe_href e)) (mset res) =
       image_mset (\<lambda>r. Some (abs_path (rn @ ns @ r))) (mset_set {r. r \<noteq> [] \<and> served_tree rn st (ns @ r) \<noteq> None})"
proof -
  let ?f = "st_fs st" and ?b = "normalize_href rp True"
  note rd = readyD [OF assms(1)]
  have dir: "fs_lookup ?f (rn @ ns) = Some Dir" using assms(5) by (simp add: served_tree_def)
  obtain base res where r: "collect_entries x ?f (abs_path (rn @ ns)) rp Infinity = Some (base # res)"
      "mset (map pe_href res) = hrefs_below x ?f (rn @ ns) ?b"
    using collect_infinity_complete [OF rd(3) assms(2) dir, of rp] by auto
  have rels: "rels ?f (rn @ ns) = {r. r \<noteq> [] \<and> served_tree rn st (ns @ r) \<noteq> None}"
    by (simp add: rels_def served_tree_def)
  have res: "state_resolve_existing x st (?b @ rel_href (href_name x) r) = Some (abs_path (rn @ ns @ r))"
    if "r \<in> rels ?f (rn @ ns)" for r
  proof -
    have n: "r \<noteq> []" "served_tree rn st (ns @ r) \<noteq> None" using that by (simp_all add: rels)
    then obtain m where m: "fs_lookup ?f (rn @ ns @ r) = Some m" by (auto simp: served_tree_def)
    have "\<forall>c\<in>set r. valid_name c \<and> valid_utf8 c"
      using assms(6) [OF n(2)] fs_wf_lookup(1) [OF rd(3) m] by simp
    from resolve_existing_named [OF assms(1) href_names [OF assms(3,4) this n(1)]] m show ?thesis by simp
  qed
  let ?d = "decorate_entry now (st_dead_props st) (st_locks st)"
  have "image_mset (\<lambda>e. state_resolve_existing x st (pe_href e)) (mset (map ?d res)) =
      image_mset (state_resolve_existing x st) (mset (map pe_href res))"
    by (simp add: multiset.map_comp comp_def)
  also have "\<dots> = image_mset (\<lambda>r. Some (abs_path (rn @ ns @ r))) (mset_set (rels ?f (rn @ ns)))"
    unfolding r(2) hrefs_below_def multiset.map_comp comp_def
    by (rule image_mset_cong) (simp add: res finite_rels)
  finally show ?thesis
    using r(1) by (intro exI [of _ "?d base"] exI [of _ "map ?d res"]) (simp add: propfind_entries_def rels)
qed

subsection \<open>Members without locks and properties\<close>

definition bare :: "prop_entry \<Rightarrow> bool" where
  "bare e \<longleftrightarrow> pe_canonical_path e = None \<and> pe_active_locks e = None \<and> pe_dead_props e = None"

lemma bare_child: "bare (child_entry x b c)"
  by (simp add: bare_def child_entry_def from_dirent_def Let_def)

lemma descend_bare: "descend x f k stack acc = Some es \<Longrightarrow> \<exists>res. es = acc @ res \<and> (\<forall>e\<in>set res. bare e)"
proof (induction x f k stack acc rule: descend.induct)
  case (3 x f k p b stack acc)
  show ?case
  proof (cases "read_entries x f p")
    case (Inl e)
    with 3 show ?thesis by simp
  next
    case (Inr kids)
    from "3.IH"(2) [OF Inr] "3.prems" Inr obtain res
      where "es = (acc @ map (child_entry x b) kids) @ res" "\<forall>e\<in>set res. bare e" by auto
    then show ?thesis by (intro exI [of _ "map (child_entry x b) kids @ res"]) (auto simp: bare_child)
  qed
qed simp_all

lemma decorate_bare: "bare e \<Longrightarrow> decorate_entry now dead locks e = e"
  by (simp add: bare_def decorate_entry_def)

text \<open>
  PROPFIND says nothing of the locks and dead properties of members. Only the first entry, the
  target, is decorated with its active locks and its dead properties; whatever the stores hold for
  the others, their entries have neither, since members are collected without a canonical path.
\<close>

theorem members_not_decorated:
  assumes "propfind_entries x now st p rp d = Some (base # res)" and "e \<in> set res"
  shows "pe_active_locks e = None \<and> pe_dead_props e = None"
proof -
  obtain es where es: "collect_entries x (st_fs st) p rp d = Some es"
      "map (decorate_entry now (st_dead_props st) (st_locks st)) es = base # res"
    using assms(1) by (auto simp: propfind_entries_def)
  have "\<exists>b rest. es = b # rest \<and> (\<forall>e\<in>set rest. bare e)"
    using es descend_bare bare_child
    by (fastforce simp: collect_entries_def Let_def collect_direct_children_def collect_descendants_def
        split: sum.splits if_splits)
  then obtain b rest where b: "es = b # rest" "\<forall>e\<in>set rest. bare e" by blast
  then have "res = rest" using es(2) map_idI [of rest] decorate_bare by simp
  with b(2) assms(2) show ?thesis by (simp add: bare_def)
qed

subsection \<open>Percent coding\<close>

text \<open>A percent coding that keeps the laws, for the examples: every byte is encoded.\<close>

definition hex_pair :: "string \<Rightarrow> nat option" where
  "hex_pair s =
     (case s of
        a # b # _ \<Rightarrow>
          (case (digit_val 16 a, digit_val 16 b) of (Some u, Some v) \<Rightarrow> Some (16 * u + v) | _ \<Rightarrow> None)
      | _ \<Rightarrow> None)"

function pct_decode :: "string \<Rightarrow> string" where
  "pct_decode [] = []"
| "pct_decode (c # s) =
     (case (if c = CHR ''%'' then hex_pair s else None) of
        Some v \<Rightarrow> char_of v # pct_decode (drop 2 s)
      | None \<Rightarrow> c # pct_decode s)"
  by pat_completeness auto
termination by (relation "measure length") auto

definition pct_encode :: "string \<Rightarrow> string" where
  "pct_encode s = concat (map (\<lambda>c. CHR ''%'' # upper_hex2 c) s)"

lemma not_hex: "digit_val 16 (CHR ''/'') = None" "digit_val 16 (CHR ''%'') = None"
  by (simp_all add: digit_val_def byte_def)

lemma hex_pair_short: "hex_pair (s @ CHR ''/'' # t) = hex_pair s"
  by (cases s; cases "tl s"; cases t) (auto simp: hex_pair_def not_hex split: option.splits)

lemma hex_pair_length: "hex_pair s = Some v \<Longrightarrow> 2 \<le> length s"
  by (auto simp: hex_pair_def split: list.splits option.splits)

lemma pct_decode_slash: "pct_decode (h @ CHR ''/'' # t) = pct_decode h @ CHR ''/'' # pct_decode t"
proof (induction h rule: pct_decode.induct)
  case (2 c s)
  show ?case
  proof (cases "if c = CHR ''%'' then hex_pair s else None")
    case None
    with 2 None show ?thesis by (auto simp: hex_pair_short split: if_splits)
  next
    case (Some v)
    then have "2 \<le> length s" by (auto dest: hex_pair_length split: if_splits)
    with Some 2 show ?thesis by (auto simp: hex_pair_short split: if_splits)
  qed
qed simp

lemma pct_decode_encode: "pct_decode (pct_encode s) = s"
proof (induction s)
  case (Cons c s)
  have b: "byte c < 256" by (simp add: byte_def)
  then have "byte c div 16 < 16" "byte c mod 16 < 16" by (simp_all add: less_mult_imp_div_less)
  then have "hex_pair (upper_hex2 c @ pct_encode s) = Some (byte c)"
    using upper_hex_digit [of "byte c div 16"] upper_hex_digit [of "byte c mod 16"]
    by (simp add: hex_pair_def upper_hex2_digits)
  moreover have "char_of (byte c) = c" by (simp add: byte_def)
  moreover have "pct_encode (c # s) = CHR ''%'' # upper_hex2 c @ pct_encode s" by (simp add: pct_encode_def)
  ultimately show ?case using Cons by (simp add: upper_hex2_digits)
qed (simp add: pct_encode_def)

definition pct_externals :: externals where
  "pct_externals = plain_externals\<lparr>ext_pct := pct_decode, ext_encode := pct_encode\<rparr>"

lemma pct_externals_laws: "pct_laws pct_externals"
  using pct_decode_slash [of _ "[]"] pct_decode_slash
  by (simp add: pct_laws_def pct_externals_def pct_decode_encode)

lemma from_utf8_lossy_not_Nil: "s \<noteq> [] \<Longrightarrow> from_utf8_lossy s \<noteq> []"
  using utf8_step_pos [of s] by (subst from_utf8_lossy.simps) (auto simp: replacement_def split: prod.split)

lemma pct_externals_fair:
  assumes "undisturbed f"
  shows "fair_reads pct_externals f"
proof -
  have "kernel_contract (ext_statx pct_externals f q) (\<lambda>_. True) demo_statx" for q
    unfolding kernel_contract_def pct_externals_def plain_externals_def
    by (intro allI exI conjI) (auto simp: comp_def multiset.map_comp)
  moreover have "href_name pct_externals c \<noteq> [] \<and> \<not> ends_with (href_name pct_externals c) ''/''" if "valid_name c" for c
  proof -
    have "from_utf8_lossy c \<noteq> []" using that by (auto simp: valid_name_def safe_name_def intro!: from_utf8_lossy_not_Nil)
    then obtain s b where s: "from_utf8_lossy c = s @ [b]" by (cases "from_utf8_lossy c" rule: rev_cases) auto
    then have "href_name pct_externals c = (pct_encode s @ [CHR ''%'', to_upper (digit_char (byte b div 16))]) @ [to_upper (digit_char (byte b mod 16))]"
      by (simp add: href_name_def pct_externals_def pct_encode_def upper_hex2_digits)
    moreover have "to_upper (digit_char (byte b mod 16)) \<noteq> CHR ''/''"
      using upper_hex_digit [of "byte b mod 16"] not_hex(1) by auto
    ultimately show ?thesis by (simp add: ends_with_def starts_with_def)
  qed
  ultimately show ?thesis using assms by (auto simp: fair_reads_def undisturbed_def)
qed

theorem propfind_hrefs_resolve_witness:
  "\<exists>base res. propfind_entries pct_externals 0 plain_state (abs_path [''srv'']) ''/'' Infinity = Some (base # res) \<and>
     Some (abs_path [''srv'', ''a'', ''f'']) \<in># image_mset (\<lambda>e. state_resolve_existing pct_externals plain_state (pe_href e)) (mset res)"
proof -
  have u: "st_fs plain_state = plain_fs" "undisturbed plain_fs"
    by (simp_all add: plain_state_def app_state_new_def undisturbed_def plain_fs_def)
  have n: "names_collection pct_externals ''/'' []"
    unfolding names_collection_def
    by (auto simp: normalize_href_def ends_with_def starts_with_def trim_start_matches_def pct_externals_def intro!: exI [of _ "[]"])
  have d: "served_tree [''srv''] plain_state [] = Some Dir"
    "served_tree [''srv''] plain_state [''a'', ''f''] = Some (File ''data'')"
    by (simp_all add: served_tree_def plain_state_def app_state_new_def plain_fs_def fs_lookup_def)
  have v: "\<forall>c\<in>set q. valid_utf8 c" if "served_tree [''srv''] plain_state q \<noteq> None" for q
  proof -
    have "q \<in> {[], [''a''], [''a'', ''f'']}"
      using that by (auto simp: served_tree_def plain_state_def app_state_new_def plain_fs_def fs_lookup_def split: if_splits)
    moreover have "valid_utf8 ''a''" "valid_utf8 ''f''" by (rule valid_utf8_ascii, simp add: byte_def)+
    ultimately show ?thesis by auto
  qed
  have "[''a'', ''f''] \<in># mset_set {r. r \<noteq> [] \<and> served_tree [''srv''] plain_state ([] @ r) \<noteq> None}"
    using finite_rels [of plain_fs "[''srv'']"] d(2) u(1) by (simp add: rels_def served_tree_def)
  then have f: "Some (abs_path ([''srv''] @ [] @ [''a'', ''f''])) \<in>#
      image_mset (\<lambda>r. Some (abs_path ([''srv''] @ [] @ r))) (mset_set {r. r \<noteq> [] \<and> served_tree [''srv''] plain_state ([] @ r) \<noteq> None})"
    unfolding in_image_mset by (rule imageI)
  obtain base res where r: "propfind_entries pct_externals 0 plain_state (abs_path ([''srv''] @ [])) ''/'' Infinity = Some (base # res)"
      "image_mset (\<lambda>e. state_resolve_existing pct_externals plain_state (pe_href e)) (mset res) =
       image_mset (\<lambda>r. Some (abs_path ([''srv''] @ [] @ r))) (mset_set {r. r \<noteq> [] \<and> served_tree [''srv''] plain_state ([] @ r) \<noteq> None})"
    using propfind_hrefs_resolve [OF plain_ready(1) pct_externals_fair [OF u(2), folded u(1)] pct_externals_laws n d(1) v, of 0]
    by blast
  from f have "Some (abs_path ([''srv''] @ [] @ [''a'', ''f''])) \<in>#
      image_mset (\<lambda>e. state_resolve_existing pct_externals plain_state (pe_href e)) (mset res)" unfolding r(2) .
  with r(1) show ?thesis by auto
qed

theorem members_not_decorated_witness:
  "\<exists>base res. propfind_entries pct_externals 0
       (plain_state\<lparr>st_dead_props := [(abs_path [''srv'', ''a'', ''f''], [(''n'', ''v'')])]\<rparr>) (abs_path [''srv'']) ''/'' Infinity
       = Some (base # res) \<and> res \<noteq> [] \<and> (\<forall>e\<in>set res. pe_dead_props e = None)"
proof -
  let ?st = "plain_state\<lparr>st_dead_props := [(abs_path [''srv'', ''a'', ''f''], [(''n'', ''v'')])]\<rparr>"
  have u: "st_fs ?st = plain_fs" "undisturbed plain_fs"
    by (simp_all add: plain_state_def app_state_new_def undisturbed_def plain_fs_def)
  have "fs_lookup plain_fs [''srv''] = Some Dir" by (simp add: plain_fs_def fs_lookup_def)
  from collect_infinity_complete [OF tree_okD(1) [OF plain_tree] pct_externals_fair [OF u(2)] this, of "''/''"]
  obtain base res where r: "collect_entries pct_externals plain_fs (abs_path [''srv'']) ''/'' Infinity = Some (base # res)"
      "mset (map pe_href res) = hrefs_below pct_externals plain_fs [''srv''] (normalize_href ''/'' True)" by blast
  have "[''a''] \<in> rels plain_fs [''srv'']" by (simp add: rels_def plain_fs_def fs_lookup_def)
  then have "hrefs_below pct_externals plain_fs [''srv''] (normalize_href ''/'' True) \<noteq> {#}"
    using finite_rels [of plain_fs "[''srv'']"] by (auto simp: hrefs_below_def mset_set_empty_iff)
  then have "res \<noteq> []" using r(2) by auto
  let ?d = "decorate_entry 0 (st_dead_props ?st) (st_locks ?st)"
  have p: "propfind_entries pct_externals 0 ?st (abs_path [''srv'']) ''/'' Infinity = Some (?d base # map ?d res)"
    using r(1) u(1) by (simp add: propfind_entries_def)
  from members_not_decorated [OF p] p \<open>res \<noteq> []\<close> show ?thesis by blast
qed

subsection \<open>A name with a percent sign as destination\<close>

text \<open>
  The Destination header of COPY and MOVE is decoded when it is parsed, and what is left is decoded
  again when it is resolved, while the path of a request is decoded once. A name whose own text
  looks encoded is reached by the path of a request and missed by a Destination header, which
  leads to the name it decodes to.
\<close>

theorem destination_decoded_twice:
  assumes "ready rn st" and "pct_laws x" and "ext_pct x [] = []" and "valid_utf8 n" and "valid_name n"
    and "ext_pct x (''/'' @ n) = ''/'' @ n'" and "valid_name n'"
    and "header_str hs ''destination'' = Some (''/'' @ ext_encode x n)" and "find_str ''://'' (''/'' @ ext_encode x n) = None"
    and "parse_destination (ext_pct x) hs = Some d"
  shows "state_resolve_write_target x st (''/'' @ ext_encode x n) = Some (path_join (st_root_dir st) n) \<and>
     state_resolve_write_target x st d = Some (path_join (st_root_dir st) n')"
proof -
  have e: "ext_pct x (''/'' @ ext_encode x n) = ''/'' @ n"
    using assms(2,3,4) unfolding pct_laws_def by (metis append_Nil)
  have n: "n \<noteq> []" "hd n \<noteq> sep" "last n \<noteq> sep" and n': "n' \<noteq> []" "hd n' \<noteq> sep"
    using assms(5,7) by (auto simp: valid_name_def safe_name_def dest: hd_in_set last_in_set)
  obtain m b where mb: "n = m @ [b]" "b \<noteq> sep" using n(1,3) by (cases n rule: rev_cases) auto
  then have t: "trim_end_matches sep (''/'' @ n) = ''/'' @ n" by (simp add: trim_end_matches_def)
  have "starts_with (''/'' @ ext_encode x n) ''/''" by (simp add: starts_with_def)
  then have d: "d = ''/'' @ n"
    using assms(8,9,10) e t by (simp add: parse_destination_def)
  have "trim_start_matches sep (''/'' @ n) = n" "trim_start_matches sep (''/'' @ n') = n'"
    using n n' by (simp_all add: trim_start_matches_def dropWhile_eq_self_iff)
  then have "names_path x (''/'' @ n) [n']" "names_path x (''/'' @ ext_encode x n) [n]"
    using assms(5,6,7) e by (simp_all add: names_path_def)
  from write_target_named [OF assms(1) this(1)] write_target_named [OF assms(1) this(2)] show ?thesis
    by (simp add: d)
qed

theorem destination_decoded_twice_witness:
  "parse_destination (ext_pct pct_externals) [(''destination'', Str ''/%61%25%34%31'')] = Some ''/a%41'' \<and>
   state_resolve_write_target pct_externals plain_state ''/%61%25%34%31'' = Some ''./srv/a%41'' \<and>
   state_resolve_write_target pct_externals plain_state ''/a%41'' = Some ''./srv/aA''"
proof -
  have p: "parse_destination (ext_pct pct_externals) [(''destination'', Str ''/%61%25%34%31'')] = Some ''/a%41''"
    by code_simp
  have e: "ext_encode pct_externals ''a%41'' = ''%61%25%34%31''" by code_simp
  have d: "ext_pct pct_externals (''/'' @ ''a%41'') = ''/'' @ ''aA''" "ext_pct pct_externals [] = []" by code_simp+
  have u: "valid_utf8 ''a%41''" by code_simp
  have v: "valid_name ''a%41''" "valid_name ''aA''" by (simp_all add: valid_name_def safe_name_def)
  have h: "header_str [(''destination'', Str ''/%61%25%34%31'')] ''destination'' = Some (''/'' @ ext_encode pct_externals ''a%41'')"
    unfolding e by code_simp
  have f: "find_str ''://'' (''/'' @ ext_encode pct_externals ''a%41'') = None" unfolding e by code_simp
  have j: "path_join ''./srv/'' ''a%41'' = ''./srv/a%41''" "path_join ''./srv/'' ''aA'' = ''./srv/aA''" by code_simp+
  show ?thesis
    using destination_decoded_twice [OF plain_ready(1) pct_externals_laws d(2) u v(1) d(1) v(2) h f p] p j
    by (simp add: e plain_state_def app_state_new_def)
qed

end
