(* ===== verification/Links.thy ===== *)
theory Links
  imports Dav_Tree
begin

section \<open>Links and stale paths\<close>

text \<open>
  Two requests whose path was resolved to something that is no longer, or never was, what the
  handler takes it for: a PUT whose target is a symbolic link, which opens the file it points to,
  wherever that is; and a PUT whose parent is still in the canonical cache after it was removed.
\<close>

lemma open_target_link:
  assumes "fs_wf f" "fs_lookup f d = Some Dir" "valid_name w" "fs_lookup f (d @ [w]) = Some (Symlink (abs_path q))"
    and "fs_lookup f q = Some (File b)"
  shows "open_target (Suc k) f (abs_path (d @ [w])) = Inr q"
proof -
  have "q \<noteq> []" using assms(5) by (auto simp: fs_lookup_def)
  then obtain qs v where q: "q = qs @ [v]" by (cases q rule: rev_cases) auto
  have qd: "fs_lookup f qs = Some Dir" "valid_name v" using fs_wf_lookup [OF assms(1,5)] q by simp_all
  have l: "locate f (abs_path (d @ [w])) = Inr (d, w)" "locate f (abs_path (qs @ [v])) = Inr (qs, v)"
    using locate_child [OF assms(1,2) _ assms(3)] locate_child [OF assms(1) qd(1) _ qd(2)] by simp_all
  have "path_join (abs_path d) (abs_path q) = abs_path q" by (simp add: path_join_def)
  then show ?thesis
    using l assms(4,5) q by (simp add: open_target.simps [of "Suc k"] open_target.simps [of k])
qed

text \<open>
  C35: a PUT onto a symbolic link writes where the link points, also outside the root. The guard looks
  at the canonical parent of the target only; when the last name below the root is a link to a
  file outside, the PUT is answered with success and replaces the content of that file, and of
  nothing else.
\<close>

theorem put_follows_link_out_of_root:
  assumes "fs_wf (st_fs st)" and "undisturbed (st_fs st)"
    and "state_resolve_and_guard x st (req_path req) = (Inr (abs_path (rn @ ms @ [w])), st1)"
    and "fs_lookup (st_fs st) (rn @ ms) = Some Dir"
    and "fs_lookup (st_fs st) (rn @ ms @ [w]) = Some (Symlink (abs_path q))"
    and "fs_lookup (st_fs st) q = Some (File b)" and "\<not> prefix rn q"
    and "req_method req = ''PUT''" and "req_stream req = (c, True)"
    and "dispatch_handler x now req st = (r, st')"
  shows "reply_status r \<in> {OK, CREATED} \<and>
     fs_lookup (st_fs st') p = (if p = q then Some (File c) else fs_lookup (st_fs st) p)"
proof -
  let ?f = "st_fs st" and ?d = "rn @ ms"
  have w: "valid_name w" using fs_wf_lookup(1) [OF assms(1,5)] by simp
  have q: "q \<noteq> []" using assms(6) by (auto simp: fs_lookup_def)
  have "open_target (Suc 39) ?f (abs_path (?d @ [w])) = Inr q"
    by (rule open_target_link [OF assms(1,4) w _ assms(6)]) (use assms(5) in simp)
  then have "file_create ?f (abs_path (rn @ ms @ [w])) = (Inr q, fs_set q (File []) ?f)"
    using assms(2) by (simp add: file_create_def)
  then have "put_file req ?f (abs_path (rn @ ms @ [w])) =
      (empty_reply (if path_exists ?f (abs_path (rn @ ms @ [w])) then OK else CREATED), fs_set q (File c) (fs_set q (File []) ?f))"
    using assms(2,9) by (simp add: put_file_def Let_def)
  then show ?thesis
    using assms(3,8,10) guard_frame_fields(1) [OF assms(3)] q
    by (auto simp: dispatch_handler_def from_http_method_def handle_put_def fs_lookup_set split: if_splits)
qed

definition link_fs :: fs where
  "link_fs =
     \<lparr>fs_nodes = [([''srv''], Dir), ([''srv'', ''l''], Symlink ''/etc/p''), ([''etc''], Dir), ([''etc'', ''p''], File ''x'')],
      fs_cwd = [], fs_deny = (\<lambda>_ _. False)\<rparr>"

theorem put_follows_link_out_of_root_witness:
  "fs_lookup (st_fs (snd (dispatch_handler plain_externals 0 ((demo_req ''PUT'' ''/l'' [])\<lparr>req_stream := (''evil'', True)\<rparr>)
      (app_state_new link_fs ''/srv'' 0)))) [''etc'', ''p''] = Some (File ''evil'')"
proof -
  let ?st = "app_state_new link_fs ''/srv'' 0" and ?req = "(demo_req ''PUT'' ''/l'' [])\<lparr>req_stream := (''evil'', True)\<rparr>"
  have st: "st_fs ?st = link_fs" "undisturbed link_fs" by (simp_all add: app_state_new_def undisturbed_def link_fs_def)
  have wf: "fs_wf link_fs" by (simp add: fs_wf_def link_fs_def fs_lookup_def valid_name_def safe_name_def)
  have l: "fs_lookup link_fs ([''srv''] @ []) = Some Dir" "fs_lookup link_fs [''etc'', ''p''] = Some (File ''x'')"
    "fs_lookup link_fs ([''srv''] @ [] @ [''l'']) = Some (Symlink (abs_path [''etc'', ''p'']))"
    by (simp_all add: link_fs_def fs_lookup_def abs_path_def)
  have "resolve_and_guard id link_fs ''/srv'' ''/srv'' ''/l'' [] = (Inr ''/srv/l'', [(''/srv'', ''/srv'')])" by code_simp
  moreover have "st_root_canonical ?st = ''/srv''" by code_simp
  ultimately have g: "state_resolve_and_guard plain_externals ?st (req_path ?req) =
      (Inr (abs_path ([''srv''] @ [] @ [''l''])), ?st\<lparr>st_cache := [(''/srv'', ''/srv'')]\<rparr>)"
    by (simp add: state_resolve_and_guard_def app_state_new_def plain_externals_def demo_req_def abs_path_def)
  obtain r st' where h: "dispatch_handler plain_externals 0 ?req ?st = (r, st')" by fastforce
  have m: "req_method ?req = ''PUT''" "req_stream ?req = (''evil'', True)" "\<not> prefix [''srv''] [''etc'', ''p'']"
    by (simp_all add: demo_req_def)
  from put_follows_link_out_of_root [OF _ _ g _ _ _ m(3,1,2) h, of "''x''" "[''etc'', ''p'']"] st wf l h
  show ?thesis by simp
qed

subsection \<open>A parent that is gone\<close>

lemma guard_failed_same:
  "state_resolve_and_guard x st rp = (Inl (ParentCanonicalizeFailed e), st1) \<Longrightarrow> st1 = st"
  by (auto simp: state_resolve_and_guard_def resolve_and_guard_def parent_canonical_def Let_def
      split: prod.splits option.splits sum.splits if_splits)

lemma locate_below_missing:
  assumes "tree_ok rn f" "\<forall>v\<in>set (rn @ ms @ [w]). safe_name v" "fs_lookup f (rn @ ms) = None"
  shows "\<exists>e. locate f (abs_path (rn @ ms @ [w])) = Inl e"
proof (cases "locate f (abs_path (rn @ ms @ [w]))")
  case (Inr dn)
  obtain d n where dn: "dn = (d, n)" by fastforce
  have "d @ [n] = rn @ ms @ [w]"
    using locate_below [OF assms(1,2) _ Inr [unfolded dn]] by simp
  then have "d = rn @ ms" by simp
  then show ?thesis using locate_facts(1) [OF Inr [unfolded dn]] assms(3) by simp
qed simp

text \<open>
  The canonical cache remembers parents that are gone. When the parent of the target of a PUT was
  removed but is still in the cache, the PUT is answered with 500, where without the entry it is
  answered with 409; neither changes anything.
\<close>

theorem stale_parent_answers_500:
  assumes "ready rn st" and "names_path x (req_path req) (ms @ [w])"
    and "served_tree rn st ms = None"
    and "path_parent (path_join (st_root_dir st) (join_with ''/'' (ms @ [w]))) = Some par"
    and "map_of (st_cache st) par = Some (abs_path (rn @ ms))" and "req_method req = ''PUT''"
    and "cold = st\<lparr>st_cache := []\<rparr>"
  shows "dispatch_handler x now req st = (Inl INTERNAL_SERVER_ERROR, st) \<and>
     dispatch_handler x now req cold = (Inl CONFLICT, cold)"
proof
  let ?f = "st_fs st" and ?p = "path_join (st_root_dir st) (join_with ''/'' (ms @ [w]))"
  note rd = readyD [OF assms(1)]
  have v: "\<forall>v\<in>set (ms @ [w]). valid_name v" by (rule names_pathD(2) [OF assms(2)])
  have safe: "\<forall>v\<in>set (rn @ ms @ [w]). safe_name v" using names_pathD(3) [OF assms(2)] rd(8) by auto
  have base: "path_file_name ?p = Some w" by (rule parent_leads_to [OF rd(2,5) v])
  have missing: "fs_lookup ?f (rn @ ms) = None" using assms(3) by (simp add: served_tree_def)
  have sw: "path_starts_with (abs_path (rn @ ms)) (abs_path rn)"
    using starts_with_abs_paths [OF rd(8), of "rn @ ms"] safe by auto
  have "parent_canonical ?f par (st_cache st) = (Inr (abs_path (rn @ ms)), st_cache st)"
    using assms(5) by (simp add: parent_canonical_def)
  then have g: "state_resolve_and_guard x st (req_path req) = (Inr (abs_path (rn @ ms @ [w])), st)"
    using write_target_named [OF assms(1,2)] assms(4) base sw rd(6) join_abs_path [of w "rn @ ms"] safe
    by (simp add: state_resolve_and_guard_def resolve_and_guard_def state_resolve_write_target_def)
  obtain e where "locate ?f (abs_path (rn @ ms @ [w])) = Inl e"
    using locate_below_missing [OF rd(2) safe missing] by blast
  then have "put_file req ?f (abs_path (rn @ ms @ [w])) = (Inl INTERNAL_SERVER_ERROR, ?f)"
    using rd(4) by (simp add: put_file_def file_create_def open_target.simps Let_def)
  then show "dispatch_handler x now req st = (Inl INTERNAL_SERVER_ERROR, st)"
    using g assms(6) by (simp add: dispatch_handler_def from_http_method_def handle_put_def)
  have cold: "ready rn cold" "fresh_cache cold"
    using assms(1,7) by (auto simp: ready_def app_ok_def root_at_def fresh_cache_def state_ok_def)
  obtain r st1 where g': "state_resolve_and_guard x cold (req_path req) = (r, st1)" by fastforce
  obtain e where r: "r = Inl (ParentCanonicalizeFailed e)"
    using guard_named(1) [OF cold(1) assms(2) cold(2) g'] missing assms(7) by auto
  have "st1 = cold" by (rule guard_failed_same [OF g' [unfolded r]])
  then show "dispatch_handler x now req cold = (Inl CONFLICT, cold)"
    using g' r assms(6) by (simp add: dispatch_handler_def from_http_method_def handle_put_def)
qed

definition gone_fs :: fs where
  "gone_fs = \<lparr>fs_nodes = [([''srv''], Dir), ([''etc''], Dir)], fs_cwd = [], fs_deny = (\<lambda>_ _. False)\<rparr>"

definition gone_state :: app_state where
  \<comment> \<open>\<open>/srv/a\<close> was looked up, then removed\<close>
  "gone_state = plain_state\<lparr>st_fs := gone_fs, st_cache := [(''./srv/a'', ''/srv/a'')]\<rparr>"

theorem stale_parent_answers_500_witness:
  "reply_status (fst (dispatch_handler plain_externals 0 (demo_req ''PUT'' ''/a/x'' []) gone_state)) = INTERNAL_SERVER_ERROR"
proof -
  let ?f = gone_fs and ?req = "demo_req ''PUT'' ''/a/x'' []"
  have nodes: "fs_nodes ?f = [([''srv''], Dir), ([''etc''], Dir)]" "fs_cwd ?f = []" "fs_deny ?f = (\<lambda>_ _. False)"
    by (simp_all add: gone_fs_def)
  have wf: "fs_wf ?f" by (simp add: fs_wf_def nodes fs_lookup_def valid_name_def safe_name_def)
  then have tree: "tree_ok [''srv''] ?f" unfolding tree_ok_def by (auto simp: real_node_def nodes fs_lookup_def)
  have c0: "cache_ok [(''./srv/a'', ''/srv/a'')]"
    using cache_ok_update [of "[]" "[''srv'', ''a'']" "''./srv/a''"] by (simp add: valid_name_def safe_name_def abs_path_def)
  have "resolve ?f ''./srv/'' = Inr [''srv'']" by code_simp
  then have r: "ready [''srv''] gone_state"
    using tree readyD(1) [OF plain_ready(1)] wf c0
    by (auto simp: ready_def app_ok_def state_ok_def root_at_def gone_state_def plain_state_def app_state_new_def
        undisturbed_def nodes store_ok_def valid_name_def safe_name_def abs_path_def)
  have n: "names_path plain_externals (req_path ?req) ([''a''] @ [''x''])"
    by (simp add: names_path_def valid_name_def safe_name_def plain_externals_def demo_req_def trim_start_matches_def)
  have t: "served_tree [''srv''] gone_state [''a''] = None"
    by (simp add: served_tree_def gone_state_def nodes fs_lookup_def)
  have "path_parent (path_join ''./srv/'' (join_with ''/'' ([''a''] @ [''x'']))) = Some ''./srv/a''" by code_simp
  then have p: "path_parent (path_join (st_root_dir gone_state) (join_with ''/'' ([''a''] @ [''x'']))) = Some ''./srv/a''"
    by (simp add: gone_state_def plain_state_def app_state_new_def)
  have c: "map_of (st_cache gone_state) ''./srv/a'' = Some (abs_path ([''srv''] @ [''a'']))"
    by (simp add: gone_state_def abs_path_def)
  show ?thesis
    using stale_parent_answers_500 [OF r n t p c _ refl, of 0] by (simp add: demo_req_def)
qed

end
