(* ===== verification/Dir_Fallback.thy ===== *)
theory Dir_Fallback
  imports Tree_Calls
begin

section \<open>Reading a directory without io_uring (src/scandir.rs)\<close>

text \<open>
  The path for systems other than Linux asks \<open>std::fs::metadata\<close> for each entry, which follows
  symbolic links, and takes the directory flag from the answer; the Linux path takes it from the
  type of the entry itself. What both say of the same directory is compared here.
\<close>

definition fallback_entry :: "externals \<Rightarrow> fs \<Rightarrow> pathbuf \<Rightarrow> string \<times> node \<Rightarrow> dir_entry_meta option" where
  "fallback_entry x f dir_path entry =
     (case stat_path x f (path_join dir_path (fst entry)) of
        Inl _ \<Rightarrow> None
      | Inr meta \<Rightarrow>
          Some \<lparr>de_name = fst entry, de_is_dir = fm_is_dir meta, de_size = fm_len meta,
                de_modified = fm_modified meta, de_created = fm_created meta\<rparr>)"

definition batch_fallback :: "externals \<Rightarrow> fs \<Rightarrow> pathbuf \<Rightarrow> io_error + dir_entry_meta list" where
  "batch_fallback x f dir_path = map_sum id (List.map_filter (fallback_entry x f dir_path)) (read_dir f dir_path)"

text \<open>The kernel's \<open>statx\<close> answers for each name what \<open>stat\<close> says of its path, and fails when it fails.\<close>

definition statx_is_stat :: "externals \<Rightarrow> fs \<Rightarrow> string list \<Rightarrow> (string \<Rightarrow> statx) \<Rightarrow> bool" where
  "statx_is_stat x f q buf \<longleftrightarrow>
     (\<forall>w m. stat_path x f (abs_path (q @ [w])) = Inr m \<longrightarrow>
        stx_size (buf w) = fm_len m \<and> stx_modified (buf w) = fm_modified m \<and> stx_created (buf w) = fm_created m)"

definition can_stat :: "externals \<Rightarrow> fs \<Rightarrow> string list \<Rightarrow> string \<Rightarrow> bool" where
  "can_stat x f q w \<longleftrightarrow> (\<exists>m. stat_path x f (abs_path (q @ [w])) = Inr m)"

lemma map_filter_map_option:
  "(\<And>a. a \<in> set as \<Longrightarrow> g a = map_option h (k a)) \<Longrightarrow> List.map_filter g as = map h (List.map_filter k as)"
  by (induction as) (auto simp: List.map_filter_def)

lemma zip_map_fst: "zip es (map (h \<circ> fst) es) = map (\<lambda>e. (e, h (fst e))) es"
  by (induction es) simp_all

lemma map_filter_fallback_names:
  "e \<in> set (List.map_filter (fallback_entry x f p) es) \<Longrightarrow>
     \<exists>nd. (de_name e, nd) \<in> set es \<and> fallback_entry x f p (de_name e, nd) = Some e"
  by (induction es) (auto simp: List.map_filter_def fallback_entry_def split: sum.splits option.splits)


text \<open>A kernel that answers from the tree and completes in reverse order.\<close>

definition tree_statx :: "fs \<Rightarrow> string list \<Rightarrow> string \<Rightarrow> statx" where
  "tree_statx f q w =
     \<lparr>stx_mode = 0,
      stx_size = (case stat_path plain_externals f (abs_path (q @ [w])) of Inl _ \<Rightarrow> 0 | Inr m \<Rightarrow> fm_len m),
      stx_mtime = (0, 0), stx_btime = (0, 0)\<rparr>"

definition tree_ring :: "fs \<Rightarrow> string list \<Rightarrow> submission" where
  "tree_ring f q chunk =
     Inr (map (tree_statx f q) chunk,
          map (\<lambda>i. (i, case stat_path plain_externals f (abs_path (q @ [chunk ! i])) of Inl _ \<Rightarrow> -2 | Inr _ \<Rightarrow> 0))
            (rev [0..<length chunk]))"

lemma tree_ring_contract: "kernel_contract (tree_ring f q) (can_stat plain_externals f q) (tree_statx f q)"
  unfolding kernel_contract_def tree_ring_def can_stat_def
  by (intro allI exI conjI, rule refl) (auto simp: comp_def multiset.map_comp split: sum.split)

lemma tree_ring_stat: "statx_is_stat plain_externals f q (tree_statx f q)"
  by (auto simp: statx_is_stat_def tree_statx_def stat_path_def node_meta_def plain_externals_def stx_modified_def
      stx_created_def timestamp_to_systemtime_def split: sum.splits)


end
