(* ===== verification/Tasks.thy ===== *)
theory Tasks
  imports Lifecycle
begin

section \<open>Handlers as tasks (src/handlers, src/utils/path.rs)\<close>

text \<open>
  A handler is an asynchronous function, and other handlers run while it waits. Here it is a task:
  a program counter with the values that the rest of the handler uses, and a step that makes one
  access to the shared state, a call of the file system or a critical section, and gives the next
  program counter. \<open>Answered\<close> is the end. Some accesses are one step here though another handler
  may come between their parts: a file handle is opened, used and closed in one step; a call of
  \<open>std::fs\<close> is one step when it makes several system calls, and so is the reading of a directory
  with its entries' types; the walk of PROPFIND and the listing of a GET, which change nothing, are
  one step, too.
\<close>

subsection \<open>The guard of a write target\<close>

datatype guard_pc = G_Lookup | G_Canonicalize pathbuf pathbuf | G_Insert pathbuf pathbuf pathbuf

definition guard_result :: "app_state \<Rightarrow> pathbuf \<Rightarrow> pathbuf \<Rightarrow> resolve_target_error + pathbuf" where
  "guard_result st fs_path pc =
     (if \<not> path_starts_with pc (st_root_canonical st) then Inl TraversalBlocked
      else case path_file_name fs_path of None \<Rightarrow> Inl Panicked | Some n \<Rightarrow> Inr (path_join pc n))"

fun guard_advance ::
  "externals \<Rightarrow> string \<Rightarrow> guard_pc \<Rightarrow> app_state \<Rightarrow> (guard_pc + resolve_target_error + pathbuf) \<times> app_state" where
  "guard_advance x rp G_Lookup st =
     (case state_resolve_write_target x st rp of
        None \<Rightarrow> (Inr (Inl InvalidPath), st)
      | Some fs_path \<Rightarrow>
          (let parent = (case path_parent fs_path of Some p \<Rightarrow> p | None \<Rightarrow> st_root_dir st)
           in case map_of (st_cache st) parent of
                Some cached \<Rightarrow> (Inr (guard_result st fs_path cached), st)
              | None \<Rightarrow> (Inl (G_Canonicalize fs_path parent), st)))"
| "guard_advance x rp (G_Canonicalize fs_path parent) st =
     (case canonicalize (st_fs st) parent of
        Inl e \<Rightarrow> (Inr (Inl (ParentCanonicalizeFailed e)), st)
      | Inr pc \<Rightarrow> (Inl (G_Insert fs_path parent pc), st))"
| "guard_advance x rp (G_Insert fs_path parent pc) st =
     (Inr (guard_result st fs_path pc), st\<lparr>st_cache := AList.update parent pc (st_cache st)\<rparr>)"

subsection \<open>Program counters\<close>

record transfer_task =
  tr_move :: bool
  tr_src :: pathbuf
  tr_dest :: pathbuf
  tr_before :: bool

datatype task =
    Begin
  | Answered reply
  | Get_Stat pathbuf | Get_Dir pathbuf | Get_File pathbuf nat
  | Put_Guard guard_pc | Put_Exists pathbuf | Put_Write pathbuf bool
  | Del_Stat pathbuf | Del_Dir pathbuf | Del_File pathbuf
  | Find_Collect pathbuf prop_request | Find_Decorate "prop_entry list" prop_request
  | Mk_Guard guard_pc | Mk_Stat pathbuf | Mk_Create pathbuf
  | Tr_Guard bool pathbuf string guard_pc | Tr_Exists bool pathbuf pathbuf | Tr_Source transfer_task
  | Tr_Dest transfer_task file_meta | Tr_Clear transfer_task bool | Tr_Copy transfer_task bool bool
  | Tr_Loop transfer_task "(pathbuf \<times> pathbuf) list"
  | Tr_Entries transfer_task pathbuf pathbuf "(string \<times> node) list" "(pathbuf \<times> pathbuf) list"
  | Tr_Rename transfer_task bool | Tr_Unlink transfer_task bool | Tr_Props transfer_task
  | Patch_Props pathbuf prop_patch_op
  | Lk_Guard guard_pc | Lk_Phase1 lock_request | Lk_Null lock_request | Lk_Phase2 lock_request bool
  | Un_Store pathbuf string

definition at_guard ::
  "externals \<Rightarrow> string \<Rightarrow> (guard_pc \<Rightarrow> task) \<Rightarrow> (resolve_target_error + pathbuf \<Rightarrow> task) \<Rightarrow> guard_pc \<Rightarrow> app_state \<Rightarrow>
     task \<times> app_state" where
  "at_guard x rp wait continue g st =
     (case guard_advance x rp g st of (Inl g', st') \<Rightarrow> (wait g', st') | (Inr r, st') \<Rightarrow> (continue r, st'))"

definition or_answer :: "'a app_result \<Rightarrow> ('a \<Rightarrow> task) \<Rightarrow> task" where
  \<comment> \<open>\<open>?\<close> on a result\<close>
  "or_answer r continue = (case r of Inl e \<Rightarrow> Answered (Inl e) | Inr a \<Rightarrow> continue a)"

subsection \<open>COPY and MOVE\<close>

definition begin_transfer :: "externals \<Rightarrow> request \<Rightarrow> app_state \<Rightarrow> bool \<Rightarrow> task" where
  "begin_transfer x req st is_move =
     or_answer (opt_or_status (parse_destination (ext_pct x) (req_headers req)) BAD_REQUEST) (\<lambda>dest_str.
     or_answer (opt_or_status (state_resolve_existing x st (req_path req)) NOT_FOUND) (\<lambda>fs_src.
     or_answer (opt_or_status (state_resolve_write_target x st dest_str) FORBIDDEN) (\<lambda>fs_dest.
       if path_eq fs_src fs_dest then Answered (Inl FORBIDDEN) else Tr_Guard is_move fs_src dest_str G_Lookup)))"

definition after_copy :: "transfer_task \<Rightarrow> bool \<Rightarrow> task" where
  "after_copy tr src_is_dir = (if tr_move tr then Tr_Rename tr src_is_dir else Tr_Props tr)"

fun transfer_advance :: "externals \<Rightarrow> request \<Rightarrow> task \<Rightarrow> app_state \<Rightarrow> task \<times> app_state" where
  "transfer_advance x req (Tr_Guard is_move fs_src dest_str g) st =
     at_guard x dest_str (Tr_Guard is_move fs_src dest_str)
       (\<lambda>r. or_answer (or_invalid r BAD_REQUEST) (Tr_Exists is_move fs_src)) g st"
| "transfer_advance x req (Tr_Exists is_move fs_src dest) st =
     (let dest_existed_before = path_exists (st_fs st) dest
      in (if dest_existed_before \<and> \<not> parse_overwrite (req_headers req) then Answered (Inl PRECONDITION_FAILED)
          else Tr_Source \<lparr>tr_move = is_move, tr_src = fs_src, tr_dest = dest, tr_before = dest_existed_before\<rparr>, st))"
| "transfer_advance x req (Tr_Source tr) st =
     (or_answer (or_status (stat_path x (st_fs st) (tr_src tr)) NOT_FOUND) (\<lambda>meta.
        if parse_overwrite (req_headers req) \<and> tr_before tr then Tr_Dest tr meta
        else Tr_Copy tr (fm_is_dir meta) (tr_before tr)), st)"
| "transfer_advance x req (Tr_Dest tr meta) st =
     (case stat_path x (st_fs st) (tr_dest tr) of
        Inl _ \<Rightarrow> Tr_Copy tr (fm_is_dir meta) (tr_before tr)
      | Inr dest_meta \<Rightarrow>
          if fm_is_dir meta \<noteq> fm_is_dir dest_meta then Tr_Clear tr (fm_is_dir meta)
          else Tr_Copy tr (fm_is_dir meta) (tr_before tr), st)"
| "transfer_advance x req (Tr_Clear tr src_is_dir) st =
     (Tr_Copy tr src_is_dir False,
      st\<lparr>st_fs := snd (if src_is_dir then remove_file (st_fs st) (tr_dest tr) else remove_dir_all (st_fs st) (tr_dest tr))\<rparr>)"
| "transfer_advance x req (Tr_Copy tr src_is_dir dest_existed) st =
     (if src_is_dir then
        (let shallow = \<not> tr_move tr \<and> parse_depth (req_headers req) = Zero;
             continue = (if shallow then after_copy tr True else Tr_Loop tr [(tr_src tr, tr_dest tr)])
         in if dest_existed then (continue, st)
            else case create_dir (st_fs st) (tr_dest tr) of
                   (Inl _, f) \<Rightarrow> (Answered (Inl INTERNAL_SERVER_ERROR), st\<lparr>st_fs := f\<rparr>)
                 | (Inr _, f) \<Rightarrow> (continue, st\<lparr>st_fs := f\<rparr>))
      else case copy_file (st_fs st) (tr_src tr) (tr_dest tr) of
             (r, f) \<Rightarrow> (or_answer r (\<lambda>_. after_copy tr False), st\<lparr>st_fs := f\<rparr>))"
| "transfer_advance x req (Tr_Loop tr []) st = (after_copy tr True, st)"
| "transfer_advance x req (Tr_Loop tr ((src_dir, dest_dir) # stack)) st =
     (case read_dir (st_fs st) src_dir of
        Inl _ \<Rightarrow> Answered (Inl INTERNAL_SERVER_ERROR)
      | Inr listing \<Rightarrow> Tr_Entries tr src_dir dest_dir listing stack, st)"
| "transfer_advance x req (Tr_Entries tr src_dir dest_dir [] stack) st = (Tr_Loop tr stack, st)"
| "transfer_advance x req (Tr_Entries tr src_dir dest_dir (entry # rest) stack) st =
     (case copy_entry src_dir dest_dir entry (st_fs st) of
        (r, f) \<Rightarrow> (or_answer r (\<lambda>pushed. Tr_Entries tr src_dir dest_dir rest (pushed @ stack)), st\<lparr>st_fs := f\<rparr>))"
| "transfer_advance x req (Tr_Rename tr src_is_dir) st =
     (case rename (st_fs st) (tr_src tr) (tr_dest tr) of
        (Inl _, f) \<Rightarrow> (Tr_Unlink tr src_is_dir, st\<lparr>st_fs := f\<rparr>)
      | (Inr _, f) \<Rightarrow> (Tr_Props tr, st\<lparr>st_fs := f\<rparr>))"
| "transfer_advance x req (Tr_Unlink tr src_is_dir) st =
     (Tr_Props tr,
      st\<lparr>st_fs := snd (if src_is_dir then remove_dir_all (st_fs st) (tr_src tr) else remove_file (st_fs st) (tr_src tr))\<rparr>)"
| "transfer_advance x req (Tr_Props tr) st =
     (Answered (empty_reply (if tr_before tr then NO_CONTENT else CREATED)),
      st\<lparr>st_dead_props := migrate_dead_props (tr_move tr) (tr_src tr) (tr_dest tr) (st_dead_props st)\<rparr>)"
| "transfer_advance x req t st = (t, st)"

subsection \<open>The other handlers\<close>

definition lock_request_of :: "externals \<Rightarrow> request \<Rightarrow> duration \<Rightarrow> pathbuf \<Rightarrow> lock_request app_result" where
  "lock_request_of x req lock_timeout target =
     (case opt_or_status (req_bytes req) BAD_REQUEST of
        Inl e \<Rightarrow> Inl e
      | Inr body_bytes \<Rightarrow>
          (case parse_lock_body (ext_reader x) body_bytes of
             (own, sc) \<Rightarrow>
               Inr \<lparr>lr_target = target, lr_owner = own, lr_scope = sc,
                    lr_timeout = (case parse_timeout (req_headers req) of
                                    Some t \<Rightarrow> Some t
                                  | None \<Rightarrow> if lock_timeout = 0 then None else Some lock_timeout),
                    lr_depth = parse_depth (req_headers req),
                    lr_tokens = concat (map positive_tokens (parse_if_header (req_headers req)))\<rparr>))"

definition begin_task :: "externals \<Rightarrow> system_time \<Rightarrow> request \<Rightarrow> app_state \<Rightarrow> task" where
  "begin_task x now req st =
     (let existing = opt_or_status (state_resolve_existing x st (req_path req)) NOT_FOUND
      in case from_http_method (req_method req) of
           Some PUT \<Rightarrow> Put_Guard G_Lookup
         | Some DELETE \<Rightarrow> or_answer existing Del_Stat
         | Some OPTIONS \<Rightarrow> Answered (fst (handle_options x now req st))
         | Some PROPFIND \<Rightarrow>
             or_answer existing (\<lambda>fs_path.
             or_answer (opt_or_status (req_bytes req) BAD_REQUEST) (\<lambda>body_bytes.
             or_answer (or_status (parse_propfind_request (ext_reader x) body_bytes) BAD_REQUEST) (Find_Collect fs_path)))
         | Some MKCOL \<Rightarrow>
             if has_body (req_headers req) then Answered (Inl UNSUPPORTED_MEDIA_TYPE) else Mk_Guard G_Lookup
         | Some COPY \<Rightarrow> begin_transfer x req st False
         | Some MOVE \<Rightarrow> begin_transfer x req st True
         | Some PROPPATCH \<Rightarrow>
             or_answer existing (\<lambda>fs_path.
             or_answer (opt_or_status (req_bytes req) BAD_REQUEST) (\<lambda>body_bytes.
             or_answer (or_status (parse_proppatch_request (ext_reader x) body_bytes) BAD_REQUEST) (Patch_Props fs_path)))
         | Some LOCK \<Rightarrow> Lk_Guard G_Lookup
         | Some UNLOCK \<Rightarrow>
             or_answer (opt_or_status (parse_lock_token_header (req_headers req)) BAD_REQUEST) (\<lambda>tok.
             or_answer existing (\<lambda>fs_path. Un_Store fs_path tok))
         | Some GET \<Rightarrow> or_answer existing Get_Stat
         | Some HEAD \<Rightarrow> or_answer existing Get_Stat
         | _ \<Rightarrow> Answered (Inl NOT_IMPLEMENTED))"

fun http_advance :: "externals \<Rightarrow> request \<Rightarrow> task \<Rightarrow> app_state \<Rightarrow> task \<times> app_state" where
  "http_advance x req (Get_Stat p) st =
     (or_answer (or_status (stat_path x (st_fs st) p) NOT_FOUND)
        (\<lambda>meta. if fm_is_dir meta then Get_Dir p else Get_File p (fm_len meta)), st)"
| "http_advance x req (Get_Dir p) st = (Answered (get_directory x req (st_fs st) p), st)"
| "http_advance x req (Get_File p len) st = (Answered (get_file x req (st_fs st) p len), st)"
| "http_advance x req (Put_Guard g) st =
     at_guard x (req_path req) Put_Guard (\<lambda>r. or_answer (or_invalid r BAD_REQUEST) Put_Exists) g st"
| "http_advance x req (Put_Exists p) st = (Put_Write p (path_exists (st_fs st) p), st)"
| "http_advance x req (Put_Write p existed) st =
     (case file_create (st_fs st) p of
        (Inl _, f) \<Rightarrow> (Answered (Inl INTERNAL_SERVER_ERROR), st\<lparr>st_fs := f\<rparr>)
      | (Inr q, f) \<Rightarrow>
          if fs_deny f Op_write p then (Answered (Inl INTERNAL_SERVER_ERROR), st\<lparr>st_fs := f\<rparr>)
          else (Answered (if snd (req_stream req) then empty_reply (if existed then OK else CREATED)
                          else Inl INTERNAL_SERVER_ERROR),
                st\<lparr>st_fs := fs_set q (File (fst (req_stream req))) f\<rparr>))"
| "http_advance x req (Del_Stat p) st =
     (or_answer (or_status (stat_path x (st_fs st) p) NOT_FOUND) (\<lambda>meta.
        if \<not> fm_is_dir meta then Del_File p
        else if path_eq p (st_root_canonical st) then Answered (Inl BAD_REQUEST) else Del_Dir p), st)"
| "http_advance x req (Del_Dir p) st =
     (case delete_reply (remove_dir_all (st_fs st) p) of (r, f) \<Rightarrow> (Answered r, st\<lparr>st_fs := f\<rparr>))"
| "http_advance x req (Del_File p) st =
     (case delete_reply (remove_file (st_fs st) p) of (r, f) \<Rightarrow> (Answered r, st\<lparr>st_fs := f\<rparr>))"
| "http_advance x req t st = (t, st)"

fun webdav_advance :: "externals \<Rightarrow> system_time \<Rightarrow> request \<Rightarrow> task \<Rightarrow> app_state \<Rightarrow> task \<times> app_state" where
  "webdav_advance x now req (Find_Collect p pr) st =
     (case collect_entries x (st_fs st) p (req_path req) (parse_depth (req_headers req)) of
        None \<Rightarrow> Answered (Inl NO_RESPONSE) | Some entries \<Rightarrow> Find_Decorate entries pr, st)"
| "webdav_advance x now req (Find_Decorate entries pr) st =
     (case build_multistatus (map (decorate_entry now (st_dead_props st) (st_locks st)) entries) pr of
        None \<Rightarrow> Answered (Inl NO_RESPONSE) | Some xml \<Rightarrow> Answered (Inr (multistatus xml)), st)"
| "webdav_advance x now req (Mk_Guard g) st =
     at_guard x (trim_end_matches sep (req_path req)) Mk_Guard (\<lambda>r. or_answer (or_invalid r FORBIDDEN) Mk_Stat) g st"
| "webdav_advance x now req (Mk_Stat p) st =
     (case metadata (st_fs st) p of Inr _ \<Rightarrow> Answered (Inl METHOD_NOT_ALLOWED) | Inl _ \<Rightarrow> Mk_Create p, st)"
| "webdav_advance x now req (Mk_Create p) st =
     (case create_dir (st_fs st) p of
        (Inl _, f) \<Rightarrow> (Answered (Inl INTERNAL_SERVER_ERROR), st\<lparr>st_fs := f\<rparr>)
      | (Inr _, f) \<Rightarrow> (Answered (empty_reply CREATED), st\<lparr>st_fs := f\<rparr>))"
| "webdav_advance x now req (Patch_Props p op) st =
     (Answered (Inr (multistatus (build_proppatch_response (req_path req) op))),
      st\<lparr>st_dead_props := patch_props p (pp_actions op) (st_dead_props st)\<rparr>)"
| "webdav_advance x now req t st = (t, st)"

fun lock_advance :: "externals \<Rightarrow> system_time \<Rightarrow> request \<Rightarrow> task \<Rightarrow> app_state \<Rightarrow> task \<times> app_state" where
  "lock_advance x now req (Lk_Guard g) st =
     at_guard x (trim_end_matches sep (req_path req)) Lk_Guard
       (\<lambda>r. or_answer (or_invalid r FORBIDDEN) (\<lambda>target. or_answer (lock_request_of x req (st_lock_timeout st) target) Lk_Phase1)) g st"
| "lock_advance x now req (Lk_Phase1 lr) st =
     (case lock_phase1 x now lr (st_locks st) of
        (r, locks) \<Rightarrow> (case r of Some rep \<Rightarrow> Answered rep | None \<Rightarrow> Lk_Null lr, st\<lparr>st_locks := locks\<rparr>))"
| "lock_advance x now req (Lk_Null lr) st =
     (case ensure_lock_null_resource (lr_target lr) (st_fs st) of
        (r, f) \<Rightarrow> (or_answer r (Lk_Phase2 lr), st\<lparr>st_fs := f\<rparr>))"
| "lock_advance x now req (Lk_Phase2 lr created) st =
     (case lock_phase2 x now lr created (st_locks st) of (r, locks) \<Rightarrow> (Answered r, st\<lparr>st_locks := locks\<rparr>))"
| "lock_advance x now req (Un_Store p tok) st =
     (case unlock_store p tok (st_locks st) of
        (removed, locks) \<Rightarrow>
          (Answered (if removed then empty_reply NO_CONTENT else Inl FORBIDDEN), st\<lparr>st_locks := locks\<rparr>))"
| "lock_advance x now req t st = (t, st)"

text \<open>One step of a task, whatever handler it is of.\<close>

fun task_step :: "externals \<Rightarrow> system_time \<Rightarrow> request \<Rightarrow> task \<Rightarrow> app_state \<Rightarrow> task \<times> app_state" where
  "task_step x now req Begin st = (begin_task x now req st, st)"
| "task_step x now req (Answered r) st = (Answered r, st)"
| "task_step x now req (Get_Stat p) st = http_advance x req (Get_Stat p) st"
| "task_step x now req (Get_Dir p) st = http_advance x req (Get_Dir p) st"
| "task_step x now req (Get_File p len) st = http_advance x req (Get_File p len) st"
| "task_step x now req (Put_Guard g) st = http_advance x req (Put_Guard g) st"
| "task_step x now req (Put_Exists p) st = http_advance x req (Put_Exists p) st"
| "task_step x now req (Put_Write p existed) st = http_advance x req (Put_Write p existed) st"
| "task_step x now req (Del_Stat p) st = http_advance x req (Del_Stat p) st"
| "task_step x now req (Del_Dir p) st = http_advance x req (Del_Dir p) st"
| "task_step x now req (Del_File p) st = http_advance x req (Del_File p) st"
| "task_step x now req (Find_Collect p pr) st = webdav_advance x now req (Find_Collect p pr) st"
| "task_step x now req (Find_Decorate entries pr) st = webdav_advance x now req (Find_Decorate entries pr) st"
| "task_step x now req (Mk_Guard g) st = webdav_advance x now req (Mk_Guard g) st"
| "task_step x now req (Mk_Stat p) st = webdav_advance x now req (Mk_Stat p) st"
| "task_step x now req (Mk_Create p) st = webdav_advance x now req (Mk_Create p) st"
| "task_step x now req (Patch_Props p op) st = webdav_advance x now req (Patch_Props p op) st"
| "task_step x now req (Lk_Guard g) st = lock_advance x now req (Lk_Guard g) st"
| "task_step x now req (Lk_Phase1 lr) st = lock_advance x now req (Lk_Phase1 lr) st"
| "task_step x now req (Lk_Null lr) st = lock_advance x now req (Lk_Null lr) st"
| "task_step x now req (Lk_Phase2 lr created) st = lock_advance x now req (Lk_Phase2 lr created) st"
| "task_step x now req (Un_Store p tok) st = lock_advance x now req (Un_Store p tok) st"
| "task_step x now req t st = transfer_advance x req t st"

subsection \<open>A task alone\<close>

text \<open>
  \<open>finishes\<close> runs a task with no other step in between, to its answer and the state it leaves.
\<close>

inductive finishes :: "externals \<Rightarrow> system_time \<Rightarrow> request \<Rightarrow> task \<Rightarrow> app_state \<Rightarrow> reply \<Rightarrow> app_state \<Rightarrow> bool"
  for x now req where
  answered: "finishes x now req (Answered r) st r st"
| onward: "\<forall>r. t \<noteq> Answered r \<Longrightarrow> task_step x now req t st = (t1, st1) \<Longrightarrow> finishes x now req t1 st1 r st2 \<Longrightarrow>
    finishes x now req t st r st2"

inductive_cases finishesE: "finishes x now req t st r st'"

lemma finishes_answered [simp]: "finishes x now req (Answered r') st r st' \<longleftrightarrow> r = r' \<and> st' = st"
  by (auto intro: finishes.answered elim: finishesE)

lemma finishes_onward:
  assumes "\<forall>r. t \<noteq> Answered r"
  shows "finishes x now req t st r st' \<longleftrightarrow>
    finishes x now req (fst (task_step x now req t st)) (snd (task_step x now req t st)) r st'"
proof
  assume "finishes x now req t st r st'"
  then show "finishes x now req (fst (task_step x now req t st)) (snd (task_step x now req t st)) r st'"
    using assms by cases auto
qed (rule finishes.onward [OF assms], simp_all)

lemma finishes_or_answer:
  "finishes x now req (or_answer res k) st r st' \<longleftrightarrow>
     (case res of Inl e \<Rightarrow> r = Inl e \<and> st' = st | Inr a \<Rightarrow> finishes x now req (k a) st r st')"
  by (cases res) (simp_all add: or_answer_def)

lemma guard_alone:
  assumes "\<And>g s. st_lock_timeout s = st_lock_timeout st \<Longrightarrow> task_step x now req (wait g) s = at_guard x rp wait k g s"
    and "\<And>g r. wait g \<noteq> Answered r"
  shows "finishes x now req (wait G_Lookup) st r st' \<longleftrightarrow>
    (case state_resolve_and_guard x st rp of (res, st1) \<Rightarrow> finishes x now req (k res) st1 r st')"
proof -
  have on: "finishes x now req (wait g) s r st' \<longleftrightarrow>
      finishes x now req (fst (at_guard x rp wait k g s)) (snd (at_guard x rp wait k g s)) r st'"
    if "st_lock_timeout s = st_lock_timeout st" for g s
    using finishes_onward [of "wait g" x now req s r st'] assms that by simp
  show ?thesis
    by (auto simp: on at_guard_def state_resolve_and_guard_def resolve_and_guard_def state_resolve_write_target_def
        guard_result_def parent_canonical_def Let_def split: option.splits sum.splits if_splits)
qed

end
