(* ===== verification/Task_Alone.thy ===== *)
theory Task_Alone
  imports Tasks
begin

section \<open>A task alone is its handler\<close>

text \<open>
  A task that nobody interrupts gives the answer and leaves the state of the handler as one
  function, and it comes to its end whenever the handler returns.
\<close>

lemmas finishes_get = finishes_onward [of "Get_Stat p" for p, simplified] finishes_onward [of "Get_Dir p" for p, simplified]
  finishes_onward [of "Get_File p n" for p n, simplified]

lemmas finishes_put = finishes_onward [of "Put_Exists p" for p, simplified] finishes_onward [of "Put_Write p e" for p e, simplified]

lemmas finishes_delete = finishes_onward [of "Del_Stat p" for p, simplified] finishes_onward [of "Del_Dir p" for p, simplified]
  finishes_onward [of "Del_File p" for p, simplified]

lemmas finishes_find = finishes_onward [of "Find_Collect p pr" for p pr, simplified]
  finishes_onward [of "Find_Decorate es pr" for es pr, simplified]

lemmas finishes_mkcol = finishes_onward [of "Mk_Stat p" for p, simplified] finishes_onward [of "Mk_Create p" for p, simplified]

lemmas finishes_lock = finishes_onward [of "Lk_Phase1 lr" for lr, simplified] finishes_onward [of "Lk_Null lr" for lr, simplified]
  finishes_onward [of "Lk_Phase2 lr c" for lr c, simplified] finishes_onward [of "Un_Store p t" for p t, simplified]
  finishes_onward [of "Patch_Props p op" for p op, simplified]

lemmas finishes_transfer = finishes_onward [of "Tr_Exists m s d" for m s d, simplified]
  finishes_onward [of "Tr_Source tr" for tr, simplified] finishes_onward [of "Tr_Dest tr m" for tr m, simplified]
  finishes_onward [of "Tr_Clear tr b" for tr b, simplified] finishes_onward [of "Tr_Copy tr b e" for tr b e, simplified]
  finishes_onward [of "Tr_Rename tr b" for tr b, simplified] finishes_onward [of "Tr_Unlink tr b" for tr b, simplified]
  finishes_onward [of "Tr_Props tr" for tr, simplified]

lemmas finishes_loop = finishes_onward [of "Tr_Loop tr stack" for tr stack, simplified]
  finishes_onward [of "Tr_Entries tr s d es stack" for tr s d es stack, simplified]

lemma begin_alone: "finishes x now req Begin st r st' \<longleftrightarrow> finishes x now req (begin_task x now req st) st r st'"
  using finishes_onward [of Begin x now req st r st'] by simp

subsection \<open>Handlers without a loop\<close>

lemma get_alone:
  "finishes x now req (or_answer (opt_or_status (state_resolve_existing x st (req_path req)) NOT_FOUND) Get_Stat) st r st' \<longleftrightarrow>
     handle_get_head x now req st = (r, st')"
  by (auto simp: finishes_or_answer finishes_get handle_get_head_def split: sum.split)

lemma put_alone: "finishes x now req (Put_Guard G_Lookup) st r st' \<longleftrightarrow> handle_put x now req st = (r, st')"
  by (subst guard_alone [where rp = "req_path req" and k = "\<lambda>r. or_answer (or_invalid r BAD_REQUEST) Put_Exists"])
    (auto simp: finishes_or_answer finishes_put handle_put_def put_file_def Let_def split: sum.splits prod.splits)

lemma delete_alone:
  "finishes x now req (or_answer (opt_or_status (state_resolve_existing x st (req_path req)) NOT_FOUND) Del_Stat) st r st' \<longleftrightarrow>
     handle_delete x now req st = (r, st')"
  by (auto simp: finishes_or_answer finishes_delete handle_delete_def split: sum.splits prod.splits)

lemma mkcol_alone:
  "finishes x now req (if has_body (req_headers req) then Answered (Inl UNSUPPORTED_MEDIA_TYPE) else Mk_Guard G_Lookup) st r st' \<longleftrightarrow>
     handle_mkcol x now req st = (r, st')"
proof (cases "has_body (req_headers req)")
  case False
  then show ?thesis
    by (simp, subst guard_alone [where rp = "trim_end_matches sep (req_path req)"
        and k = "\<lambda>r. or_answer (or_invalid r FORBIDDEN) Mk_Stat"])
      (auto simp: finishes_or_answer finishes_mkcol handle_mkcol_def make_collection_def split: sum.splits prod.splits)
qed (auto simp: handle_mkcol_def)

lemma propfind_alone:
  "finishes x now req
     (or_answer (opt_or_status (state_resolve_existing x st (req_path req)) NOT_FOUND) (\<lambda>fs_path.
      or_answer (opt_or_status (req_bytes req) BAD_REQUEST) (\<lambda>body_bytes.
      or_answer (or_status (parse_propfind_request (ext_reader x) body_bytes) BAD_REQUEST) (Find_Collect fs_path)))) st r st' \<longleftrightarrow>
     handle_propfind x now req st = (r, st')"
  by (auto simp: finishes_or_answer finishes_find handle_propfind_def propfind_entries_def split: sum.splits option.splits)

lemma proppatch_alone:
  "finishes x now req
     (or_answer (opt_or_status (state_resolve_existing x st (req_path req)) NOT_FOUND) (\<lambda>fs_path.
      or_answer (opt_or_status (req_bytes req) BAD_REQUEST) (\<lambda>body_bytes.
      or_answer (or_status (parse_proppatch_request (ext_reader x) body_bytes) BAD_REQUEST) (Patch_Props fs_path)))) st r st' \<longleftrightarrow>
     handle_proppatch x now req st = (r, st')"
  by (auto simp: finishes_or_answer finishes_lock handle_proppatch_def split: sum.splits)

lemma unlock_alone:
  "finishes x now req
     (or_answer (opt_or_status (parse_lock_token_header (req_headers req)) BAD_REQUEST) (\<lambda>tok.
      or_answer (opt_or_status (state_resolve_existing x st (req_path req)) NOT_FOUND) (\<lambda>fs_path. Un_Store fs_path tok))) st r st' \<longleftrightarrow>
     handle_unlock x now req st = (r, st')"
  by (auto simp: finishes_or_answer finishes_lock handle_unlock_def split: sum.splits prod.splits)

lemma prepare_lock_guard:
  "prepare_lock x req st =
     (case state_resolve_and_guard x st (trim_end_matches sep (req_path req)) of
        (r, st1) \<Rightarrow>
          (case or_invalid r FORBIDDEN of
             Inl e \<Rightarrow> Inl e | Inr target \<Rightarrow> lock_request_of x req (st_lock_timeout st) target, st1))"
  using guard_frame_fields(6) [of x st "trim_end_matches sep (req_path req)"]
  by (auto simp: prepare_lock_def lock_request_of_def Let_def split: prod.splits sum.splits option.split)

lemma lock_alone: "finishes x now req (Lk_Guard G_Lookup) st r st' \<longleftrightarrow> handle_lock x now req st = (r, st')"
proof -
  let ?k = "\<lambda>r. or_answer (or_invalid r FORBIDDEN) (\<lambda>target. or_answer (lock_request_of x req (st_lock_timeout st) target) Lk_Phase1)"
  obtain g st1 where g: "state_resolve_and_guard x st (trim_end_matches sep (req_path req)) = (g, st1)" by fastforce
  have "finishes x now req (Lk_Guard G_Lookup) st r st' \<longleftrightarrow> finishes x now req (?k g) st1 r st'"
    using guard_alone [of st x now req Lk_Guard "trim_end_matches sep (req_path req)" ?k] g by simp
  then have fin: "finishes x now req (Lk_Guard G_Lookup) st r st' \<longleftrightarrow>
      (case fst (prepare_lock x req st) of Inl e \<Rightarrow> r = Inl e \<and> st' = st1
       | Inr lr \<Rightarrow> finishes x now req (Lk_Phase1 lr) st1 r st')"
    by (simp add: prepare_lock_guard g finishes_or_answer split: sum.split)
  have st1: "snd (prepare_lock x req st) = st1" by (simp add: prepare_lock_guard g)
  show ?thesis
  proof (cases "fst (prepare_lock x req st)")
    case (Inl e)
    then have "prepare_lock x req st = (Inl e, st1)" using st1 by (simp add: prod_eq_iff)
    then show ?thesis using fin by (auto simp: handle_lock_def)
  next
    case (Inr lr)
    then have p: "prepare_lock x req st = (Inr lr, st1)" using st1 by (simp add: prod_eq_iff)
    obtain a locks where l1: "lock_phase1 x now lr (st_locks st1) = (a, locks)" by fastforce
    show ?thesis
    proof (cases a)
      case (Some rep)
      then show ?thesis using fin p l1 by (auto simp: handle_lock_def finishes_lock)
    next
      case None
      obtain c f where n: "ensure_lock_null_resource (lr_target lr) (st_fs st1) = (c, f)" by fastforce
      show ?thesis
        using fin p l1 n None by (cases c) (auto simp: handle_lock_def finishes_lock finishes_or_answer split: prod.splits)
    qed
  qed
qed

subsection \<open>COPY and MOVE\<close>

text \<open>
  The steps of the loop of a directory's copy, and the loop as one function: the task leaves the
  loop when \<open>copy_loop\<close> has a value.
\<close>

definition after_loop ::
  "externals \<Rightarrow> system_time \<Rightarrow> request \<Rightarrow> transfer_task \<Rightarrow> (pathbuf \<times> pathbuf) list \<Rightarrow> app_state \<Rightarrow> reply \<Rightarrow> app_state \<Rightarrow> bool" where
  "after_loop x now req tr stack st r st' \<longleftrightarrow>
     (\<exists>res f. copy_loop stack (st_fs st) = Some (res, f) \<and>
        finishes x now req (or_answer res (\<lambda>_. after_copy tr True)) (st\<lparr>st_fs := f\<rparr>) r st')"

lemma after_loop_simps:
  "after_loop x now req tr [] st r st' \<longleftrightarrow> finishes x now req (after_copy tr True) st r st'"
  "after_loop x now req tr ((s, d) # rest) st r st' \<longleftrightarrow>
     (case copy_step s d rest (st_fs st) of
        (Inl e, f) \<Rightarrow> r = Inl e \<and> st' = st\<lparr>st_fs := f\<rparr>
      | (Inr stack, f) \<Rightarrow> after_loop x now req tr stack (st\<lparr>st_fs := f\<rparr>) r st')"
  by (auto simp: after_loop_def copy_loop.simps [of "[]"] copy_loop.simps [of "(s, d) # rest"] finishes_or_answer
      split: prod.split sum.split)

lemma entries_alone:
  "finishes x now req (Tr_Entries tr s d es stack) st r st' \<longleftrightarrow>
     (case copy_listing s d es stack (st_fs st) of
        (Inl e, f) \<Rightarrow> r = Inl e \<and> st' = st\<lparr>st_fs := f\<rparr>
      | (Inr stack1, f) \<Rightarrow> finishes x now req (Tr_Loop tr stack1) (st\<lparr>st_fs := f\<rparr>) r st')"
proof (induction es arbitrary: stack st)
  case Nil
  then show ?case by (simp add: finishes_loop(2) [of _ _ _ _ _ _ "[]"])
next
  case (Cons en es)
  obtain c f where c: "copy_entry s d en (st_fs st) = (c, f)" by fastforce
  show ?case
    by (subst finishes_loop(2)) (cases c; simp add: c Cons.IH finishes_or_answer split: prod.split sum.split)
qed

lemma loop_reaches:
  "finishes x now req t st r st' \<Longrightarrow>
     (\<forall>tr stack. t = Tr_Loop tr stack \<longrightarrow> after_loop x now req tr stack st r st') \<and>
     (\<forall>tr s d es stack. t = Tr_Entries tr s d es stack \<longrightarrow>
        (case copy_listing s d es stack (st_fs st) of
           (Inl e, f) \<Rightarrow> r = Inl e \<and> st' = st\<lparr>st_fs := f\<rparr>
         | (Inr stack1, f) \<Rightarrow> after_loop x now req tr stack1 (st\<lparr>st_fs := f\<rparr>) r st'))"
proof (induction rule: finishes.induct)
  case (answered r st)
  then show ?case by simp
next
  case (onward t st t1 st1 r st2)
  have "after_loop x now req tr stack st r st2" if t: "t = Tr_Loop tr stack" for tr stack
  proof (cases stack)
    case Nil
    with onward.hyps t show ?thesis by (simp add: after_loop_simps)
  next
    case (Cons e rest)
    obtain s d where e: "e = (s, d)" by (cases e)
    show ?thesis
    proof (cases "read_dir (st_fs st) s")
      case (Inl err)
      with onward.hyps t Cons e show ?thesis by (auto simp: after_loop_simps copy_step_def)
    next
      case (Inr listing)
      with onward.hyps(2) t Cons e have "t1 = Tr_Entries tr s d listing rest" "st1 = st" by auto
      with onward.IH Inr Cons e show ?thesis by (simp add: after_loop_simps copy_step_def split: prod.splits sum.splits)
    qed
  qed
  moreover have "case copy_listing s d es stack (st_fs st) of
       (Inl e, f) \<Rightarrow> r = Inl e \<and> st2 = st\<lparr>st_fs := f\<rparr>
     | (Inr stack1, f) \<Rightarrow> after_loop x now req tr stack1 (st\<lparr>st_fs := f\<rparr>) r st2"
    if t: "t = Tr_Entries tr s d es stack" for tr s d es stack
  proof (cases es)
    case Nil
    with onward.hyps(2) t onward.IH show ?thesis by auto
  next
    case (Cons en rest)
    obtain c f where c: "copy_entry s d en (st_fs st) = (c, f)" by fastforce
    show ?thesis
    proof (cases c)
      case (Inl err)
      with onward.hyps t Cons c show ?thesis by (auto simp: or_answer_def)
    next
      case (Inr pushed)
      with onward.hyps(2) t Cons c have "t1 = Tr_Entries tr s d rest (pushed @ stack)" "st1 = st\<lparr>st_fs := f\<rparr>"
        by (auto simp: or_answer_def)
      with onward.IH Inr Cons c show ?thesis by (simp split: prod.splits sum.splits)
    qed
  qed
  ultimately show ?case by blast
qed

lemma loop_returns:
  "copy_loop stack f = Some res \<Longrightarrow> st_fs st = f \<Longrightarrow>
     finishes x now req (or_answer (fst res) (\<lambda>_. after_copy tr True)) (st\<lparr>st_fs := snd res\<rparr>) r st' \<Longrightarrow>
     finishes x now req (Tr_Loop tr stack) st r st'"
proof (induction arbitrary: st rule: copy_loop_induct)
  case (empty f)
  then show ?case by (subst finishes_loop(1)) (auto simp: or_answer_def)
next
  case (failed s d rest f e f1)
  then show ?case
    by (subst finishes_loop(1))
      (auto simp: copy_step_def entries_alone finishes_or_answer split: sum.splits)
next
  case (again s d rest f stack1 f1 res)
  have "finishes x now req (Tr_Loop tr stack1) (st\<lparr>st_fs := f1\<rparr>) r st'"
    by (rule again.IH) (use again.prems in simp_all)
  with again.hyps again.prems(1) show ?case
    by (subst finishes_loop(1)) (auto simp: copy_step_def entries_alone split: sum.splits)
qed

lemma loop_alone: "finishes x now req (Tr_Loop tr stack) st r st' \<longleftrightarrow> after_loop x now req tr stack st r st'"
  using loop_reaches [of x now req "Tr_Loop tr stack" st r st'] loop_returns [of stack "st_fs st" _ st x now req tr r st']
  by (fastforce simp: after_loop_def)

text \<open>The stages of a transfer, one after the other.\<close>

lemma after_copy_alone:
  "finishes x now req (after_copy tr dir) st r st' \<longleftrightarrow>
     r = empty_reply (if tr_before tr then NO_CONTENT else CREATED) \<and>
     st' = st\<lparr>st_fs := finish_move (st_fs st) (tr_move tr) dir (tr_src tr) (tr_dest tr),
             st_dead_props := migrate_dead_props (tr_move tr) (tr_src tr) (tr_dest tr) (st_dead_props st)\<rparr>"
proof (cases "tr_move tr")
  case True
  obtain e f where r: "rename (st_fs st) (tr_src tr) (tr_dest tr) = (e, f)" by fastforce
  with True show ?thesis
    by (cases e) (auto simp: after_copy_def finishes_transfer finish_move_def)
qed (auto simp: after_copy_def finishes_transfer finish_move_def)

lemma copy_alone:
  "finishes x now req (Tr_Copy tr dir ex) st r st' \<longleftrightarrow>
     (\<exists>res f. copy_resource (st_fs st) (tr_move tr) (parse_depth (req_headers req)) dir (tr_src tr) (tr_dest tr) ex =
                Some (res, f) \<and>
        finishes x now req (or_answer res (\<lambda>_. after_copy tr dir)) (st\<lparr>st_fs := f\<rparr>) r st')"
proof (cases dir)
  case True
  obtain e f where c: "create_dir (st_fs st) (tr_dest tr) = (e, f)" by fastforce
  show ?thesis
    by (subst finishes_transfer(5), cases e)
      (auto simp: copy_resource_def copy_dir_def loop_alone after_loop_def c finishes_or_answer Let_def True)
next
  case False
  obtain e f where c: "copy_file (st_fs st) (tr_src tr) (tr_dest tr) = (e, f)" by fastforce
  with False show ?thesis by (subst finishes_transfer(5)) (simp add: copy_resource_def)
qed

lemma source_alone:
  "finishes x now req (Tr_Source tr) st r st' \<longleftrightarrow>
     (case or_status (stat_path x (st_fs st) (tr_src tr)) NOT_FOUND of
        Inl e \<Rightarrow> r = Inl e \<and> st' = st
      | Inr meta \<Rightarrow>
          (case clear_target x (st_fs st) meta (tr_dest tr) (parse_overwrite (req_headers req)) (tr_before tr) of
             (ex, f1) \<Rightarrow> finishes x now req (Tr_Copy tr (fm_is_dir meta) ex) (st\<lparr>st_fs := f1\<rparr>) r st'))"
proof (cases "or_status (stat_path x (st_fs st) (tr_src tr)) NOT_FOUND")
  case (Inl e)
  then show ?thesis by (subst finishes_transfer(2)) (simp add: finishes_or_answer)
next
  case (Inr meta)
  show ?thesis
  proof (cases "parse_overwrite (req_headers req) \<and> tr_before tr")
    case True
    then show ?thesis
      using Inr
      by (subst finishes_transfer(2), cases "stat_path x (st_fs st) (tr_dest tr)")
        (auto simp: finishes_or_answer clear_target_def finishes_transfer(3,4))
  next
    case False
    then show ?thesis
      using Inr by (subst finishes_transfer(2)) (auto simp: finishes_or_answer clear_target_def)
  qed
qed

lemma transfer_alone:
  assumes "transfer x is_move (parse_overwrite (req_headers req)) (parse_depth (req_headers req)) src dest st = (r0, st0)"
  shows "finishes x now req (Tr_Exists is_move src dest) st r st' \<Longrightarrow> r = r0 \<and> st' = st0"
    and "r0 \<noteq> Inl NO_RESPONSE \<Longrightarrow> finishes x now req (Tr_Exists is_move src dest) st r0 st0"
proof -
  let ?ex = "path_exists (st_fs st) dest" and ?ow = "parse_overwrite (req_headers req)"
  let ?tr = "\<lparr>tr_move = is_move, tr_src = src, tr_dest = dest, tr_before = ?ex\<rparr>"
  have "(finishes x now req (Tr_Exists is_move src dest) st r st' \<longrightarrow> r = r0 \<and> st' = st0) \<and>
      (r0 \<noteq> Inl NO_RESPONSE \<longrightarrow> finishes x now req (Tr_Exists is_move src dest) st r0 st0)"
  proof (cases "?ex \<and> \<not> ?ow")
    case True
    with assms show ?thesis by (auto simp: finishes_transfer(1) transfer_def Let_def)
  next
    case False
    then have fin: "finishes x now req (Tr_Exists is_move src dest) st r st' \<longleftrightarrow> finishes x now req (Tr_Source ?tr) st r st'"
      for r st' by (auto simp: finishes_transfer(1) Let_def)
    show ?thesis
    proof (cases "or_status (stat_path x (st_fs st) src) NOT_FOUND")
      case (Inl e)
      then have "r0 = Inl e" "st0 = st" using assms False by (auto simp: transfer_def Let_def)
      with Inl show ?thesis unfolding fin source_alone by simp
    next
      case (Inr meta)
      obtain ex f1 where c: "clear_target x (st_fs st) meta dest ?ow ?ex = (ex, f1)" by fastforce
      show ?thesis
      proof (cases "copy_resource f1 is_move (parse_depth (req_headers req)) (fm_is_dir meta) src dest ex")
        case None
        then have "r0 = Inl NO_RESPONSE" using assms False Inr c by (auto simp: transfer_def Let_def)
        with None Inr c show ?thesis unfolding fin source_alone copy_alone by simp
      next
        case (Some res)
        obtain e f2 where e: "res = (e, f2)" by fastforce
        have "finishes x now req (Tr_Source ?tr) st r st' \<longleftrightarrow> r = r0 \<and> st' = st0" for r st'
          using Some e assms False Inr c
          by (cases e) (auto simp: source_alone copy_alone finishes_or_answer after_copy_alone transfer_def Let_def)
        then show ?thesis unfolding fin by blast
      qed
    qed
  qed
  then show "finishes x now req (Tr_Exists is_move src dest) st r st' \<Longrightarrow> r = r0 \<and> st' = st0"
    and "r0 \<noteq> Inl NO_RESPONSE \<Longrightarrow> finishes x now req (Tr_Exists is_move src dest) st r0 st0" by blast+
qed

lemma move_or_copy_alone:
  assumes "do_move_or_copy is_move x now req st = (r0, st0)"
  shows "finishes x now req (begin_transfer x req st is_move) st r st' \<Longrightarrow> r = r0 \<and> st' = st0"
    and "r0 \<noteq> Inl NO_RESPONSE \<Longrightarrow> finishes x now req (begin_transfer x req st is_move) st r0 st0"
proof -
  let ?go = "\<lambda>src rp. finishes x now req (Tr_Guard is_move src rp G_Lookup) st"
  have guard: "?go src rp r st' \<longleftrightarrow>
      (case state_resolve_and_guard x st rp of
         (res, st1) \<Rightarrow> finishes x now req (or_answer (or_invalid res BAD_REQUEST) (Tr_Exists is_move src)) st1 r st')"
    for src rp r st'
    by (rule guard_alone) simp_all
  have "(finishes x now req (begin_transfer x req st is_move) st r st' \<longrightarrow> r = r0 \<and> st' = st0) \<and>
      (r0 \<noteq> Inl NO_RESPONSE \<longrightarrow> finishes x now req (begin_transfer x req st is_move) st r0 st0)"
  proof (cases "\<exists>e. begin_transfer x req st is_move = Answered (Inl e) \<and> r0 = Inl e \<and> st0 = st")
    case False
    then obtain rp src fd where rp: "opt_or_status (parse_destination (ext_pct x) (req_headers req)) BAD_REQUEST = Inr rp"
        "opt_or_status (state_resolve_existing x st (req_path req)) NOT_FOUND = Inr src"
        "opt_or_status (state_resolve_write_target x st rp) FORBIDDEN = Inr fd" "\<not> path_eq src fd"
      using assms
      by (cases "opt_or_status (parse_destination (ext_pct x) (req_headers req)) BAD_REQUEST";
          cases "opt_or_status (state_resolve_existing x st (req_path req)) NOT_FOUND")
        (auto simp: begin_transfer_def or_answer_def do_move_or_copy_def Let_def split: sum.splits if_splits)
    obtain g st1 where g: "state_resolve_and_guard x st rp = (g, st1)" by fastforce
    have b: "begin_transfer x req st is_move = Tr_Guard is_move src rp G_Lookup"
      using rp by (simp add: begin_transfer_def or_answer_def)
    show ?thesis
    proof (cases "or_invalid g BAD_REQUEST")
      case (Inl e)
      with assms rp g show ?thesis by (auto simp: b guard finishes_or_answer do_move_or_copy_def Let_def)
    next
      case (Inr dest)
      have "transfer x is_move (parse_overwrite (req_headers req)) (parse_depth (req_headers req)) src dest st1 = (r0, st0)"
        using assms rp g Inr by (simp add: do_move_or_copy_def Let_def)
      note t = transfer_alone [OF this]
      show ?thesis using t by (auto simp: b guard g Inr finishes_or_answer)
    qed
  qed auto
  then show "finishes x now req (begin_transfer x req st is_move) st r st' \<Longrightarrow> r = r0 \<and> st' = st0"
    and "r0 \<noteq> Inl NO_RESPONSE \<Longrightarrow> finishes x now req (begin_transfer x req st is_move) st r0 st0" by blast+
qed

subsection \<open>Every handler\<close>

lemma begin_finishes:
  "(finishes x now req Begin st r st' \<longrightarrow> dispatch_handler x now req st = (r, st')) \<and>
   (fst (dispatch_handler x now req st) \<noteq> Inl NO_RESPONSE \<longrightarrow>
      finishes x now req Begin st (fst (dispatch_handler x now req st)) (snd (dispatch_handler x now req st)))"
proof -
  obtain r0 st0 where d: "dispatch_handler x now req st = (r0, st0)" by fastforce
  note simps = begin_alone begin_task_def dispatch_handler_def Let_def
  have exact: ?thesis
    if "\<And>r st'. finishes x now req Begin st r st' \<longleftrightarrow> dispatch_handler x now req st = (r, st')"
    by (simp add: that)
  have moved: ?thesis
    if "from_http_method (req_method req) = Some (if is_move then MOVE else COPY)" for is_move
  proof -
    have "do_move_or_copy is_move x now req st = (r0, st0)"
      using d that by (cases is_move) (simp_all add: dispatch_handler_def handle_copy_def handle_move_def)
    note m = move_or_copy_alone [OF this]
    have "finishes x now req Begin st r st' \<longleftrightarrow> finishes x now req (begin_transfer x req st is_move) st r st'" for r st'
      using that by (cases is_move) (simp_all add: simps)
    with m d show ?thesis by auto
  qed
  show ?thesis
  proof (cases "from_http_method (req_method req)")
    case None
    then show ?thesis by (intro exact) (auto simp: simps)
  next
    case (Some m)
    show ?thesis
      using Some moved [of False] moved [of True]
      by (cases m)
        (simp_all, (intro exact; auto simp: simps get_alone put_alone delete_alone mkcol_alone propfind_alone
          proppatch_alone unlock_alone lock_alone handle_options_def)+)
  qed
qed

end
