(* ===== verification/Interleaving.thy ===== *)
theory Interleaving
  imports Task_Alone
begin

section \<open>Concurrent requests (src/server/mod.rs)\<close>

text \<open>
  The server with its requests in flight, each at a point of its handler. A request that the
  middlewares let through becomes a task; the tasks take their steps in any order, each with the
  clocks and the answers of other code that its event gives; a task that has answered, or whose
  client has gone, leaves the pool, and its handler does not go on. Rounds of the cleanup task come
  at any time, and so does a new iteration order of the lock store, which is a hash map.
\<close>

record pool =
  pl_server :: server
  pl_tasks :: "(request \<times> task) list"

datatype pool_event =
    Come environment request | Advance nat environment | Leave nat | Sweep environment | Rehash lock_store

abbreviation pool_app :: "pool \<Rightarrow> app_state" where
  "pool_app pl \<equiv> srv_app (pl_server pl)"

fun pool_step :: "pool_event \<Rightarrow> pool \<Rightarrow> pool option" where
  "pool_step (Come env req) pl =
     (case admit env req (pl_server pl) of
        (Some reply, s1) \<Rightarrow> Some (pl\<lparr>pl_server := s1\<rparr>)
      | (None, s1) \<Rightarrow> Some (pl\<lparr>pl_server := s1, pl_tasks := pl_tasks pl @ [(req, Begin)]\<rparr>))"
| "pool_step (Advance i env) pl =
     (if i < length (pl_tasks pl)
      then (case pl_tasks pl ! i of
              (req, t) \<Rightarrow>
                (case task_step (env_x env) (env_now env) req t (pool_app pl) of
                   (t1, st) \<Rightarrow>
                     Some (pl\<lparr>pl_server := (pl_server pl)\<lparr>srv_app := st\<rparr>, pl_tasks := (pl_tasks pl)[i := (req, t1)]\<rparr>)))
      else None)"
| "pool_step (Leave i) pl =
     (if i < length (pl_tasks pl)
      then Some (pl\<lparr>pl_tasks := take i (pl_tasks pl) @ drop (Suc i) (pl_tasks pl)\<rparr>)
      else None)"
| "pool_step (Sweep env) pl = Some (pl\<lparr>pl_server := cleanup_server env (pl_server pl)\<rparr>)"
| "pool_step (Rehash locks) pl =
     (if mset locks = mset (st_locks (pool_app pl))
      then Some (pl\<lparr>pl_server := (pl_server pl)\<lparr>srv_app := (pool_app pl)\<lparr>st_locks := locks\<rparr>\<rparr>\<rparr>)
      else None)"

fun pool_run :: "pool_event list \<Rightarrow> pool \<Rightarrow> pool option" where
  "pool_run [] pl = Some pl"
| "pool_run (e # es) pl = Option.bind (pool_step e pl) (pool_run es)"

lemma pool_run_append: "pool_run (es @ es') pl = Option.bind (pool_run es pl) (pool_run es')"
  by (induction es arbitrary: pl) (auto split: bind_splits)

lemma pool_run_induct [consumes 1, case_names start step]:
  assumes "pool_run es pl0 = Some pl" "P [] pl0"
    and "\<And>es e pl pl'. pool_run es pl0 = Some pl \<Longrightarrow> P es pl \<Longrightarrow> pool_step e pl = Some pl' \<Longrightarrow> P (es @ [e]) pl'"
  shows "P es pl"
  using assms(1)
proof (induction es arbitrary: pl rule: rev_induct)
  case (snoc e es)
  then obtain pl1 where pl1: "pool_run es pl0 = Some pl1" "pool_step e pl1 = Some pl"
    by (auto simp: pool_run_append split: bind_splits)
  show ?case by (rule assms(3) [OF pl1(1) snoc.IH [OF pl1(1)] pl1(2)])
qed (use assms(2) in simp)

subsection \<open>The coarse life is one of the schedules\<close>

text \<open>
  A task advanced with no other event in between comes to the answer and the state of
  \<open>dispatch\<close>; so an execution in which every handler is one event is one of the executions here.
\<close>

lemma finishes_schedule:
  assumes "finishes (env_x env) (env_now env) req t st r st'"
  shows "pool_app pl = st \<Longrightarrow> i < length (pl_tasks pl) \<Longrightarrow> pl_tasks pl ! i = (req, t) \<Longrightarrow>
    \<exists>n. pool_run (replicate n (Advance i env)) pl =
      Some (pl\<lparr>pl_server := (pl_server pl)\<lparr>srv_app := st'\<rparr>, pl_tasks := (pl_tasks pl)[i := (req, Answered r)]\<rparr>)"
  using assms
proof (induction arbitrary: pl rule: finishes.induct)
  case (answered r st)
  then have "(pl_tasks pl)[i := (req, Answered r)] = pl_tasks pl" by (metis list_update_id)
  with answered show ?case by (intro exI [of _ 0]) simp
next
  case (onward t st t1 st1 r st2)
  let ?pl = "pl\<lparr>pl_server := (pl_server pl)\<lparr>srv_app := st1\<rparr>, pl_tasks := (pl_tasks pl)[i := (req, t1)]\<rparr>"
  have "pool_step (Advance i env) pl = Some ?pl" using onward.hyps(2) onward.prems by simp
  moreover obtain n where "pool_run (replicate n (Advance i env)) ?pl =
      Some (?pl\<lparr>pl_server := (pl_server ?pl)\<lparr>srv_app := st2\<rparr>, pl_tasks := (pl_tasks ?pl)[i := (req, Answered r)]\<rparr>)"
    using onward.IH [of ?pl] onward.prems by auto
  ultimately show ?case by (intro exI [of _ "Suc n"]) simp
qed

lemma schedule_finishes:
  "pool_run (replicate n (Advance i env)) pl = Some pl' \<Longrightarrow> pl_tasks pl ! i = (req, t) \<Longrightarrow>
     pl_tasks pl' ! i = (req', Answered r) \<Longrightarrow>
     finishes (env_x env) (env_now env) req t (pool_app pl) r (pool_app pl') \<and>
       pl_server pl' = (pl_server pl)\<lparr>srv_app := pool_app pl'\<rparr>"
proof (induction n arbitrary: pl t)
  case 0
  then show ?case by auto
next
  case (Suc n)
  obtain t1 st where t1: "task_step (env_x env) (env_now env) req t (pool_app pl) = (t1, st)" by fastforce
  let ?pl = "pl\<lparr>pl_server := (pl_server pl)\<lparr>srv_app := st\<rparr>, pl_tasks := (pl_tasks pl)[i := (req, t1)]\<rparr>"
  have i: "i < length (pl_tasks pl)" using Suc.prems(1) by (auto split: if_splits)
  have "pool_run (replicate n (Advance i env)) ?pl = Some pl'"
    using Suc.prems(1,2) i t1 by (simp split: if_splits)
  from Suc.IH [OF this _ Suc.prems(3), of t1] i
  have f: "finishes (env_x env) (env_now env) req t1 st r (pool_app pl')"
      "pl_server pl' = (pl_server pl)\<lparr>srv_app := pool_app pl'\<rparr>" by simp_all
  show ?case
  proof (cases "\<exists>r. t = Answered r")
    case True
    with f t1 show ?thesis by auto
  next
    case False
    with f t1 show ?thesis by (auto intro: finishes.onward)
  qed
qed

text \<open>
  C4: a handler that no other event comes between is the handler as one function. However often its
  task is advanced, the answer that it comes to is the one of \<open>dispatch\<close>, and so is the server that
  it leaves; and it comes to one whenever the handler returns. So an execution whose requests are
  handled in one event each is one of the interleaved executions.
\<close>

theorem lone_task_is_dispatch:
  assumes "i < length (pl_tasks pl)" and "pl_tasks pl ! i = (req, Begin)"
  shows "(\<forall>n pl' r. pool_run (replicate n (Advance i env)) pl = Some pl' \<and> pl_tasks pl' ! i = (req, Answered r) \<longrightarrow>
      dispatch env req (pl_server pl) = (r, pl_server pl')) \<and>
    (fst (dispatch env req (pl_server pl)) \<noteq> Inl NO_RESPONSE \<longrightarrow>
      (\<exists>n. pool_run (replicate n (Advance i env)) pl =
         Some (pl\<lparr>pl_server := snd (dispatch env req (pl_server pl)),
                  pl_tasks := (pl_tasks pl)[i := (req, Answered (fst (dispatch env req (pl_server pl))))]\<rparr>)))"
proof -
  obtain r0 st0 where d: "dispatch_handler (env_x env) (env_now env) req (pool_app pl) = (r0, st0)" by fastforce
  then have ds: "dispatch env req (pl_server pl) = (r0, (pl_server pl)\<lparr>srv_app := st0\<rparr>)"
    by (simp add: dispatch_def lift_handler_def)
  note b = begin_finishes [of "env_x env" "env_now env" req "pool_app pl"]
  have "dispatch env req (pl_server pl) = (r, pl_server pl')"
    if "pool_run (replicate n (Advance i env)) pl = Some pl'" "pl_tasks pl' ! i = (req, Answered r)" for n pl' r
    using schedule_finishes [OF that(1) assms(2) that(2)] b [of r "pool_app pl'"] d ds by simp
  moreover have "\<exists>n. pool_run (replicate n (Advance i env)) pl =
      Some (pl\<lparr>pl_server := (pl_server pl)\<lparr>srv_app := st0\<rparr>, pl_tasks := (pl_tasks pl)[i := (req, Answered r0)]\<rparr>)"
    if "r0 \<noteq> Inl NO_RESPONSE"
    using b d that finishes_schedule [of env req Begin "pool_app pl" r0 st0, OF _ refl assms] by simp
  ultimately show ?thesis unfolding ds by auto
qed

subsection \<open>Locks\<close>

text \<open>
  The clock does not go back between the events of a run; \<open>event_times\<close> are its readings.
\<close>

fun event_time :: "pool_event \<Rightarrow> system_time option" where
  "event_time (Come env req) = Some (env_now env)"
| "event_time (Advance i env) = Some (env_now env)"
| "event_time (Leave i) = None"
| "event_time (Sweep env) = Some (env_now env)"
| "event_time (Rehash locks) = None"

definition event_times :: "pool_event list \<Rightarrow> system_time list" where
  "event_times es = List.map_filter event_time es"

lemma event_times_simps [simp]:
  "event_times [] = []"
  "event_times (e # es) = (case event_time e of None \<Rightarrow> event_times es | Some t \<Rightarrow> t # event_times es)"
  by (simp_all add: event_times_def split: option.split)

lemma at_guard_locks: "st_locks (snd (at_guard x rp wait k g st)) = st_locks st"
  by (cases g) (auto simp: at_guard_def Let_def split: option.split sum.split)

lemma transfer_locks: "st_locks (snd (transfer_advance x req t st)) = st_locks st"
  by (cases "(x, req, t, st)" rule: transfer_advance.cases) (auto simp: Let_def at_guard_locks split: sum.split prod.split)

lemma task_locks:
  assumes "\<forall>lr. t \<noteq> Lk_Phase1 lr" "\<forall>lr c. t \<noteq> Lk_Phase2 lr c" "\<forall>p tok. t \<noteq> Un_Store p tok"
  shows "st_locks (snd (task_step x now req t st)) = st_locks st"
  using assms at_guard_locks transfer_locks
  by (cases t) (auto split: sum.split prod.split option.split simp del: transfer_advance.simps)

lemma task_exclusive:
  assumes "exclusive_ok now (st_locks st)"
  shows "exclusive_ok now (st_locks (snd (task_step x now req t st)))"
proof (cases "(\<exists>lr. t = Lk_Phase1 lr) \<or> (\<exists>lr c. t = Lk_Phase2 lr c) \<or> (\<exists>p tok. t = Un_Store p tok)")
  case True
  with assms lock_phase1_ok [OF assms] lock_phase2_ok [OF assms] unlock_store_ok [OF assms]
  show ?thesis by (auto split: prod.split)
next
  case False
  with assms task_locks [of t] show ?thesis by auto
qed

lemma pool_step_exclusive:
  assumes "pool_step e pl = Some pl'" "exclusive_ok now (st_locks (pool_app pl))"
    and "case event_time e of None \<Rightarrow> now' = now | Some t \<Rightarrow> now \<le> t \<and> now' = t"
  shows "exclusive_ok now' (st_locks (pool_app pl'))"
proof -
  have ok: "exclusive_ok now' (st_locks (pool_app pl))"
    using assms(2,3) exclusive_ok_mono by (auto split: option.splits)
  show ?thesis
  proof (cases e)
    case (Come env req)
    obtain v s1 where v: "admit env req (pl_server pl) = (v, s1)" by fastforce
    have "st_locks (srv_app s1) = st_locks (pool_app pl)"
      using admission.harmless_verdict [OF v] by (metis same_but_cache_def app_state.surjective
          app_state.update_convs(6) app_state.select_convs(5))
    with assms(1) Come v ok show ?thesis by (cases v) auto
  next
    case (Advance i env)
    with assms(1,3) ok task_exclusive [of now' "pool_app pl" "env_x env"] show ?thesis
      by (auto split: if_splits prod.splits) (metis snd_conv)
  next
    case (Sweep env)
    with assms(1) ok prune_locks_ok [OF ok] show ?thesis
      by (auto simp: cleanup_server_def cleanup_round_def split: prod.splits)
  next
    case (Rehash locks)
    with assms(1) exclusive_ok_perm [OF ok] show ?thesis by (auto split: if_splits)
  qed (use assms(1) ok in \<open>auto split: if_splits\<close>)
qed

lemma pool_run_exclusive:
  "pool_run es pl = Some pl' \<Longrightarrow> exclusive_ok now (st_locks (pool_app pl)) \<Longrightarrow>
     sorted (now # event_times es) \<Longrightarrow> \<forall>t\<in>set (now # event_times es). t \<le> now' \<Longrightarrow>
     exclusive_ok now' (st_locks (pool_app pl'))"
proof (induction es arbitrary: pl now)
  case Nil
  then show ?case using exclusive_ok_mono by simp
next
  case (Cons e es)
  obtain pl1 where pl1: "pool_step e pl = Some pl1" "pool_run es pl1 = Some pl'"
    using Cons.prems(1) by (auto split: bind_splits)
  show ?case
  proof (cases "event_time e")
    case None
    with pool_step_exclusive [OF pl1(1) Cons.prems(2), of now] Cons.IH [OF pl1(2)] Cons.prems(3,4)
    show ?thesis by simp
  next
    case (Some t)
    with pool_step_exclusive [OF pl1(1) Cons.prems(2), of t] Cons.IH [OF pl1(2), of t] Cons.prems(3,4)
    show ?thesis by simp
  qed
qed

text \<open>
  C8: exclusive locks exclude, whatever runs at the same time. Whatever requests come and are under
  way, and however the steps of their handlers, rounds of the cleanup task and clients that give
  up interleave, a path with an active exclusive lock has no other active lock, exclusive or
  shared. The clock may stand but does not go back, and no lock is held at the start.
\<close>

theorem exclusive_locks_exclude_concurrently:
  assumes "pool_run es pl0 = Some pl" and "st_locks (pool_app pl0) = []"
    and "sorted (event_times es)" and "\<forall>t\<in>set (event_times es). t \<le> now"
    and "map_of (st_locks (pool_app pl)) p = Some e"
    and "l \<in> set (active_slice now e)" and "lk_scope l = Exclusive"
  shows "active_slice now e = [l]"
proof -
  define start where "start = (case event_times es of [] \<Rightarrow> now | t # ts \<Rightarrow> t)"
  have "exclusive_ok start (st_locks (pool_app pl0))" using assms(2) by (simp add: exclusive_ok_def)
  moreover have "sorted (start # event_times es)" "\<forall>t\<in>set (start # event_times es). t \<le> now"
    using assms(3,4) by (auto simp: start_def split: list.splits)
  ultimately have "exclusive_ok now (st_locks (pool_app pl))" by (rule pool_run_exclusive [OF assms(1)])
  with assms(5) have "entry_ok now e" by (simp add: exclusive_ok_def)
  moreover have "Exclusive \<in> set (map lk_scope (active_slice now e))" using assms(6,7) by force
  ultimately have "length (active_slice now e) = 1" by (simp add: entry_ok_def)
  with assms(6) show ?thesis by (cases "active_slice now e") auto
qed

end
