(* ===== verification/Task_Safety.thy ===== *)
theory Task_Safety
  imports Interleaving
begin

section \<open>Every interleaving keeps the state and the rest of the file system\<close>

text \<open>
  The invariant of a task: the paths that the rest of its handler writes to lie below the root, and
  the path of a source lies under it. Every step keeps the invariants of the state and of the task,
  so every interleaving of handlers does. One handler needs a condition: the MOVE of the root
  itself, which removes the root directory if its copy comes to an end.
\<close>

subsection \<open>The invariant of a task\<close>

definition at_or_below :: "string list \<Rightarrow> pathbuf \<Rightarrow> bool" where
  "at_or_below rn p \<longleftrightarrow> (\<exists>ns. p = abs_path (rn @ ns) \<and> (\<forall>w\<in>set (rn @ ns). safe_name w))"

definition names_target :: "pathbuf \<Rightarrow> bool" where
  "names_target p \<longleftrightarrow> (\<exists>w. path_file_name p = Some w \<and> safe_name w)"

fun guard_pc_ok :: "guard_pc \<Rightarrow> bool" where
  "guard_pc_ok G_Lookup \<longleftrightarrow> True"
| "guard_pc_ok (G_Canonicalize fs_path parent) \<longleftrightarrow> names_target fs_path"
| "guard_pc_ok (G_Insert fs_path parent pc) \<longleftrightarrow>
     names_target fs_path \<and> (\<exists>ns. pc = abs_path ns \<and> (\<forall>w\<in>set ns. valid_name w))"

definition transfer_ok :: "string list \<Rightarrow> transfer_task \<Rightarrow> bool" where
  "transfer_ok rn tr \<longleftrightarrow> at_or_below rn (tr_src tr) \<and> below rn (tr_dest tr)"

primrec task_ok :: "string list \<Rightarrow> task \<Rightarrow> bool" where
  "task_ok rn Begin \<longleftrightarrow> True"
| "task_ok rn (Answered r) \<longleftrightarrow> True"
| "task_ok rn (Get_Stat p) \<longleftrightarrow> True"
| "task_ok rn (Get_Dir p) \<longleftrightarrow> True"
| "task_ok rn (Get_File p n) \<longleftrightarrow> True"
| "task_ok rn (Put_Guard g) \<longleftrightarrow> guard_pc_ok g"
| "task_ok rn (Put_Exists p) \<longleftrightarrow> below rn p"
| "task_ok rn (Put_Write p existed) \<longleftrightarrow> below rn p"
| "task_ok rn (Del_Stat p) \<longleftrightarrow> at_or_below rn p"
| "task_ok rn (Del_Dir p) \<longleftrightarrow> below rn p"
| "task_ok rn (Del_File p) \<longleftrightarrow> below rn p"
| "task_ok rn (Find_Collect p pr) \<longleftrightarrow> True"
| "task_ok rn (Find_Decorate entries pr) \<longleftrightarrow> True"
| "task_ok rn (Mk_Guard g) \<longleftrightarrow> guard_pc_ok g"
| "task_ok rn (Mk_Stat p) \<longleftrightarrow> below rn p"
| "task_ok rn (Mk_Create p) \<longleftrightarrow> below rn p"
| "task_ok rn (Tr_Guard m src dest_str g) \<longleftrightarrow> at_or_below rn src \<and> guard_pc_ok g"
| "task_ok rn (Tr_Exists m src dest) \<longleftrightarrow> at_or_below rn src \<and> below rn dest"
| "task_ok rn (Tr_Source tr) \<longleftrightarrow> transfer_ok rn tr"
| "task_ok rn (Tr_Dest tr meta) \<longleftrightarrow> transfer_ok rn tr"
| "task_ok rn (Tr_Clear tr dir) \<longleftrightarrow> transfer_ok rn tr"
| "task_ok rn (Tr_Copy tr dir ex) \<longleftrightarrow> transfer_ok rn tr"
| "task_ok rn (Tr_Loop tr stack) \<longleftrightarrow> transfer_ok rn tr \<and> (\<forall>(s, d)\<in>set stack. below rn d)"
| "task_ok rn (Tr_Entries tr src_dir dest_dir es stack) \<longleftrightarrow>
     transfer_ok rn tr \<and> below rn dest_dir \<and> (\<forall>e\<in>set es. safe_name (fst e)) \<and> (\<forall>(s, d)\<in>set stack. below rn d)"
| "task_ok rn (Tr_Rename tr dir) \<longleftrightarrow> transfer_ok rn tr"
| "task_ok rn (Tr_Unlink tr dir) \<longleftrightarrow> transfer_ok rn tr \<and> below rn (tr_src tr)"
| "task_ok rn (Tr_Props tr) \<longleftrightarrow> transfer_ok rn tr"
| "task_ok rn (Patch_Props p op) \<longleftrightarrow> True"
| "task_ok rn (Lk_Guard g) \<longleftrightarrow> guard_pc_ok g"
| "task_ok rn (Lk_Phase1 lr) \<longleftrightarrow> below rn (lr_target lr)"
| "task_ok rn (Lk_Null lr) \<longleftrightarrow> below rn (lr_target lr)"
| "task_ok rn (Lk_Phase2 lr created) \<longleftrightarrow> below rn (lr_target lr)"
| "task_ok rn (Un_Store p tok) \<longleftrightarrow> True"

lemma task_ok_answer [simp]: "task_ok rn (or_answer r k) \<longleftrightarrow> (\<forall>a. r = Inr a \<longrightarrow> task_ok rn (k a))"
  by (cases r) (simp_all add: or_answer_def)

lemma under_below: "at_or_below rn p \<Longrightarrow> p \<noteq> abs_path rn \<Longrightarrow> below rn p"
  unfolding at_or_below_def below_def by (metis append_Nil2)

lemma below_under: "below rn p \<Longrightarrow> at_or_below rn p"
  by (auto simp: at_or_below_def below_def)

lemma existing_under: "app_ok rn st \<Longrightarrow> state_resolve_existing x st rp = Some p \<Longrightarrow> at_or_below rn p"
  by (erule (1) existing_below) (auto simp: at_or_below_def)

subsection \<open>Calls below the root\<close>

lemma below_calls:
  assumes "tree_ok rn f" "below rn p"
  shows "fs_step rn f (snd (create_dir f p))" "fs_step rn f (snd (remove_file f p))"
    "fs_step rn f (snd (remove_dir_all f p))" "fs_step rn f (snd (file_create_new f p))"
    "fs_step rn f (snd (copy_content f s p))"
proof -
  obtain ns where ns: "ns \<noteq> []" "p = abs_path (rn @ ns)" "\<forall>w\<in>set (rn @ ns). safe_name w"
    by (rule belowE [OF assms(2)])
  note t = assms(1) ns(3,1)
  show "fs_step rn f (snd (create_dir f p))" "fs_step rn f (snd (remove_file f p))"
    "fs_step rn f (snd (remove_dir_all f p))" "fs_step rn f (snd (file_create_new f p))"
    "fs_step rn f (snd (copy_content f s p))"
    unfolding ns(2)
    by (rule create_dir_call.call_snd [OF t] remove_file_call.call_snd [OF t] remove_dir_call.call_snd [OF t]
        create_new_call.call_snd [OF t] copy_call.call_snd [OF t])+
qed

lemma rename_step:
  assumes "tree_ok rn f" "below rn p" "below rn q"
  shows "fs_step rn f (snd (rename f p q))"
proof -
  obtain ns where ns: "ns \<noteq> []" "p = abs_path (rn @ ns)" "\<forall>w\<in>set (rn @ ns). safe_name w"
    by (rule belowE [OF assms(2)])
  obtain ms where ms: "ms \<noteq> []" "q = abs_path (rn @ ms)" "\<forall>w\<in>set (rn @ ms). safe_name w"
    by (rule belowE [OF assms(3)])
  show ?thesis
    using rename_below [OF assms(1) ns(3,1) ms(3,1), of "fst (rename f p q)" "snd (rename f p q)"] ns(2) ms(2) by simp
qed

subsection \<open>Steps of the guard\<close>

lemma guard_result_ok:
  assumes "app_ok rn st" "names_target fs_path" "pc = abs_path ns" "\<forall>w\<in>set ns. valid_name w"
  shows "case guard_result st fs_path pc of Inl e \<Rightarrow> e \<noteq> Panicked | Inr p \<Rightarrow> below rn p"
proof (cases "path_starts_with pc (st_root_canonical st)")
  case True
  obtain w where w: "path_file_name fs_path = Some w" "safe_name w" using assms(2) by (auto simp: names_target_def)
  note ok = assms(1) [unfolded app_ok_def, THEN conjunct1]
  have "prefix rn ns"
    using True assms(3) starts_with_abs_paths [OF state_okD(4) [OF ok] valid_safe_list [OF assms(4)]] state_okD(5) [OF ok]
    by simp
  then obtain ms where ms: "ns = rn @ ms" by (auto elim: prefixE)
  have "path_join pc w = abs_path (rn @ ms @ [w])"
    using join_abs_path [OF w(2) valid_safe_list [OF assms(4)]] assms(3) ms by simp
  moreover have "below rn (abs_path (rn @ ms @ [w]))"
    unfolding below_def using valid_safe_list [OF assms(4)] w(2) ms by (intro exI [of _ "ms @ [w]"]) auto
  ultimately show ?thesis using True w(1) by (simp add: guard_result_def)
qed (simp add: guard_result_def)

lemma app_step_cache: "app_ok rn st \<Longrightarrow> cache_ok c \<Longrightarrow> app_step rn st (st\<lparr>st_cache := c\<rparr>)"
  by (simp add: app_step_def app_ok_def state_ok_def same_outside_def)

lemma guard_advance_ok:
  assumes "app_ok rn st" "guard_pc_ok g" "guard_advance x rp g st = (r, st1)"
  shows "app_step rn st st1 \<and>
    (case r of Inl g' \<Rightarrow> guard_pc_ok g' | Inr (Inl e) \<Rightarrow> e \<noteq> Panicked | Inr (Inr p) \<Rightarrow> below rn p)"
proof (cases g)
  case G_Lookup
  show ?thesis
  proof (cases "state_resolve_write_target x st rp")
    case None
    with G_Lookup assms show ?thesis by (auto simp: app_step_refl)
  next
    case (Some fs_path)
    have n: "names_target fs_path"
      using resolve_write_target_file_name_Some Some by (auto simp: state_resolve_write_target_def names_target_def)
    define par where "par = (case path_parent fs_path of Some p \<Rightarrow> p | None \<Rightarrow> st_root_dir st)"
    show ?thesis
    proof (cases "map_of (st_cache st) par")
      case None
      with G_Lookup Some assms n show ?thesis by (auto simp: app_step_refl Let_def par_def)
    next
      case c: (Some cached)
      have "cache_ok (st_cache st)" using assms(1) by (simp add: app_ok_def state_ok_def)
      then obtain ns where "cached = abs_path ns" "\<forall>w\<in>set ns. valid_name w" using c by (rule cache_ok_get)
      from guard_result_ok [OF assms(1) n this] G_Lookup Some c assms show ?thesis
        by (auto simp: app_step_refl Let_def par_def split: sum.splits)
    qed
  qed
next
  case (G_Canonicalize fs_path par)
  show ?thesis
  proof (cases "canonicalize (st_fs st) par")
    case (Inl e)
    with G_Canonicalize assms show ?thesis by (auto simp: app_step_refl)
  next
    case (Inr pc)
    have "fs_wf (st_fs st)" "real_node (st_fs st) (fs_cwd (st_fs st))"
      using assms(1) by (simp_all add: app_ok_def state_ok_def)
    then obtain q where "pc = abs_path q" "\<forall>w\<in>set q. valid_name w" using Inr by (rule canonicalize_real)
    with G_Canonicalize Inr assms show ?thesis by (auto simp: app_step_refl)
  qed
next
  case (G_Insert fs_path par pc)
  then obtain ns where ns: "pc = abs_path ns" "\<forall>w\<in>set ns. valid_name w" and n: "names_target fs_path"
    using assms(2) by auto
  have "cache_ok (AList.update par pc (st_cache st))"
    using cache_ok_update [OF _ ns(2)] assms(1) ns(1) by (simp add: app_ok_def state_ok_def)
  with G_Insert assms(3) guard_result_ok [OF assms(1) n ns] app_step_cache [OF assms(1)]
  show ?thesis by (auto split: sum.splits)
qed

text \<open>A step of a task that is at its guard.\<close>

lemma at_guard_ok:
  assumes "app_ok rn st" "guard_pc_ok g" "at_guard x rp wait (\<lambda>r. or_answer (or_invalid r code) k) g st = (t1, st1)"
    and "\<And>g'. guard_pc_ok g' \<Longrightarrow> task_ok rn (wait g')" and "\<And>p. below rn p \<Longrightarrow> task_ok rn (k p)"
  shows "app_step rn st st1 \<and> task_ok rn t1"
proof -
  obtain r s where r: "guard_advance x rp g st = (r, s)" by fastforce
  from guard_advance_ok [OF assms(1,2) r] assms(3-5) r show ?thesis
    by (auto simp: at_guard_def or_invalid_def split: sum.splits)
qed

subsection \<open>Steps of a transfer\<close>

text \<open>A MOVE of the root whose copy has come to its end.\<close>

definition root_copied :: "string list \<Rightarrow> task \<Rightarrow> bool" where
  "root_copied rn t = (case t of Tr_Rename tr _ \<Rightarrow> tr_src tr = abs_path rn | _ \<Rightarrow> False)"

lemma after_copy_ok: "transfer_ok rn tr \<Longrightarrow> task_ok rn (after_copy tr b)"
  by (simp add: after_copy_def)

lemma step_fs: "app_ok rn st \<Longrightarrow> fs_step rn (st_fs st) f \<Longrightarrow> app_step rn st (st\<lparr>st_fs := f\<rparr>)"
  by (rule app_step_fs [OF app_step_refl])

lemmas task_step_facts = transfer_ok_def app_step_refl

lemma copy_advance_ok:
  assumes "app_ok rn st" "transfer_ok rn tr" "transfer_advance x req (Tr_Copy tr dir ex) st = (t1, st1)"
  shows "app_step rn st st1 \<and> task_ok rn t1"
proof -
  note b = assms(2) [unfolded transfer_ok_def, THEN conjunct2]
  have c: "app_step rn st (st\<lparr>st_fs := snd (create_dir (st_fs st) (tr_dest tr))\<rparr>)"
      "app_step rn st (st\<lparr>st_fs := snd (copy_content (st_fs st) (tr_src tr) (tr_dest tr))\<rparr>)"
    using below_calls [OF app_ok_tree [OF assms(1)] b] by (auto intro: step_fs [OF assms(1)])
  have t: "task_ok rn (after_copy tr b)" "task_ok rn (Tr_Loop tr [(tr_src tr, tr_dest tr)])" for b
    using after_copy_ok [OF assms(2)] assms(2) b by simp_all
  have a: "task_ok rn (Answered r)" for r by simp
  show ?thesis
  proof (cases dir)
    case True
    with assms(1,3) c(1) t a show ?thesis
      by (cases "create_dir (st_fs st) (tr_dest tr)") (auto simp: Let_def app_step_refl split: if_splits sum.splits)
  next
    case False
    with assms(3) c(2) t a show ?thesis
      by (cases "copy_content (st_fs st) (tr_src tr) (tr_dest tr)") (auto simp: copy_file_def)
  qed
qed

lemma entries_advance_ok:
  assumes "app_ok rn st" "task_ok rn (Tr_Entries tr s d es stack)"
    and "transfer_advance x req (Tr_Entries tr s d es stack) st = (t1, st1)"
  shows "app_step rn st st1 \<and> task_ok rn t1"
proof (cases es)
  case Nil
  with assms show ?thesis by (auto simp: app_step_refl)
next
  case (Cons e rest)
  obtain r f where c: "copy_entry s d e (st_fs st) = (r, f)" by fastforce
  have b: "below rn d" "safe_name (fst e)" using assms(2) Cons by simp_all
  note st = copy_entry_step [OF app_ok_tree [OF assms(1)] b c]
  have "task_ok rn (Tr_Entries tr s d rest (pushed @ stack))" if "r = Inr pushed" for pushed
    using st(2) [OF that] assms(2) Cons by auto
  with step_fs [OF assms(1) st(1)] assms(3) Cons c show ?thesis by auto
qed

lemma transfer_advance_ok:
  assumes "app_ok rn st" "task_ok rn t" "\<not> root_copied rn t" "transfer_advance x req t st = (t1, st1)"
  shows "app_step rn st st1 \<and> task_ok rn t1"
proof -
  note ok = assms(1) and tree = app_ok_tree [OF assms(1)]
  have a: "task_ok rn (Answered r)" for r by simp
  show ?thesis
  proof (cases t)
    case (Tr_Guard m src dst g)
    show ?thesis
      by (rule at_guard_ok [OF ok, of g x dst "Tr_Guard m src dst" BAD_REQUEST "Tr_Exists m src"])
        (use assms(2,4) Tr_Guard in simp_all)
  next
    case (Tr_Clear tr dir)
    have "below rn (tr_dest tr)" using assms(2) Tr_Clear by (simp add: transfer_ok_def)
    with Tr_Clear assms below_calls [OF tree this] show ?thesis
      by (auto intro: step_fs [OF ok])
  next
    case (Tr_Copy tr dir ex)
    with copy_advance_ok [OF ok, of tr x req dir ex] assms show ?thesis by simp
  next
    case (Tr_Loop tr stack)
    show ?thesis
    proof (cases stack)
      case Nil
      with Tr_Loop assms after_copy_ok show ?thesis by (auto simp: app_step_refl)
    next
      case (Cons e rest)
      obtain s d where "e = (s, d)" by (cases e)
      with Cons Tr_Loop assms read_dir_names [OF tree_okD(1) [OF tree]] show ?thesis
        by (auto simp: app_step_refl split: sum.splits)
    qed
  next
    case (Tr_Entries tr s d es stack)
    with entries_advance_ok [OF ok] assms show ?thesis by blast
  next
    case (Tr_Rename tr dir)
    have b: "below rn (tr_src tr)" "below rn (tr_dest tr)"
      using assms(2,3) Tr_Rename under_below by (auto simp: transfer_ok_def root_copied_def)
    with Tr_Rename assms step_fs [OF ok rename_step [OF tree b]] show ?thesis
      by (auto split: prod.splits sum.splits)
  next
    case (Tr_Unlink tr dir)
    have "below rn (tr_src tr)" using assms(2) Tr_Unlink by simp
    with Tr_Unlink assms below_calls [OF tree this] show ?thesis
      by (auto intro: step_fs [OF ok])
  next
    case (Tr_Props tr)
    with assms app_step_props [OF app_step_refl [OF ok]] show ?thesis by auto
  qed (use assms in \<open>auto simp: task_step_facts Let_def split: sum.splits if_splits\<close>)
qed

subsection \<open>Steps of the other handlers\<close>

lemma begin_task_ok:
  assumes "app_ok rn st"
  shows "task_ok rn (begin_task x now req st)"
proof -
  have e: "at_or_below rn p" if "opt_or_status (state_resolve_existing x st (req_path req)) NOT_FOUND = Inr p" for p
    using existing_under [OF assms, of x "req_path req"] that by (auto simp: opt_or_status_def split: option.splits)
  have tr: "task_ok rn (begin_transfer x req st is_move)" for is_move
    using e by (simp add: begin_transfer_def)
  show ?thesis
  proof (cases "from_http_method (req_method req)")
    case None
    then show ?thesis by (simp add: begin_task_def)
  next
    case (Some m)
    with e tr show ?thesis by (cases m) (simp_all add: begin_task_def Let_def)
  qed
qed

lemma del_stat_ok:
  assumes ok: "app_ok rn st" and u: "at_or_below rn p"
  shows "task_ok rn (fst (task_step x now req (Del_Stat p) st))"
proof (cases "p = abs_path rn")
  case True
  have "fm_is_dir m" if "stat_path x (st_fs st) p = Inr m" for m
    using that True tree_okD(1,2) [OF app_ok_tree [OF ok]] resolve_abs_path [OF tree_okD(1,2) [OF app_ok_tree [OF ok]]]
    by (auto simp: stat_path_def metadata_def node_meta_def split: if_splits)
  moreover have "st_root_canonical st = abs_path rn" using ok by (simp add: app_ok_def state_ok_def)
  ultimately show ?thesis using True by (auto simp: or_status_def path_eq_def split: sum.splits)
next
  case False
  with under_below [OF u] show ?thesis by auto
qed

lemma put_write_ok:
  assumes "app_ok rn st" "below rn p"
  shows "app_step rn st (snd (task_step x now req (Put_Write p e) st))"
proof -
  obtain r f where f: "put_file req (st_fs st) p = (r, f)" by fastforce
  have "snd (task_step x now req (Put_Write p e) st) = st\<lparr>st_fs := f\<rparr>"
    using f by (auto simp: put_file_def Let_def split: prod.splits sum.splits if_splits)
  with step_fs [OF assms(1) put_file_step [OF app_ok_tree [OF assms(1)] assms(2) f]] show ?thesis by simp
qed

lemma lock_request_target: "lock_request_of x req d p = Inr lr \<Longrightarrow> lr_target lr = p"
  by (auto simp: lock_request_of_def split: sum.splits prod.splits)

lemma lock_step_tasks:
  assumes ok: "app_ok rn st" and b: "below rn (lr_target lr)"
  shows "app_step rn st (st\<lparr>st_locks := snd (lock_phase1 x now lr (st_locks st))\<rparr>)"
    "app_step rn st (st\<lparr>st_locks := snd (lock_phase2 x now lr c (st_locks st))\<rparr>)"
    "app_step rn st (st\<lparr>st_locks := snd (unlock_store p tok (st_locks st))\<rparr>)"
    "app_step rn st (st\<lparr>st_fs := snd (ensure_lock_null_resource (lr_target lr) (st_fs st))\<rparr>)"
proof -
  note s = app_ok_store [OF ok]
  show "app_step rn st (st\<lparr>st_locks := snd (lock_phase1 x now lr (st_locks st))\<rparr>)"
    by (rule app_step_locks [OF app_step_refl [OF ok] store_ok_phase1 [OF s b prod.collapse [symmetric]]])
  show "app_step rn st (st\<lparr>st_locks := snd (lock_phase2 x now lr c (st_locks st))\<rparr>)"
    by (rule app_step_locks [OF app_step_refl [OF ok] store_ok_phase2 [OF s b prod.collapse [symmetric]]])
  show "app_step rn st (st\<lparr>st_locks := snd (unlock_store p tok (st_locks st))\<rparr>)"
    by (rule app_step_locks [OF app_step_refl [OF ok] store_ok_unlock [OF s prod.collapse [symmetric]]])
  have "snd (ensure_lock_null_resource (lr_target lr) (st_fs st)) = snd (file_create_new (st_fs st) (lr_target lr))"
    by (auto simp: ensure_lock_null_resource_def split: prod.splits sum.splits io_error.splits)
  with below_calls(4) [OF app_ok_tree [OF ok] b] step_fs [OF ok]
  show "app_step rn st (st\<lparr>st_fs := snd (ensure_lock_null_resource (lr_target lr) (st_fs st))\<rparr>)" by simp
qed

lemma unlock_step_task:
  "app_ok rn st \<Longrightarrow> app_step rn st (st\<lparr>st_locks := snd (unlock_store p tok (st_locks st))\<rparr>)"
  by (rule app_step_locks [OF app_step_refl store_ok_unlock [OF app_ok_store prod.collapse [symmetric]]])

lemma guarded_task_ok:
  assumes "app_ok rn st" "task_ok rn t" "task_step x now req t st = (t1, st1)"
    and "t = Put_Guard g \<or> t = Mk_Guard g \<or> t = Lk_Guard g"
  shows "app_step rn st st1 \<and> task_ok rn t1"
proof -
  have lock: "task_ok rn (or_answer (lock_request_of x req (st_lock_timeout st) p) Lk_Phase1)" if "below rn p" for p
    using that lock_request_target by auto
  note guard = at_guard_ok [OF assms(1), of g x]
  show ?thesis
    using assms(4)
  proof (elim disjE)
    assume t: "t = Put_Guard g"
    show ?thesis by (rule guard [of "req_path req" Put_Guard BAD_REQUEST Put_Exists]) (use assms(2,3) t in simp_all)
  next
    assume t: "t = Mk_Guard g"
    show ?thesis
      by (rule guard [of "trim_end_matches sep (req_path req)" Mk_Guard FORBIDDEN Mk_Stat]) (use assms(2,3) t in simp_all)
  next
    assume t: "t = Lk_Guard g"
    show ?thesis
      by (rule guard [of "trim_end_matches sep (req_path req)" Lk_Guard FORBIDDEN
            "\<lambda>p. or_answer (lock_request_of x req (st_lock_timeout st) p) Lk_Phase1"])
        (use assms(2,3) t lock in simp_all)
  qed
qed

lemma task_step_ok:
  assumes "app_ok rn st" "task_ok rn t" "\<not> root_copied rn t" "task_step x now req t st = (t1, st1)"
  shows "app_step rn st st1 \<and> task_ok rn t1"
proof -
  note ok = assms(1) and calls = below_calls [OF app_ok_tree [OF assms(1)]]
  have a: "task_ok rn (Answered r)" for r by simp
  consider (guard) g where "t = Put_Guard g \<or> t = Mk_Guard g \<or> t = Lk_Guard g"
    | (start) "t = Begin" | (stat) p where "t = Del_Stat p" | (put) p e where "t = Put_Write p e"
    | (del_dir) p where "t = Del_Dir p" | (del_file) p where "t = Del_File p" | (make) p where "t = Mk_Create p"
    | (patch) p op where "t = Patch_Props p op" | (p1) lr where "t = Lk_Phase1 lr" | (null) lr where "t = Lk_Null lr"
    | (p2) lr c where "t = Lk_Phase2 lr c" | (unlock) p tok where "t = Un_Store p tok"
    | (transfer) "task_step x now req t st = transfer_advance x req t st"
    | (read) "snd (task_step x now req t st) = st" "task_ok rn (fst (task_step x now req t st))"
    using assms(2) by (cases t) (auto split: sum.splits option.splits)
  then show ?thesis
  proof cases
    case guard
    with guarded_task_ok [OF ok assms(2,4)] show ?thesis .
  next
    case start
    with assms(4) begin_task_ok [OF ok] app_step_refl [OF ok] show ?thesis by auto
  next
    case stat
    with assms(2,4) del_stat_ok [OF ok, of p x now req] app_step_refl [OF ok] show ?thesis by auto
  next
    case put
    with assms(2) put_write_ok [OF ok, of p x now req e] have "app_step rn st st1"
      using assms(4) by (simp del: task_step.simps)
    with put assms(4) a show ?thesis by (auto split: prod.splits sum.splits if_splits)
  next
    case del_dir
    with assms(2,4) calls(3) [of p] a step_fs [OF ok] show ?thesis
      by (cases "remove_dir_all (st_fs st) p"; cases "fst (remove_dir_all (st_fs st) p)") (auto simp: delete_reply_def)
  next
    case del_file
    with assms(2,4) calls(2) [of p] a step_fs [OF ok] show ?thesis
      by (cases "remove_file (st_fs st) p"; cases "fst (remove_file (st_fs st) p)") (auto simp: delete_reply_def)
  next
    case make
    with assms(2,4) calls(1) [of p] a step_fs [OF ok] show ?thesis
      by (cases "create_dir (st_fs st) p"; cases "fst (create_dir (st_fs st) p)") auto
  next
    case patch
    with assms(4) a app_step_props [OF app_step_refl [OF ok]] show ?thesis by auto
  next
    case p1
    with assms(2,4) a lock_step_tasks(1) [OF ok, of lr x now] show ?thesis
      by (auto split: prod.splits option.splits)
  next
    case null
    with assms(2,4) a lock_step_tasks(4) [OF ok, of lr] show ?thesis
      by (auto split: prod.splits)
  next
    case p2
    with assms(2,4) a lock_step_tasks(2) [OF ok, of lr x now c] show ?thesis
      by (auto split: prod.splits)
  next
    case unlock
    with assms(4) a unlock_step_task [OF ok, of p tok] show ?thesis by (auto split: prod.splits)
  next
    case transfer
    with transfer_advance_ok [OF assms(1-3)] assms(4) show ?thesis by simp
  next
    case read
    with assms(4) show ?thesis by (simp add: app_step_refl [OF ok])
  qed
qed

subsection \<open>Every run\<close>

fun never :: "(task \<Rightarrow> bool) \<Rightarrow> pool_event list \<Rightarrow> pool \<Rightarrow> bool" where
  \<comment> \<open>no state of the run has a task with this property\<close>
  "never P [] pl \<longleftrightarrow> list_all (\<lambda>(req, t). \<not> P t) (pl_tasks pl)"
| "never P (e # es) pl \<longleftrightarrow>
     list_all (\<lambda>(req, t). \<not> P t) (pl_tasks pl) \<and> (case pool_step e pl of None \<Rightarrow> True | Some pl1 \<Rightarrow> never P es pl1)"

definition pool_ok :: "string list \<Rightarrow> pool \<Rightarrow> bool" where
  "pool_ok rn pl \<longleftrightarrow> app_ok rn (pool_app pl) \<and> (\<forall>(req, t)\<in>set (pl_tasks pl). task_ok rn t)"

lemma pool_step_ok:
  assumes "pool_ok rn pl" "list_all (\<lambda>(req, t). \<not> root_copied rn t) (pl_tasks pl)" "pool_step e pl = Some pl'"
  shows "pool_ok rn pl' \<and> app_step rn (pool_app pl) (pool_app pl')"
proof -
  note ok = assms(1) [unfolded pool_ok_def, THEN conjunct1] and tasks = assms(1) [unfolded pool_ok_def, THEN conjunct2]
  have same: ?thesis if "app_step rn (pool_app pl) (pool_app pl')" "set (pl_tasks pl') \<subseteq> insert (req, Begin) (set (pl_tasks pl))"
    for req
    using that tasks app_step_ok [OF that(1)] by (auto simp: pool_ok_def)
  show ?thesis
  proof (cases e)
    case (Come env req)
    obtain v s1 where v: "admit env req (pl_server pl) = (v, s1)" by fastforce
    note a = app_step_harmless [OF app_step_refl [OF ok] admission.harmless_verdict [OF v]]
    show ?thesis using assms(3) Come v a by (intro same [of req]) (auto split: option.splits)
  next
    case (Advance i env)
    then have i: "i < length (pl_tasks pl)" using assms(3) by (auto split: if_splits)
    obtain req t where t: "pl_tasks pl ! i = (req, t)" by fastforce
    then have mem: "(req, t) \<in> set (pl_tasks pl)" using i by (metis nth_mem)
    obtain t1 st where t1: "task_step (env_x env) (env_now env) req t (pool_app pl) = (t1, st)" by fastforce
    have "task_ok rn t" "\<not> root_copied rn t" using mem tasks assms(2) by (auto simp: list_all_iff)
    note st = task_step_ok [OF ok this t1]
    have "pl' = pl\<lparr>pl_server := (pl_server pl)\<lparr>srv_app := st\<rparr>, pl_tasks := (pl_tasks pl)[i := (req, t1)]\<rparr>"
      using assms(3) Advance i t t1 by simp
    with st tasks app_step_ok [of rn "pool_app pl" st] show ?thesis
      using set_update_subset_insert [of "pl_tasks pl" i "(req, t1)"] by (fastforce simp: pool_ok_def)
  next
    case (Leave i)
    then have "pl' = pl\<lparr>pl_tasks := take i (pl_tasks pl) @ drop (Suc i) (pl_tasks pl)\<rparr>"
      using assms(3) by (simp split: if_splits)
    then show ?thesis
      using app_step_refl [OF ok] set_take_subset [of i "pl_tasks pl"] set_drop_subset [of "Suc i" "pl_tasks pl"]
      by (intro same) auto
  next
    case (Sweep env)
    then show ?thesis using assms(3) cleanup_server_step [OF ok, of env] by (intro same) auto
  next
    case (Rehash locks)
    then have p: "mset locks = mset (st_locks (pool_app pl))" using assms(3) by (auto split: if_splits)
    have "hm_inv (st_locks (pool_app pl))" using app_ok_store [OF ok] by (simp add: store_ok_def)
    with p have "hm_inv locks" "set locks = set (st_locks (pool_app pl))"
      using hm_perm_get(1) [OF _ p] mset_eq_setD [OF p] by simp_all
    then have "store_ok rn locks" using app_ok_store [OF ok] by (simp add: store_ok_def)
    then show ?thesis
      using assms(3) Rehash p app_step_locks [OF app_step_refl [OF ok]] by (intro same) auto
  qed
qed

lemma pool_run_ok:
  "pool_run es pl = Some pl' \<Longrightarrow> pool_ok rn pl \<Longrightarrow> never (root_copied rn) es pl \<Longrightarrow>
     pool_ok rn pl' \<and> app_step rn (pool_app pl) (pool_app pl')"
proof (induction es arbitrary: pl)
  case Nil
  then show ?case by (auto simp: pool_ok_def app_step_refl)
next
  case (Cons e es)
  obtain pl1 where pl1: "pool_step e pl = Some pl1" "pool_run es pl1 = Some pl'"
    using Cons.prems(1) by (auto split: bind_splits)
  have st: "pool_ok rn pl1 \<and> app_step rn (pool_app pl) (pool_app pl1)"
    using pool_step_ok [OF Cons.prems(2) _ pl1(1)] Cons.prems(3) by simp
  moreover have "pool_ok rn pl' \<and> app_step rn (pool_app pl1) (pool_app pl')"
    using Cons.IH [OF pl1(2)] st Cons.prems(3) pl1(1) by simp
  ultimately show ?case using app_step_trans by blast
qed


end
