(* ===== verification/Races.thy ===== *)
theory Races
  imports Task_Safety
begin

section \<open>Progress and a race\<close>

text \<open>
  What interleaving cannot do, and what it can: it never keeps a handler other than COPY and MOVE
  from answering, and it brings a MOVE of the root directory to its end.
\<close>

subsection \<open>Handlers answer whatever happens\<close>

text \<open>
  \<open>short n\<close> holds for the tasks that are at most \<open>n\<close> own steps from their answer. The tasks of COPY
  and MOVE have no such bound.
\<close>

primrec guard_rank :: "guard_pc \<Rightarrow> nat" where
  "guard_rank G_Lookup = 2"
| "guard_rank (G_Canonicalize fs_path parent) = 1"
| "guard_rank (G_Insert fs_path parent pc) = 0"

primrec short :: "nat \<Rightarrow> task \<Rightarrow> bool" where
  "short n Begin \<longleftrightarrow> 7 \<le> n"
| "short n (Answered r) \<longleftrightarrow> True"
| "short n (Get_Stat p) \<longleftrightarrow> 2 \<le> n"
| "short n (Get_Dir p) \<longleftrightarrow> 1 \<le> n"
| "short n (Get_File p len) \<longleftrightarrow> 1 \<le> n"
| "short n (Put_Guard g) \<longleftrightarrow> guard_rank g + 3 \<le> n"
| "short n (Put_Exists p) \<longleftrightarrow> 2 \<le> n"
| "short n (Put_Write p existed) \<longleftrightarrow> 1 \<le> n"
| "short n (Del_Stat p) \<longleftrightarrow> 2 \<le> n"
| "short n (Del_Dir p) \<longleftrightarrow> 1 \<le> n"
| "short n (Del_File p) \<longleftrightarrow> 1 \<le> n"
| "short n (Find_Collect p pr) \<longleftrightarrow> 2 \<le> n"
| "short n (Find_Decorate entries pr) \<longleftrightarrow> 1 \<le> n"
| "short n (Mk_Guard g) \<longleftrightarrow> guard_rank g + 3 \<le> n"
| "short n (Mk_Stat p) \<longleftrightarrow> 2 \<le> n"
| "short n (Mk_Create p) \<longleftrightarrow> 1 \<le> n"
| "short n (Patch_Props p op) \<longleftrightarrow> 1 \<le> n"
| "short n (Un_Store p tok) \<longleftrightarrow> 1 \<le> n"
| "short n (Lk_Guard g) \<longleftrightarrow> guard_rank g + 4 \<le> n"
| "short n (Lk_Phase1 lr) \<longleftrightarrow> 3 \<le> n"
| "short n (Lk_Null lr) \<longleftrightarrow> 2 \<le> n"
| "short n (Lk_Phase2 lr created) \<longleftrightarrow> 1 \<le> n"
| "short n (Tr_Guard m src dest_str g) \<longleftrightarrow> False"
| "short n (Tr_Exists m src dest) \<longleftrightarrow> False"
| "short n (Tr_Source tr) \<longleftrightarrow> False"
| "short n (Tr_Dest tr meta) \<longleftrightarrow> False"
| "short n (Tr_Clear tr dir) \<longleftrightarrow> False"
| "short n (Tr_Copy tr dir ex) \<longleftrightarrow> False"
| "short n (Tr_Loop tr stack) \<longleftrightarrow> False"
| "short n (Tr_Entries tr s d es stack) \<longleftrightarrow> False"
| "short n (Tr_Rename tr dir) \<longleftrightarrow> False"
| "short n (Tr_Unlink tr dir) \<longleftrightarrow> False"
| "short n (Tr_Props tr) \<longleftrightarrow> False"

lemma short_answer [simp]: "short n (or_answer r k) \<longleftrightarrow> (\<forall>a. r = Inr a \<longrightarrow> short n (k a))"
  by (cases r) (simp_all add: or_answer_def)

lemma short_at_guard:
  assumes "\<And>g'. guard_rank g' < guard_rank g \<Longrightarrow> short n (wait g')" "\<And>p. short n (k p)"
  shows "short n (fst (at_guard x rp wait (\<lambda>r. or_answer (or_invalid r code) k) g st))"
  using assms by (cases g) (auto simp: at_guard_def Let_def split: option.split sum.split)

lemma begin_short:
  assumes "from_http_method (req_method req) \<notin> {Some COPY, Some MOVE}"
  shows "short 6 (begin_task x now req st)"
proof (cases "from_http_method (req_method req)")
  case None
  then show ?thesis by (simp add: begin_task_def)
next
  case (Some m)
  with assms show ?thesis by (cases m) (simp_all add: begin_task_def Let_def)
qed

lemma step_short:
  assumes "short (Suc n) t" "n \<le> 6" and "from_http_method (req_method req) \<notin> {Some COPY, Some MOVE}"
  shows "short n (fst (task_step x now req t st))"
proof -
  consider "t = Begin" | g where "t = Put_Guard g \<or> t = Mk_Guard g \<or> t = Lk_Guard g"
    | "short n (fst (task_step x now req t st))"
    using assms(1) by (cases t) (auto split: sum.split option.split prod.split)
  then show ?thesis
  proof cases
    case 1
    then have "n = 6" using assms(1,2) by simp
    with 1 assms(3) begin_short show ?thesis by simp
  next
    case (2 g)
    with assms(1) show ?thesis by (elim disjE) (simp_all add: short_at_guard)
  qed
qed

lemma steps_answer:
  "short n t \<Longrightarrow> n \<le> length sts \<Longrightarrow> n \<le> 7 \<Longrightarrow>
     from_http_method (req_method req) \<notin> {Some COPY, Some MOVE} \<Longrightarrow>
     \<exists>r. foldl (\<lambda>t (x, now, st). fst (task_step x now req t st)) t sts = Answered r"
proof (induction sts arbitrary: n t)
  case Nil
  then show ?case by (cases t) auto
next
  case (Cons s sts)
  obtain x now st where s: "s = (x, now, st)" by (cases s)
  show ?case
  proof (cases n)
    case 0
    then obtain r where "t = Answered r" using Cons.prems(1) by (cases t) auto
    then show ?thesis using Cons.IH [of 0 "Answered r"] Cons.prems s by simp
  next
    case (Suc m)
    have "short m (fst (task_step x now req t st))"
      by (rule step_short) (use Cons.prems Suc in auto)
    then show ?thesis using Cons.IH [of m] Cons.prems Suc s by simp
  qed
qed


subsection \<open>The root is moved into itself\<close>

text \<open>
  A server for \<open>/srv\<close> without credentials, whose tree is given by its nodes and whose cache holds
  the root itself or nothing.
\<close>

definition race_fs :: "(string list \<times> node) list \<Rightarrow> fs" where
  "race_fs nodes = \<lparr>fs_nodes = nodes, fs_cwd = [], fs_deny = (\<lambda>_ _. False)\<rparr>"

definition race_state :: "(string list \<times> node) list \<Rightarrow> canonical_cache \<Rightarrow> app_state" where
  "race_state nodes cache =
     \<lparr>st_fs = race_fs nodes, st_root_dir = ''/srv'', st_root_canonical = ''/srv'', st_dead_props = [], st_locks = [],
      st_cache = cache, st_lock_timeout = 0\<rparr>"

definition race_server :: "(string list \<times> node) list \<Rightarrow> canonical_cache \<Rightarrow> server" where
  "race_server nodes cache =
     \<lparr>srv_app = race_state nodes cache, srv_auth = auth_state_new, srv_tailscale = Disabled\<rparr>"

definition race_env :: environment where
  "race_env = demo_env\<lparr>env_x := plain_externals\<rparr>"

definition root_cache :: canonical_cache where
  "root_cache = [(''/srv'', ''/srv'')]"

definition tree0 :: "(string list \<times> node) list" where
  "tree0 = [([''srv''], Dir), ([''srv'', ''g''], File ''data'')]"

definition tree1 :: "(string list \<times> node) list" where
  "tree1 = tree0 @ [([''srv'', ''x''], Dir)]"

definition tree2 :: "(string list \<times> node) list" where
  "tree2 = tree1 @ [([''srv'', ''x'', ''g''], File ''data'')]"

definition tree3 :: "(string list \<times> node) list" where
  "tree3 = tree2 @ [([''srv'', ''x'', ''x''], Dir)]"

lemmas race_trees = tree0_def tree1_def tree2_def tree3_def

definition move_root :: request where
  "move_root = demo_req ''MOVE'' ''/'' [(''destination'', Str ''http://h/x'')]"

definition root_transfer :: transfer_task where
  "root_transfer = \<lparr>tr_move = True, tr_src = ''/srv'', tr_dest = ''/srv/x'', tr_before = False\<rparr>"

lemma race_lookup: "fs_lookup (race_fs nodes) p = (if p = [] then Some Dir else map_of nodes p)"
  by (simp add: fs_lookup_def race_fs_def)

lemma race_update:
  "fs_set p n (race_fs nodes) = race_fs (AList.update p n nodes)"
  "fs_remove p (race_fs nodes) = race_fs (filter (\<lambda>(q, _). \<not> prefix p q) nodes)"
  "(race_state nodes cache)\<lparr>st_fs := race_fs nodes'\<rparr> = race_state nodes' cache"
  "(race_state nodes cache)\<lparr>st_cache := cache'\<rparr> = race_state nodes cache'"
  "st_fs (race_state nodes cache) = race_fs nodes" "st_cache (race_state nodes cache) = cache"
  "st_root_canonical (race_state nodes cache) = ''/srv''" "fs_deny (race_fs nodes) op pb = False"
  by (simp_all add: fs_set_def fs_remove_def race_fs_def race_state_def)

lemma race_paths:
  "locate (race_fs tree0) ''/srv/x'' = Inr ([''srv''], ''x'')"
  "locate (race_fs tree1) ''/srv/x/g'' = Inr ([''srv'', ''x''], ''g'')"
  "locate (race_fs tree2) ''/srv/x/x'' = Inr ([''srv'', ''x''], ''x'')"
  "locate (race_fs tree3) ''/srv/x'' = Inr ([''srv''], ''x'')"
  "locate (race_fs tree1) ''/srv/x'' = Inr ([''srv''], ''x'')"
  "locate (race_fs tree1) ''/srv'' = Inr ([], ''srv'')"
  "resolve (race_fs tree1) ''/srv'' = Inr [''srv'']"
  "resolve (race_fs tree1) ''/srv/x'' = Inr [''srv'', ''x'']"
  "resolve (race_fs tree1) ''/srv/g'' = Inr [''srv'', ''g'']"
  "open_target 40 (race_fs tree1) ''/srv/x/g'' = Inr [''srv'', ''x'', ''g'']"
  "map_of tree1 [''srv'', ''g''] = Some (File ''data'')"
  by code_simp+

lemma race_calls:
  "create_dir (race_fs tree0) ''/srv/x'' = (Inr (), race_fs tree1)"
  "copy_content (race_fs tree1) ''/srv/g'' ''/srv/x/g'' = (Inr (), race_fs tree2)"
  "create_dir (race_fs tree2) ''/srv/x/x'' = (Inr (), race_fs tree3)"
  "remove_dir_all (race_fs tree3) ''/srv/x'' = (Inr (), race_fs tree0)"
  "read_dir (race_fs tree1) ''/srv'' = Inr [(''g'', File ''data''), (''x'', Dir)]"
  "read_dir (race_fs tree1) ''/srv/x'' = Inr []"
  "rename (race_fs tree1) ''/srv'' ''/srv/x'' = (Inl InvalidInput, race_fs tree1)"
  "remove_dir_all (race_fs tree1) ''/srv'' = (Inr (), race_fs [])"
  by (simp_all add: create_dir_def copy_content_def remove_dir_all_def read_dir_def rename_def race_paths race_lookup
      race_update) (simp_all add: race_trees race_lookup race_update children_def, simp_all add: race_fs_def)

lemma race_guard:
  assumes "tree \<in> {tree0, tree1, tree3}" "cache \<in> {[], root_cache}"
  shows "state_resolve_and_guard plain_externals (race_state tree cache) ''/x'' =
    (Inr ''/srv/x'', race_state tree root_cache)"
proof -
  have "resolve_and_guard id (race_fs tree) ''/srv'' ''/srv'' ''/x'' cache = (Inr ''/srv/x'', root_cache)"
    using assms by (elim insertE emptyE; hypsubst) (code_simp+)
  then show ?thesis
    by (simp add: state_resolve_and_guard_def race_update) (simp add: race_state_def plain_externals_def)
qed

lemma race_admit:
  assumes "tree \<in> {tree0, tree1, tree3}" "cache \<in> {[], root_cache}"
    and "req = move_root \<or> req = demo_req ''DELETE'' ''/x'' [] \<or> req = demo_req ''MKCOL'' ''/x'' []"
  shows "admit race_env req (race_server tree cache) = (None, race_server tree root_cache)"
proof -
  let ?st = "race_state tree cache"
  have none: "state_resolve_and_guard plain_externals ?st [] = (Inl InvalidPath, ?st)"
    by (simp add: state_resolve_and_guard_def resolve_and_guard_def resolve_write_target_def plain_externals_def
        trim_start_matches_def race_state_def)
  have unlocked: "is_path_locked now [] p [] rc rp = False" for now p rc rp
    by (simp add: is_path_locked_def walk_locked_ancestors_def walk_first_def eval_if_def active_slice_def)
  have locks: "st_locks (race_state t c) = []" for t c by (simp add: race_state_def)
  note simps = unlocked locks probe_def run_next_def empty_reply_def write_methods_def race_update
  have "lock_enforce probe plain_externals 0 req ?st = (Inr (status_response OK), race_state tree root_cache)"
    using assms(3)
  proof (elim disjE)
    assume r: "req = move_root"
    have d: "parse_destination (ext_pct plain_externals) (req_headers move_root) = Some ''/x''"
        "trim_end_matches sep ''/x'' = ''/x''" "trim_end_matches sep (req_path move_root) = []"
        "from_http_method (req_method move_root) = Some MOVE" "parse_if_header (req_headers move_root) = []"
      by code_simp+
    then show ?thesis
      by (simp add: r lock_enforce_def check_locked_def none race_guard [OF assms(1,2)] simps)
  qed (simp_all add: lock_enforce_def check_locked_def race_guard [OF assms(1,2)] from_http_method_def
      demo_req_def parse_if_header_def header_str_def trim_end_matches_def simps)
  then show ?thesis
    using assms(3)
    by (auto simp: admit_def and_then_def health_verdict_def tailscale_verdict_def auth_verdict_def lock_verdict_def
        race_server_def race_env_def demo_env_def is_health_check_def header_bytes_def move_root_def demo_req_def auth_is_empty_def
        auth_state_new_def)
qed

text \<open>The steps of the three handlers, on the trees that they find.\<close>

abbreviation at_race :: "request \<Rightarrow> task \<Rightarrow> (string list \<times> node) list \<Rightarrow> task \<times> app_state" where
  "at_race req t tree \<equiv> task_step plain_externals 0 req t (race_state tree root_cache)"

lemma lookup_keeps: "snd (guard_advance x rp G_Lookup st) = st"
  by (auto simp: Let_def split: option.split)

lemma guard_keeps: "snd (at_guard x rp wait k G_Lookup st) = st"
  using lookup_keeps [of x rp st]
  by (cases "guard_advance x rp G_Lookup st") (auto simp: at_guard_def split: sum.split)

lemma move_first_steps:
  "at_race move_root Begin tree0 = (Tr_Guard True ''/srv'' ''/x'' G_Lookup, race_state tree0 root_cache)"
  "at_race move_root (Tr_Guard True ''/srv'' ''/x'' G_Lookup) tree0 =
     (Tr_Exists True ''/srv'' ''/srv/x'', race_state tree0 root_cache)"
  "at_race move_root (Tr_Exists True ''/srv'' ''/srv/x'') tree0 = (Tr_Source root_transfer, race_state tree0 root_cache)"
  "at_race move_root (Tr_Source root_transfer) tree0 = (Tr_Copy root_transfer True False, race_state tree0 root_cache)"
proof -
  have "fst (at_race move_root Begin tree0) = Tr_Guard True ''/srv'' ''/x'' G_Lookup"
    "fst (at_race move_root (Tr_Guard True ''/srv'' ''/x'' G_Lookup) tree0) = Tr_Exists True ''/srv'' ''/srv/x''"
    "fst (at_race move_root (Tr_Exists True ''/srv'' ''/srv/x'') tree0) = Tr_Source root_transfer"
    "fst (at_race move_root (Tr_Source root_transfer) tree0) = Tr_Copy root_transfer True False"
    by code_simp+
  then show "at_race move_root Begin tree0 = (Tr_Guard True ''/srv'' ''/x'' G_Lookup, race_state tree0 root_cache)"
    "at_race move_root (Tr_Guard True ''/srv'' ''/x'' G_Lookup) tree0 =
       (Tr_Exists True ''/srv'' ''/srv/x'', race_state tree0 root_cache)"
    "at_race move_root (Tr_Exists True ''/srv'' ''/srv/x'') tree0 = (Tr_Source root_transfer, race_state tree0 root_cache)"
    "at_race move_root (Tr_Source root_transfer) tree0 = (Tr_Copy root_transfer True False, race_state tree0 root_cache)"
    using guard_keeps by (simp_all add: prod_eq_iff Let_def)
qed

lemma move_copy_steps:
  "at_race move_root (Tr_Copy root_transfer True False) tree0 =
     (Tr_Loop root_transfer [(''/srv'', ''/srv/x'')], race_state tree1 root_cache)"
  "at_race move_root (Tr_Loop root_transfer [(''/srv'', ''/srv/x'')]) tree1 =
     (Tr_Entries root_transfer ''/srv'' ''/srv/x'' [(''g'', File ''data''), (''x'', Dir)] [], race_state tree1 root_cache)"
  "at_race move_root (Tr_Entries root_transfer ''/srv'' ''/srv/x'' [(''g'', File ''data''), (''x'', Dir)] []) tree1 =
     (Tr_Entries root_transfer ''/srv'' ''/srv/x'' [(''x'', Dir)] [], race_state tree2 root_cache)"
  "at_race move_root (Tr_Entries root_transfer ''/srv'' ''/srv/x'' [(''x'', Dir)] []) tree2 =
     (Tr_Entries root_transfer ''/srv'' ''/srv/x'' [] [(''/srv/x'', ''/srv/x/x'')], race_state tree3 root_cache)"
  "at_race move_root (Tr_Entries root_transfer ''/srv'' ''/srv/x'' [] [(''/srv/x'', ''/srv/x/x'')]) tree3 =
     (Tr_Loop root_transfer [(''/srv/x'', ''/srv/x/x'')], race_state tree3 root_cache)"
proof -
  have j: "path_join ''/srv'' n = ''/srv/'' @ n" "path_join ''/srv/x'' n = ''/srv/x/'' @ n" if "n = ''g'' \<or> n = ''x''" for n
    using that by (auto simp: path_join_def starts_with_def)
  show "at_race move_root (Tr_Copy root_transfer True False) tree0 =
     (Tr_Loop root_transfer [(''/srv'', ''/srv/x'')], race_state tree1 root_cache)"
    "at_race move_root (Tr_Loop root_transfer [(''/srv'', ''/srv/x'')]) tree1 =
     (Tr_Entries root_transfer ''/srv'' ''/srv/x'' [(''g'', File ''data''), (''x'', Dir)] [], race_state tree1 root_cache)"
    "at_race move_root (Tr_Entries root_transfer ''/srv'' ''/srv/x'' [(''g'', File ''data''), (''x'', Dir)] []) tree1 =
     (Tr_Entries root_transfer ''/srv'' ''/srv/x'' [(''x'', Dir)] [], race_state tree2 root_cache)"
    "at_race move_root (Tr_Entries root_transfer ''/srv'' ''/srv/x'' [(''x'', Dir)] []) tree2 =
     (Tr_Entries root_transfer ''/srv'' ''/srv/x'' [] [(''/srv/x'', ''/srv/x/x'')], race_state tree3 root_cache)"
    "at_race move_root (Tr_Entries root_transfer ''/srv'' ''/srv/x'' [] [(''/srv/x'', ''/srv/x/x'')]) tree3 =
     (Tr_Loop root_transfer [(''/srv/x'', ''/srv/x/x'')], race_state tree3 root_cache)"
    by (simp_all add: root_transfer_def race_update race_calls copy_entry_def j or_answer_def Let_def)
qed

lemma delete_steps:
  "at_race (demo_req ''DELETE'' ''/x'' []) Begin tree3 = (Del_Stat ''/srv/x'', race_state tree3 root_cache)"
  "at_race (demo_req ''DELETE'' ''/x'' []) (Del_Stat ''/srv/x'') tree3 = (Del_Dir ''/srv/x'', race_state tree3 root_cache)"
  "at_race (demo_req ''DELETE'' ''/x'' []) (Del_Dir ''/srv/x'') tree3 =
     (Answered (empty_reply NO_CONTENT), race_state tree0 root_cache)"
proof -
  have "fst (at_race (demo_req ''DELETE'' ''/x'' []) Begin tree3) = Del_Stat ''/srv/x''"
    "fst (at_race (demo_req ''DELETE'' ''/x'' []) (Del_Stat ''/srv/x'') tree3) = Del_Dir ''/srv/x''"
    by code_simp+
  then show "at_race (demo_req ''DELETE'' ''/x'' []) Begin tree3 = (Del_Stat ''/srv/x'', race_state tree3 root_cache)"
    "at_race (demo_req ''DELETE'' ''/x'' []) (Del_Stat ''/srv/x'') tree3 = (Del_Dir ''/srv/x'', race_state tree3 root_cache)"
    "at_race (demo_req ''DELETE'' ''/x'' []) (Del_Dir ''/srv/x'') tree3 =
       (Answered (empty_reply NO_CONTENT), race_state tree0 root_cache)"
    by (simp_all add: prod_eq_iff race_update race_calls delete_reply_def)
qed

lemma mkcol_steps:
  "at_race (demo_req ''MKCOL'' ''/x'' []) Begin tree0 = (Mk_Guard G_Lookup, race_state tree0 root_cache)"
  "at_race (demo_req ''MKCOL'' ''/x'' []) (Mk_Guard G_Lookup) tree0 = (Mk_Stat ''/srv/x'', race_state tree0 root_cache)"
  "at_race (demo_req ''MKCOL'' ''/x'' []) (Mk_Stat ''/srv/x'') tree0 = (Mk_Create ''/srv/x'', race_state tree0 root_cache)"
  "at_race (demo_req ''MKCOL'' ''/x'' []) (Mk_Create ''/srv/x'') tree0 =
     (Answered (empty_reply CREATED), race_state tree1 root_cache)"
proof -
  have "fst (at_race (demo_req ''MKCOL'' ''/x'' []) Begin tree0) = Mk_Guard G_Lookup"
    "fst (at_race (demo_req ''MKCOL'' ''/x'' []) (Mk_Guard G_Lookup) tree0) = Mk_Stat ''/srv/x''"
    "fst (at_race (demo_req ''MKCOL'' ''/x'' []) (Mk_Stat ''/srv/x'') tree0) = Mk_Create ''/srv/x''"
    by code_simp+
  then show "at_race (demo_req ''MKCOL'' ''/x'' []) Begin tree0 = (Mk_Guard G_Lookup, race_state tree0 root_cache)"
    "at_race (demo_req ''MKCOL'' ''/x'' []) (Mk_Guard G_Lookup) tree0 = (Mk_Stat ''/srv/x'', race_state tree0 root_cache)"
    "at_race (demo_req ''MKCOL'' ''/x'' []) (Mk_Stat ''/srv/x'') tree0 = (Mk_Create ''/srv/x'', race_state tree0 root_cache)"
    "at_race (demo_req ''MKCOL'' ''/x'' []) (Mk_Create ''/srv/x'') tree0 =
       (Answered (empty_reply CREATED), race_state tree1 root_cache)"
    using guard_keeps by (simp_all add: prod_eq_iff race_update race_calls)
qed

lemma move_last_steps:
  "at_race move_root (Tr_Loop root_transfer [(''/srv/x'', ''/srv/x/x'')]) tree1 =
     (Tr_Entries root_transfer ''/srv/x'' ''/srv/x/x'' [] [], race_state tree1 root_cache)"
  "at_race move_root (Tr_Entries root_transfer ''/srv/x'' ''/srv/x/x'' [] []) tree1 =
     (Tr_Loop root_transfer [], race_state tree1 root_cache)"
  "at_race move_root (Tr_Loop root_transfer []) tree1 = (Tr_Rename root_transfer True, race_state tree1 root_cache)"
  "at_race move_root (Tr_Rename root_transfer True) tree1 = (Tr_Unlink root_transfer True, race_state tree1 root_cache)"
  "at_race move_root (Tr_Unlink root_transfer True) tree1 = (Tr_Props root_transfer, race_state [] root_cache)"
  "at_race move_root (Tr_Props root_transfer) [] = (Answered (empty_reply CREATED), race_state [] root_cache)"
  by (simp_all add: root_transfer_def race_update race_calls after_copy_def) (simp_all add: race_state_def migrate_dead_props_def)

lemma race_advance:
  assumes "at_race req t tree = (t1, race_state tree' root_cache)" "i < length ts" "ts ! i = (req, t)"
  shows "pool_step (Advance i race_env) \<lparr>pl_server = race_server tree root_cache, pl_tasks = ts\<rparr> =
    Some \<lparr>pl_server = race_server tree' root_cache, pl_tasks = ts[i := (req, t1)]\<rparr>"
  using assms by (simp add: race_server_def race_env_def demo_env_def)

lemma race_come:
  assumes "tree \<in> {tree0, tree1, tree3}" "cache \<in> {[], root_cache}"
    and "req = move_root \<or> req = demo_req ''DELETE'' ''/x'' [] \<or> req = demo_req ''MKCOL'' ''/x'' []"
  shows "pool_step (Come race_env req) \<lparr>pl_server = race_server tree cache, pl_tasks = ts\<rparr> =
    Some \<lparr>pl_server = race_server tree root_cache, pl_tasks = ts @ [(req, Begin)]\<rparr>"
  by (simp add: race_admit [OF assms])

definition race :: "pool_event list" where
  "race =
     Come race_env move_root # replicate 9 (Advance 0 race_env) @
     Come race_env (demo_req ''DELETE'' ''/x'' []) # replicate 3 (Advance 1 race_env) @
     Come race_env (demo_req ''MKCOL'' ''/x'' []) # replicate 4 (Advance 2 race_env) @
     replicate 6 (Advance 0 race_env)"

text \<open>
  C31: a MOVE of the root directory, which never succeeds alone, can succeed and delete everything. On
  a server for \<open>/srv\<close>, which holds a file, one client sends MOVE of \<open>/\<close> to \<open>/x\<close>. While its handler
  copies, another one deletes \<open>/x\<close> and makes it anew. The copy then finds nothing left to copy and
  comes to its end, the rename of the directory into itself fails, and so the handler removes its
  source, which is the root. All three requests are answered with success, the MOVE with 201, and
  the served directory is gone with all that it held.
\<close>

theorem move_of_root_deletes_everything:
  "\<exists>pl. pool_run race \<lparr>pl_server = race_server tree0 [], pl_tasks = []\<rparr> = Some pl \<and>
     fs_lookup (st_fs (srv_app (race_server tree0 []))) [''srv'', ''g''] = Some (File ''data'') \<and>
     map snd (pl_tasks pl) =
       [Answered (empty_reply CREATED), Answered (empty_reply NO_CONTENT), Answered (empty_reply CREATED)] \<and>
     fs_nodes (st_fs (pool_app pl)) = []"
proof -
  note steps = move_first_steps move_copy_steps delete_steps mkcol_steps move_last_steps
  note advance = steps [THEN race_advance]
  have "pool_run race \<lparr>pl_server = race_server tree0 [], pl_tasks = []\<rparr> =
      Some \<lparr>pl_server = race_server [] root_cache,
            pl_tasks = [(move_root, Answered (empty_reply CREATED)),
              (demo_req ''DELETE'' ''/x'' [], Answered (empty_reply NO_CONTENT)),
              (demo_req ''MKCOL'' ''/x'' [], Answered (empty_reply CREATED))]\<rparr>"
    by (simp add: race_def numeral_eq_Suc race_come advance del: pool_step.simps task_step.simps)
  moreover have "fs_lookup (st_fs (srv_app (race_server tree0 []))) [''srv'', ''g''] = Some (File ''data'')"
    by (simp add: race_server_def race_update race_lookup tree0_def)
  ultimately show ?thesis by (simp add: race_server_def race_update) (simp add: race_fs_def)
qed

subsection \<open>Runs of the properties on interleavings\<close>


theorem lone_task_is_dispatch_witness:
  "dispatch race_env (demo_req ''MKCOL'' ''/x'' []) (race_server tree0 root_cache) =
     (empty_reply CREATED, race_server tree1 root_cache) \<and>
   (\<exists>n. pool_run (replicate n (Advance 0 race_env))
          \<lparr>pl_server = race_server tree0 root_cache, pl_tasks = [(demo_req ''MKCOL'' ''/x'' [], Begin)]\<rparr> =
        Some \<lparr>pl_server = race_server tree1 root_cache,
              pl_tasks = [(demo_req ''MKCOL'' ''/x'' [], Answered (empty_reply CREATED))]\<rparr>)"
proof -
  let ?req = "demo_req ''MKCOL'' ''/x'' []"
  let ?pl = "\<lparr>pl_server = race_server tree0 root_cache, pl_tasks = [(?req, Begin)]\<rparr>"
  have r: "pool_run (replicate 4 (Advance 0 race_env)) ?pl =
      Some \<lparr>pl_server = race_server tree1 root_cache, pl_tasks = [(?req, Answered (empty_reply CREATED))]\<rparr>"
    by (simp add: numeral_eq_Suc mkcol_steps [THEN race_advance] del: pool_step.simps task_step.simps)
  have i: "0 < length (pl_tasks ?pl)" "pl_tasks ?pl ! 0 = (?req, Begin)" by simp_all
  note l = lone_task_is_dispatch [OF i, of race_env]
  have d: "dispatch race_env ?req (race_server tree0 root_cache) = (empty_reply CREATED, race_server tree1 root_cache)"
    using l [THEN conjunct1, rule_format, OF conjI [OF r]] by simp
  have "fst (dispatch race_env ?req (pl_server ?pl)) \<noteq> Inl NO_RESPONSE"
    unfolding pool.select_convs d by (simp add: empty_reply_def)
  with l have "\<exists>n. pool_run (replicate n (Advance 0 race_env)) ?pl =
      Some (?pl\<lparr>pl_server := snd (dispatch race_env ?req (pl_server ?pl)),
               pl_tasks := (pl_tasks ?pl)[0 := (?req, Answered (fst (dispatch race_env ?req (pl_server ?pl))))]\<rparr>)"
    by blast
  with d show ?thesis by simp
qed

definition lock_env :: environment where
  "lock_env = demo_env\<lparr>env_now := 7\<rparr>"

definition locked_store :: lock_store where
  "locked_store = [(''/srv/a'', [new_lock demo_lock_request ''opaquelocktoken:0000000000000007'' 7])]"

theorem exclusive_locks_exclude_concurrently_witness:
  "\<exists>pl. pool_run (replicate 2 (Advance 0 lock_env) @ [Sweep lock_env, Advance 0 lock_env])
       \<lparr>pl_server = race_server tree0 [], pl_tasks = [(demo_req ''LOCK'' ''/a'' [], Lk_Phase1 demo_lock_request)]\<rparr> = Some pl \<and>
     map_of (st_locks (pool_app pl)) ''/srv/a'' =
       Some [new_lock demo_lock_request ''opaquelocktoken:0000000000000007'' 7] \<and>
     active_slice 7 [new_lock demo_lock_request ''opaquelocktoken:0000000000000007'' 7] =
       [new_lock demo_lock_request ''opaquelocktoken:0000000000000007'' 7]"
proof -
  let ?l = "new_lock demo_lock_request ''opaquelocktoken:0000000000000007'' 7"
  let ?pl = "\<lparr>pl_server = race_server tree0 [], pl_tasks = [(demo_req ''LOCK'' ''/a'' [], Lk_Phase1 demo_lock_request)]\<rparr>"
  let ?es = "replicate 2 (Advance 0 lock_env) @ [Sweep lock_env, Advance 0 lock_env]"
  have env: "env_x lock_env = demo_externals" "env_now lock_env = 7" by (simp_all add: lock_env_def demo_env_def)
  have p1: "lock_phase1 demo_externals 7 demo_lock_request [] = (None, [(''/srv/a'', [])])" by code_simp
  have p2: "snd (lock_phase2 demo_externals 7 demo_lock_request c []) = locked_store" for c
    by (cases c; code_simp)
  have n: "locate (race_fs tree0) (lr_target demo_lock_request) = Inr ([''srv''], ''a'')" by code_simp
  have null: "ensure_lock_null_resource (lr_target demo_lock_request) (race_fs tree0) =
      (Inr True, race_fs (tree0 @ [([''srv'', ''a''], File [])]))"
    by (simp add: ensure_lock_null_resource_def file_create_new_def n race_lookup race_update)
      (simp add: race_update tree0_def)
  have prune: "prune_locks 7 [(''/srv/a'', [])] = []" by code_simp
  have "\<exists>pl. pool_run ?es ?pl = Some pl \<and> st_locks (pool_app pl) = locked_store"
    using p2 by (auto simp: numeral_2_eq_2 env p1 null prune race_server_def race_state_def cleanup_server_def cleanup_round_def
        or_answer_def split: prod.splits) (metis snd_conv)+
  then obtain pl where pl: "pool_run ?es ?pl = Some pl" "st_locks (pool_app pl) = locked_store" by blast
  have m: "map_of (st_locks (pool_app pl)) ''/srv/a'' = Some [?l]" by (simp add: pl(2) locked_store_def)
  have "st_locks (pool_app ?pl) = []" by (simp add: race_server_def race_state_def)
  moreover have "sorted (event_times ?es)" "\<forall>t\<in>set (event_times ?es). t \<le> 7" by (simp_all add: numeral_2_eq_2 env)
  moreover have "?l \<in> set (active_slice 7 [?l])" "lk_scope ?l = Exclusive"
    by (simp_all add: active_slice_def new_lock_def demo_lock_request_def is_expired_def)
  ultimately have "active_slice 7 [?l] = [?l]" using m by (rule_tac exclusive_locks_exclude_concurrently [OF pl(1)])
  with pl(1) m show ?thesis by blast
qed


end
