(* ===== verification/Spec2Isabelle.thy ===== *)
theory Spec2Isabelle
  imports Method Http_Time Cleanup Shadow_File Gaps Dead_Props Lock_Use Overwrite Hrefs Links Dir_Fallback Races
begin

text \<open>
  A model of rshs, an HTTP and WebDAV server for one directory, written in Rust on axum and tokio.
  Sources are named relative to \<open>src/\<close> of the crate; \<open>src/\<close> there is its code directory.

  \<^bold>\<open>The program.\<close> \<open>main.rs\<close> builds the credentials and the Tailscale allow-list from the command
  line (\<open>cli.rs\<close>, \<open>auth.rs\<close>, \<open>middleware/tailscale.rs\<close>) and starts the server (\<open>server/mod.rs\<close>),
  with TLS or without (\<open>server/tls.rs\<close>), until a signal ends it (\<open>server/shutdown.rs\<close>).
  A request passes the health check, the Tailscale gate, Basic authentication and the lock
  enforcement (\<open>middleware\<close>), and is dispatched by its method to a handler (\<open>handlers\<close>). Handlers
  resolve the path of the request below the root (\<open>utils/path.rs\<close>), work on the file system, and
  share three stores in \<open>AppState\<close>: dead properties, locks and the cache of canonical parents.
  A background task prunes expired locks and cached credentials (\<open>server/cleanup.rs\<close>).

  \<^bold>\<open>Theories and what they model.\<close>
  \<^item> \<open>Prelude\<close>, \<open>Hash_Map\<close>, \<open>Utf8\<close>: strings as lists of bytes with the operations of \<open>str\<close>, time,
    the contract of a hash map (a locale, interpreted by association lists), lossy UTF-8.
  \<^item> \<open>Std_Path\<close>, \<open>Fs_Model\<close>: \<open>std::path\<close> and the calls of \<open>std::fs\<close> on Linux that the code makes, on
    a finite tree of files, directories and symbolic links; \<open>fs_deny\<close> says which calls fail for a
    reason outside the tree, so that every error branch of the code can be taken. \<open>Net_Addr\<close> is the
    parser of socket addresses of \<open>std::net\<close>.
  \<^item> \<open>Http\<close> (\<open>utils/error.rs\<close>), \<open>Method\<close> (\<open>webdav/method.rs\<close>), \<open>Http_Time\<close> (\<open>utils/time.rs\<close>).
  \<^item> \<open>Paths\<close> (\<open>utils/path.rs\<close>), \<open>App_State\<close> (\<open>AppState\<close> without its authentication).
  \<^item> \<open>Webdav_Types\<close> (\<open>webdav/mod.rs\<close>), \<open>Lock_System\<close> (\<open>webdav/ls.rs\<close>), \<open>Xml\<close> (\<open>webdav/xml.rs\<close>),
    \<open>Collect\<close> (\<open>webdav/fs.rs\<close>), \<open>Scandir\<close> and \<open>Dir_Fallback\<close> (\<open>scandir.rs\<close>), \<open>Html\<close> (\<open>html.rs\<close>).
  \<^item> \<open>Lock_Handlers\<close> (\<open>handlers/locks.rs\<close>), \<open>Http_Handlers\<close> (\<open>handlers/http.rs\<close>),
    \<open>Webdav_Handlers\<close> (\<open>handlers/webdav.rs\<close>): a handler takes the externals, the time, the request
    and the state, and returns the answer (\<open>Inl\<close> a bare status, \<open>Inr\<close> a response) and the state.
  \<^item> \<open>Lock_Middleware\<close> (\<open>middleware/lock.rs\<close>), \<open>Auth\<close> (\<open>auth.rs\<close>), \<open>Tailscale\<close>
    (\<open>middleware/tailscale.rs\<close>), \<open>Cli\<close> (\<open>cli.rs\<close> and \<open>build_auth_state\<close>), \<open>Server\<close>
    (\<open>server/mod.rs\<close>, \<open>middleware/auth.rs\<close>, \<open>middleware/health.rs\<close>, \<open>main.rs\<close>), \<open>Cleanup\<close>
    (the rounds of \<open>server/cleanup.rs\<close>), \<open>Tls\<close> (\<open>server/tls.rs\<close>).
  \<^item> \<open>Lifecycle\<close> (\<open>start_server\<close>, \<open>main\<close>, the loop of \<open>server/cleanup.rs\<close>, \<open>server/shutdown.rs\<close>): starting
    is a function of the parsed command line and the file system; what a started server does is a
    sequence of events, \<open>life_step\<close> for one of them. A request is admitted by the middlewares in
    one event and handled in a later one, with others between them.
  \<^item> \<open>Tasks\<close> (\<open>handlers\<close>, \<open>resolve_and_guard\<close> and \<open>dispatch\<close> again): the same handlers as tasks that
    make one access to the shared state at a time, \<open>task_step\<close> for one of them; the constructors of
    \<open>task\<close> are the points at which a handler waits, with what the rest of it uses. \<open>Interleaving\<close>:
    the server with its requests in flight, \<open>pool_step\<close> for one event; tasks advance in any order,
    and one whose client has gone is dropped.

  \<^bold>\<open>What is shown.\<close>
  \<^item> \<open>Paths\<close>: what a path resolves to lies below the root.
  \<^item> \<open>Served_Tree\<close>, \<open>Request_Safety\<close>, \<open>Copy_Safety\<close>, \<open>Stack_Safety\<close> and this theory: every call,
    every handler and the whole stack keep the state well formed and leave the rest of the file
    system alone. \<open>tree_call\<close>, \<open>served_handler\<close> and \<open>gate\<close> are the contracts of a call, a handler
    and a middleware, stated as locales and interpreted for each of them.
  \<^item> \<open>Lifecycle\<close>: the same from the command line to the end of the process, for requests that
    overlap; a signal stops the server, after the requests it has admitted.
  \<^item> \<open>Task_Alone\<close>, \<open>Interleaving\<close>: a task that no other comes between is the handler as one function, so
    what is shown of handlers as functions holds for them; exclusive locks exclude in every
    interleaving. \<open>Task_Safety\<close>: every interleaving leaves the rest of the file system alone. \<open>Races\<close>:
    handlers other than COPY and MOVE answer after a bounded number of their own steps, and a MOVE of
    the root, which alone never succeeds, can succeed and delete everything.
  \<^item> \<open>Tree_Calls\<close>, \<open>Dav_Tree\<close>, \<open>Copy_Exact\<close>: the handlers refine an abstract tree of named files and
    collections; a copy returns and copies exactly. \<open>Locked_Tree\<close> puts the lock enforcement in
    front of this, \<open>Overwrite\<close> says what COPY and MOVE do to targets that exist, and \<open>Links\<close> what
    happens at symbolic links and stale entries of the cache.
  \<^item> \<open>Lock_Handlers\<close>, \<open>Lock_Middleware\<close>, \<open>Lock_System\<close>: an exclusive lock excludes others under every
    interleaving of the steps of LOCK, UNLOCK and the cleanup; which writes are refused.
    \<open>Lock_Use\<close>: LOCK, writes with and without the token, and UNLOCK, one after the other.
  \<^item> \<open>Auth_Safety\<close>, \<open>Shadow_File\<close>: nothing happens without credentials, with them the request is
    served, the cache changes no answer, the shadow file round trips.
  \<^item> \<open>Collect\<close>, \<open>Scandir\<close>, \<open>Xml\<close>, \<open>Html\<close>, \<open>Dead_Props\<close>, \<open>Webdav_Types\<close>, \<open>Http_Time\<close>, \<open>Cleanup\<close>: listings
    are complete, the XML given to the writer is well formed, requests and values round trip,
    dates are those of the calendar. \<open>Hrefs\<close>: the hrefs of a PROPFIND lead back to the resources
    they name. \<open>Dir_Fallback\<close>: both ways of reading a directory say the same, but for links.
  \<^item> \<open>Tls\<close>, \<open>Net_Addr\<close>: what is loaded, which connection is accepted, which addresses are understood.
  \<^item> \<open>Gaps\<close> and single theorems elsewhere state what the code does where a reader would expect
    something else.

  \<^bold>\<open>Bounds and fuel.\<close> The walk of PROPFIND gets as fuel the number of nodes plus one, and is shown
  never to use it up. \<open>create_dir_all\<close> gets the number of components of its path, one for each
  ancestor it may have to make. A path resolution follows at most 40 links, the bound of Linux.
  The copy loop has no fuel: it is a partial function whose value \<open>None\<close> says that it does not
  return; it returns when the target lies outside the source. So is the loop that accepts TLS connections,
  which returns when a handshake succeeds and none before it stalls. A panic is the status
  \<open>NO_RESPONSE\<close>, or \<open>None\<close> in a function that returns no status.

  \<^bold>\<open>Parameters.\<close> Code of other packages is a field of \<open>externals\<close> or \<open>auth_externals\<close>: percent
  coding, the events of the XML reader, MIME types, the hasher of lock tokens and of headers,
  the completions of the kernel's ring, password hashing and base64; of \<open>tls_externals\<close>: PEM files,
  SHA-256 and the configuration of rustls; of \<open>startup\<close>: binding a socket. Clocks are arguments.

  \<^bold>\<open>Not modelled.\<close> What sockets, signals and timers do, which is in the choice of events; the parsing
  of the command line by clap; logging, other than the fingerprints of certificates; the text that
  the XML writer makes of its events; file bits and ownership; the plumbing of tower in
  \<open>middleware/health.rs\<close>; signals on systems other than Unix. In \<open>Lifecycle\<close> a handler is one
  event; in \<open>Tasks\<close> it is interleaved with others, but the life of a file handle, a call of \<open>std::fs\<close>
  and a walk that only reads are one step, so a client that goes away in the middle of the body of a
  PUT, or readers that see half of it, are not modelled. Nor are the middlewares interleaved:
  a request is admitted in one event.
\<close>

section \<open>Properties of the whole server\<close>

text \<open>
  The router as a test drives it, without the events of \<open>Lifecycle\<close>: requests that it answers one after the other, with rounds of the
  cleanup task between them, each with its own clocks and its own answers of the code of other
  packages.
\<close>

inductive served_from :: "server \<Rightarrow> server \<Rightarrow> bool" for s0 where
  start: "served_from s0 s0"
| request: "served_from s0 s \<Longrightarrow> make_router env req s = (r, s') \<Longrightarrow> served_from s0 s'"
| cleanup: "served_from s0 s \<Longrightarrow> served_from s0 (cleanup_server env s)"

text \<open>
  Whatever is requested, the state stays well formed and nothing outside the root directory
  changes. From a state whose root is a directory without symbolic links below it, every sequence
  of requests and cleanup rounds leads to such a state again: the file system is a tree, the
  locks and the canonical cache hold canonical paths, every lock lies below the root, and every
  node outside the root directory, the root itself included, is as it was at the start.
\<close>

theorem requests_keep_served_state:
  assumes "served_from s0 s" and "app_ok rn (srv_app s0)"
  shows "app_ok rn (srv_app s) \<and> same_outside rn (st_fs (srv_app s0)) (st_fs (srv_app s))"
proof -
  from assms(1) have "app_step rn (srv_app s0) (srv_app s)"
  proof induction
    case start
    show ?case by (rule app_step_refl [OF assms(2)])
  next
    case (request s env req r s')
    from app_step_trans [OF request.IH router_step [OF app_step_ok [OF request.IH], of env req]] request.hyps(2)
    show ?case by simp
  next
    case (cleanup s env)
    show ?case by (rule app_step_trans [OF cleanup.IH cleanup_server_step [OF app_step_ok [OF cleanup.IH]]])
  qed
  then show ?thesis by (simp add: app_step_def)
qed

definition plain_server :: server where
  "plain_server = \<lparr>srv_app = plain_state, srv_auth = auth_state_new, srv_tailscale = Disabled\<rparr>"

theorem requests_keep_served_state_witness:
  "fs_lookup (st_fs (srv_app (snd (make_router demo_env (demo_req ''DELETE'' ''/../etc'' [])
      (cleanup_server demo_env plain_server))))) [''etc''] = Some Dir"
proof -
  let ?s = "cleanup_server demo_env plain_server"
  obtain r s' where m: "make_router demo_env (demo_req ''DELETE'' ''/../etc'' []) ?s = (r, s')" by fastforce
  have "served_from plain_server s'"
    by (rule served_from.request [OF served_from.cleanup [OF served_from.start] m])
  moreover have "app_ok [''srv''] (srv_app plain_server)"
    using readyD(1) [OF plain_ready(1)] by (simp add: plain_server_def)
  ultimately have "same_outside [''srv''] (st_fs (srv_app plain_server)) (st_fs (srv_app s'))"
    using requests_keep_served_state by blast
  then have "fs_lookup (st_fs (srv_app s')) [''etc''] = fs_lookup (st_fs (srv_app plain_server)) [''etc'']"
    unfolding same_outside_def by simp
  with m show ?thesis by (simp add: plain_server_def plain_state_def app_state_new_def plain_fs_def fs_lookup_def)
qed

end
